(* ===== verification/Prelude.thy ===== *)
theory Prelude
  imports Main "HOL-Library.Signed_Division"
begin

text \<open>
  What every component of the model shares: the result type in which an operation that C++
  leaves undefined, or that throws, is a value; the 64-bit readings of an integer; and the
  generic facts on lists, sums and results that the component theories use.

  \<^item> \<open>ub\<close> lists the ways an operation of the program can go wrong, \<open>'a res\<close> is
    either such a failure or the operation's value, and \<open>ubind\<close> runs one operation after
    another, stopping at the first failure.
  \<^item> \<open>u32\<close>, \<open>u64\<close>, \<open>s64\<close> read an integer in the width of the C++ type: unsigned
    arithmetic and the \<open>fetch_add\<close> of \<open>std::atomic<int64_t>\<close> wrap around.
    \<open>chk64\<close> is a plain signed operation, whose overflow is undefined behaviour.
  \<^item> \<open>sdiv\<close>, of the library, is the division of C++, which truncates towards zero.
\<close>

named_theorems res_simps \<open>rewriting the result type\<close>
named_theorems width_simps \<open>machine integers that are in range\<close>

section \<open>Results\<close>

datatype ub =
    NullDeref        \<comment> \<open>a null or end pointer is dereferenced\<close>
  | DivByZero
  | SignedOverflow
  | OutOfBounds      \<comment> \<open>\<open>operator[]\<close> of a vector past its end\<close>
  | BadRange         \<comment> \<open>\<open>uniform_int_distribution(a, b)\<close> with \<open>a > b\<close>\<close>
  | AssertFailed
  | Thrown           \<comment> \<open>an exception of the standard library\<close>
  | BadFree          \<comment> \<open>\<open>free\<close> or \<open>delete\<close> of memory that is not allocated\<close>
  | UseAfterFree     \<comment> \<open>an object is used outside its lifetime\<close>
  | Uninit           \<comment> \<open>a value that was never written is read\<close>
  | Exited           \<comment> \<open>the process calls \<open>exit\<close>\<close>
  | Diverge          \<comment> \<open>the operation does not return\<close>

type_synonym 'a res = "ub + 'a"

definition ubind :: "'a res \<Rightarrow> ('a \<Rightarrow> 'b res) \<Rightarrow> 'b res" where
  "ubind m f = (case m of Inl e \<Rightarrow> Inl e | Inr x \<Rightarrow> f x)"

lemma ubind_Inl [simp, res_simps]: "ubind (Inl e) f = Inl e"
  by (simp add: ubind_def)

lemma ubind_Inr [simp, res_simps]: "ubind (Inr x) f = f x"
  by (simp add: ubind_def)

lemma ubind_eq_Inr [res_simps]:
  "ubind m f = Inr y \<longleftrightarrow> (\<exists>x. m = Inr x \<and> f x = Inr y)"
  by (cases m) auto

lemma ubind_InrE [elim!]:
  assumes "ubind m f = Inr y"
  obtains x where "m = Inr x" and "f x = Inr y"
  using assms by (auto simp: ubind_eq_Inr)

lemma ubind_cong [fundef_cong]:
  "m = m' \<Longrightarrow> (\<And>x. m' = Inr x \<Longrightarrow> f x = f' x) \<Longrightarrow> ubind m f = ubind m' f'"
  by (cases m') auto

definition of_opt :: "ub \<Rightarrow> 'a option \<Rightarrow> 'a res" where
  "of_opt e x = (case x of None \<Rightarrow> Inl e | Some y \<Rightarrow> Inr y)"

lemma of_opt_simps [simp, res_simps]:
  "of_opt e None = Inl e" "of_opt e (Some y) = Inr y"
  by (simp_all add: of_opt_def)

lemma of_opt_eq_Inr [res_simps]: "of_opt e x = Inr y \<longleftrightarrow> x = Some y"
  by (cases x) auto

text \<open>Running an operation for every element of a list.\<close>

fun run_res :: "('x \<Rightarrow> 's \<Rightarrow> 's res) \<Rightarrow> 'x list \<Rightarrow> 's \<Rightarrow> 's res" where
  "run_res f [] s = Inr s"
| "run_res f (x # xs) s = ubind (f x s) (run_res f xs)"

lemma run_res_append: "run_res f (xs @ ys) s = ubind (run_res f xs s) (run_res f ys)"
  by (induction xs arbitrary: s) (auto simp: ubind_def split: sum.splits)

section \<open>Machine integers\<close>

definition u32 :: "nat \<Rightarrow> nat" where
  "u32 x = x mod 2 ^ 32"

definition u64 :: "int \<Rightarrow> int" where
  "u64 x = x mod 2 ^ 64"

definition s32 :: "int \<Rightarrow> int" where
  "s32 x = (x + 2 ^ 31) mod 2 ^ 32 - 2 ^ 31"

definition s64 :: "int \<Rightarrow> int" where
  "s64 x = (x + 2 ^ 63) mod 2 ^ 64 - 2 ^ 63"

definition in64 :: "int \<Rightarrow> bool" where
  "in64 x \<longleftrightarrow> - (2 ^ 63) \<le> x \<and> x < 2 ^ 63"

definition chk64 :: "int \<Rightarrow> int res" where
  "chk64 x = (if in64 x then Inr x else Inl SignedOverflow)"

lemma chk64_Inr [simp, res_simps]: "chk64 x = Inr y \<longleftrightarrow> in64 x \<and> y = x"
  by (auto simp: chk64_def)

lemma chk64_in [simp, width_simps]: "in64 x \<Longrightarrow> chk64 x = Inr x"
  by (simp add: chk64_def)

lemma u32_id [width_simps]: "x < 2 ^ 32 \<Longrightarrow> u32 x = x"
  by (simp add: u32_def)

lemma u64_id [width_simps]: "0 \<le> x \<Longrightarrow> x < 2 ^ 64 \<Longrightarrow> u64 x = x"
  by (simp add: u64_def)

lemma s64_id [width_simps]: "in64 x \<Longrightarrow> s64 x = x"
  by (simp add: s64_def in64_def)

lemma s32_id [width_simps]: "- (2 ^ 31) \<le> x \<Longrightarrow> x < 2 ^ 31 \<Longrightarrow> s32 x = x"
  by (simp add: s32_def)

lemma in64_s64: "in64 (s64 x)"
  by (simp add: s64_def in64_def)

lemma s64_0 [simp]: "s64 0 = 0"
  by (simp add: s64_def)

text \<open>Wrapping is compatible with addition, so a sum kept by \<open>fetch_add\<close> is the wrapped sum.\<close>

lemma s64_s64_add [simp]: "s64 (s64 a + b) = s64 (a + b)"
proof -
  have "(s64 a + b + 2 ^ 63) mod 2 ^ 64 = ((a + 2 ^ 63) mod 2 ^ 64 + b) mod 2 ^ 64"
    by (simp add: s64_def algebra_simps)
  also have "\<dots> = (a + b + 2 ^ 63) mod 2 ^ 64"
    by (subst mod_add_left_eq) (simp add: algebra_simps)
  finally show ?thesis by (simp add: s64_def [of "s64 a + b"] s64_def [of "a + b"])
qed

lemma s64_s64_diff [simp]: "s64 (s64 a - b) = s64 (a - b)"
  using s64_s64_add [of a "- b"] by simp

lemma sdiv_nonneg [width_simps]: "0 \<le> a \<Longrightarrow> 0 \<le> b \<Longrightarrow> (a :: int) sdiv b = a div b"
  by (simp add: signed_divide_int_def sgn_if)

text \<open>An unsigned 64-bit division of operands that are in range is the exact one.\<close>

lemma s64_u64_div [width_simps]:
  assumes "0 \<le> a" "a < 2 ^ 63" "0 < b" "b < 2 ^ 63"
  shows "s64 (u64 a div u64 b) = a div b"
proof -
  have "a div b \<le> a" using assms zdiv_mono2 [of a 1 b] by simp
  moreover have "0 \<le> a div b" using assms by (simp add: pos_imp_zdiv_nonneg_iff)
  ultimately have "in64 (a div b)" using assms by (simp add: in64_def)
  then show ?thesis using assms by (simp add: s64_id u64_id)
qed

section \<open>Lists and sums\<close>

lemma nth_append_last [simp]: "(xs @ [x]) ! length xs = x"
  by simp

lemma sum_fun_upd_add:
  fixes w :: "'a \<Rightarrow> int"
  assumes "finite A"
  shows "sum (w(k := w k + d)) A = sum w A + (if k \<in> A then d else 0)"
proof (cases "k \<in> A")
  case True
  then have "sum (w(k := w k + d)) A = (w k + d) + sum (w(k := w k + d)) (A - {k})"
    using assms by (simp add: sum.remove)
  also have "sum (w(k := w k + d)) (A - {k}) = sum w (A - {k})"
    by (rule sum.cong) auto
  also have "(w k + d) + sum w (A - {k}) = sum w A + d"
    using True assms by (simp add: sum.remove)
  finally show ?thesis using True by simp
next
  case False
  then have "sum (w(k := w k + d)) A = sum w A"
    by (intro sum.cong) auto
  with False show ?thesis by simp
qed

end
