(* ===== verification/Locks.thy ===== *)
theory Locks
  imports Prelude
begin

text \<open>
  \<open>Spinlock\<close>, \<open>SpinlockGuard\<close>, \<open>CoMutex\<close> and \<open>GuardCoMutex\<close> (\<open>include/spinlock.h\<close>,
  \<open>include/spinlock_guard.h\<close>, \<open>include/comutex.h\<close>). Both locks are a loop around one atomic
  operation; they differ in what a failed try does (the coroutine lock yields to the loop of
  its processor), not in what it does to the lock. The locale \<open>lock_word\<close> is that one operation
  and the release, and the clients are any number of guards over one lock, each a step at a
  time.
\<close>

section \<open>The locks\<close>

text \<open>\<open>Spinlock\<close>: 1 is free. One round of its loop is \<open>compare_exchange_strong(exp, 0)\<close>.\<close>

record spinlock =
  sl_sem :: int

definition spinlock_new :: spinlock where
  "spinlock_new = \<lparr>sl_sem = 1\<rparr>"

definition compare_exchange :: "int \<Rightarrow> int \<Rightarrow> spinlock \<Rightarrow> spinlock \<times> bool" where
  "compare_exchange exp val l =
     (if sl_sem l = exp then (l\<lparr>sl_sem := val\<rparr>, True) else (l, False))"

definition spin_try :: "spinlock \<Rightarrow> spinlock \<times> bool" where
  "spin_try l = compare_exchange 1 0 l"

definition spin_unlock :: "spinlock \<Rightarrow> spinlock" where
  "spin_unlock l = l\<lparr>sl_sem := 1\<rparr>"

text \<open>\<open>CoMutex\<close>: one round is \<open>test_and_set\<close>, whose result is the old value.\<close>

record comutex =
  cm_locked :: bool

definition comutex_new :: comutex where
  "comutex_new = \<lparr>cm_locked = False\<rparr>"

definition comutex_try :: "comutex \<Rightarrow> comutex \<times> bool" where
  "comutex_try m = (m\<lparr>cm_locked := True\<rparr>, \<not> cm_locked m)"

definition comutex_unlock :: "comutex \<Rightarrow> comutex" where
  "comutex_unlock m = m\<lparr>cm_locked := False\<rparr>"

text \<open>
  \<open>MutexLock\<close>, a pthread mutex: a call of \<open>lock\<close> that finds it taken blocks, so a try that fails
  is a thread that is still blocked.
\<close>

record mutex_lock =
  ml_locked :: bool

definition mutex_init :: mutex_lock where
  "mutex_init = \<lparr>ml_locked = False\<rparr>"

definition mutex_try :: "mutex_lock \<Rightarrow> mutex_lock \<times> bool" where
  "mutex_try m = (if ml_locked m then (m, False) else (m\<lparr>ml_locked := True\<rparr>, True))"

definition mutex_unlock :: "mutex_lock \<Rightarrow> mutex_lock" where
  "mutex_unlock m = m\<lparr>ml_locked := False\<rparr>"

section \<open>Guards\<close>
text \<open>
  A client is outside, in the loop of \<open>lock()\<close> of its guard's constructor, or inside until the
  guard's destructor calls \<open>unlock()\<close>.
\<close>

datatype guard_pc = Outside | Locking | Inside

inductive guard_step ::
  "('l \<Rightarrow> 'l \<times> bool) \<Rightarrow> ('l \<Rightarrow> 'l) \<Rightarrow> 'l \<times> (nat \<Rightarrow> guard_pc) \<Rightarrow> 'l \<times> (nat \<Rightarrow> guard_pc) \<Rightarrow> bool"
  for try_lock :: "'l \<Rightarrow> 'l \<times> bool" and unlock :: "'l \<Rightarrow> 'l" where
  construct: "g i = Outside \<Longrightarrow> guard_step try_lock unlock (l, g) (l, g(i := Locking))"
| acquired: "g i = Locking \<Longrightarrow> try_lock l = (l', True) \<Longrightarrow>
    guard_step try_lock unlock (l, g) (l', g(i := Inside))"
| refused: "g i = Locking \<Longrightarrow> try_lock l = (l', False) \<Longrightarrow> guard_step try_lock unlock (l, g) (l', g)"
| destruct: "g i = Inside \<Longrightarrow> guard_step try_lock unlock (l, g) (unlock l, g(i := Outside))"

inductive guard_reach ::
  "('l \<Rightarrow> 'l \<times> bool) \<Rightarrow> ('l \<Rightarrow> 'l) \<Rightarrow> 'l \<Rightarrow> 'l \<times> (nat \<Rightarrow> guard_pc) \<Rightarrow> bool"
  for try_lock :: "'l \<Rightarrow> 'l \<times> bool" and unlock :: "'l \<Rightarrow> 'l" and l0 :: 'l where
  guard_start: "guard_reach try_lock unlock l0 (l0, \<lambda>_. Outside)"
| guard_next: "guard_reach try_lock unlock l0 s \<Longrightarrow> guard_step try_lock unlock s t \<Longrightarrow>
    guard_reach try_lock unlock l0 t"

section \<open>The contract of a lock word\<close>

locale lock_word =
  fixes is_free :: "'l \<Rightarrow> bool"
    and try_lock :: "'l \<Rightarrow> 'l \<times> bool"
    and unlock :: "'l \<Rightarrow> 'l"
    and fresh :: 'l
  assumes fresh_free: "is_free fresh"
    and try_free: "is_free l \<Longrightarrow> snd (try_lock l) \<and> \<not> is_free (fst (try_lock l))"
    and try_taken: "\<not> is_free l \<Longrightarrow> \<not> snd (try_lock l) \<and> \<not> is_free (fst (try_lock l))"
    and unlock_free: "is_free (unlock l)"
begin

lemma guard_inv:
  "guard_reach try_lock unlock fresh s \<Longrightarrow>
   (is_free (fst s) \<longrightarrow> (\<forall>i. snd s i \<noteq> Inside)) \<and>
   (\<not> is_free (fst s) \<longrightarrow> (\<exists>i. \<forall>j. snd s j = Inside \<longleftrightarrow> j = i))"
proof (induction rule: guard_reach.induct)
  case guard_start
  then show ?case using fresh_free by simp
next
  case (guard_next s t)
  from guard_next(2) show ?case
  proof cases
    case (construct g i l)
    then have "(g(i := Locking)) j = Inside \<longleftrightarrow> g j = Inside" for j by auto
    then show ?thesis using guard_next.IH construct(1,2) by simp
  next
    case (acquired g i l l')
    have "is_free l" using try_taken [of l] acquired by auto
    then have "\<forall>j. g j \<noteq> Inside" "\<not> is_free l'" using guard_next.IH try_free [of l] acquired by auto
    then show ?thesis using acquired by auto
  next
    case (refused g i l l')
    then show ?thesis using guard_next.IH try_free [of l] try_taken [of l] by auto
  next
    case (destruct g i l)
    then show ?thesis using guard_next.IH unlock_free [of l] by (auto split: if_splits)
  qed
qed

lemma exclusive:
  "guard_reach try_lock unlock fresh (l, g) \<Longrightarrow> g i = Inside \<Longrightarrow> g j = Inside \<Longrightarrow> i = j"
  using guard_inv [of "(l, g)"] by (cases "is_free l") auto

lemma available:
  "guard_reach try_lock unlock fresh (l, g) \<Longrightarrow> \<forall>j. g j \<noteq> Inside \<Longrightarrow> snd (try_lock l)"
  using guard_inv [of "(l, g)"] try_free [of l] by (cases "is_free l") auto

lemma busy:
  "guard_reach try_lock unlock fresh (l, g) \<Longrightarrow> g j = Inside \<Longrightarrow> \<not> snd (try_lock l)"
  using guard_inv [of "(l, g)"] try_taken [of l] by (cases "is_free l") auto

end

interpretation spin: lock_word "\<lambda>l. sl_sem l = 1" spin_try spin_unlock spinlock_new
  by unfold_locales (simp_all add: spinlock_new_def spin_try_def compare_exchange_def spin_unlock_def)

interpretation comu: lock_word "\<lambda>m. \<not> cm_locked m" comutex_try comutex_unlock comutex_new
  by unfold_locales (simp_all add: comutex_new_def comutex_try_def comutex_unlock_def)

interpretation mutex: lock_word "\<lambda>m. \<not> ml_locked m" mutex_try mutex_unlock mutex_init
  by unfold_locales (simp_all add: mutex_init_def mutex_try_def mutex_unlock_def)

section \<open>Properties\<close>

text \<open>
  With any number of threads that use a \<open>Spinlock\<close> through guards, in every reachable state
  at most one is inside, a try of another fails as long as it is, and when none is inside the
  next try succeeds.
\<close>

theorem spinlock_exclusive:
  assumes "guard_reach spin_try spin_unlock spinlock_new (l, g)"
  shows "(\<forall>i j. g i = Inside \<longrightarrow> g j = Inside \<longrightarrow> i = j) \<and>
    (snd (spin_try l) \<longleftrightarrow> (\<forall>j. g j \<noteq> Inside))"
  using spin.exclusive [OF assms] spin.available [OF assms] spin.busy [OF assms] by blast

text \<open>
  The same holds of coroutines that use a \<open>CoMutex\<close> through guards: mutual exclusion, and
  the lock is free exactly when none is inside.
\<close>

theorem comutex_exclusive:
  assumes "guard_reach comutex_try comutex_unlock comutex_new (m, g)"
  shows "(\<forall>i j. g i = Inside \<longrightarrow> g j = Inside \<longrightarrow> i = j) \<and>
    (snd (comutex_try m) \<longleftrightarrow> (\<forall>j. g j \<noteq> Inside))"
  using comu.exclusive [OF assms] comu.available [OF assms] comu.busy [OF assms] by blast

lemma spin_demo:
  "guard_reach spin_try spin_unlock spinlock_new (\<lparr>sl_sem = 0\<rparr>, (\<lambda>_. Outside)(0 := Inside))"
proof -
  have "guard_reach spin_try spin_unlock spinlock_new (spinlock_new, (\<lambda>_. Outside)(0 := Locking))"
    by (rule guard_next [OF guard_start construct]) simp
  from guard_next [OF this acquired [of _ 0]] show ?thesis
    by (simp add: spin_try_def compare_exchange_def spinlock_new_def)
qed

lemma comutex_demo:
  "guard_reach comutex_try comutex_unlock comutex_new (\<lparr>cm_locked = True\<rparr>, (\<lambda>_. Outside)(0 := Inside))"
proof -
  have "guard_reach comutex_try comutex_unlock comutex_new (comutex_new, (\<lambda>_. Outside)(0 := Locking))"
    by (rule guard_next [OF guard_start construct]) simp
  from guard_next [OF this acquired [of _ 0]] show ?thesis
    by (simp add: comutex_try_def comutex_new_def)
qed

lemma spinlock_exclusive_witness:
  "guard_reach spin_try spin_unlock spinlock_new (\<lparr>sl_sem = 0\<rparr>, (\<lambda>_. Outside)(0 := Inside)) \<and>
   \<not> snd (spin_try \<lparr>sl_sem = 0\<rparr>)"
  using spinlock_exclusive [OF spin_demo, THEN conjunct2] spin_demo fun_upd_same by metis

lemma comutex_exclusive_witness:
  "guard_reach comutex_try comutex_unlock comutex_new (\<lparr>cm_locked = True\<rparr>, (\<lambda>_. Outside)(0 := Inside)) \<and>
   \<not> snd (comutex_try \<lparr>cm_locked = True\<rparr>)"
  using comutex_exclusive [OF comutex_demo, THEN conjunct2] comutex_demo fun_upd_same by metis

end
