(* ===== verification/Decimal.thy ===== *)
theory Decimal
  imports Prelude
begin

text \<open>
  Integers as text, as the C++ library writes and reads them: \<open>os << n\<close> is used by the logger
  (\<open>src/log.cc\<close>), by the addresses of servers and by \<open>include/json.h\<close>, \<open>std::stoi\<close> by the channel
  of a call, which reads such an address. What was written is read back.
\<close>

text \<open>\<open>os << n\<close> of an integer.\<close>

fun dec_nat :: "nat \<Rightarrow> string" where
  "dec_nat n =
     (if n < 10 then [char_of (48 + n)] else dec_nat (n div 10) @ [char_of (48 + n mod 10)])"

declare dec_nat.simps [simp del]

definition dec :: "int \<Rightarrow> string" where
  "dec x = (if x < 0 then ''-'' @ dec_nat (nat (- x)) else dec_nat (nat x))"

text \<open>\<open>std::stoi\<close>, which throws when there is no number or it does not fit.\<close>

definition is_space :: "char \<Rightarrow> bool" where
  "is_space c \<longleftrightarrow> c = CHR '' '' \<or> (9 \<le> (of_char c :: nat) \<and> (of_char c :: nat) \<le> 13)"

definition is_digit :: "char \<Rightarrow> bool" where
  "is_digit c \<longleftrightarrow> 48 \<le> (of_char c :: nat) \<and> (of_char c :: nat) \<le> 57"

fun digits_val :: "nat \<Rightarrow> string \<Rightarrow> nat" where
  "digits_val acc [] = acc"
| "digits_val acc (c # cs) = (if is_digit c then digits_val (10 * acc + (of_char c - 48)) cs else acc)"

definition stoi :: "string \<Rightarrow> int res" where
  "stoi s =
     (let s = dropWhile is_space s;
          neg = (take 1 s = ''-'');
          s = (if take 1 s = ''-'' \<or> take 1 s = ''+'' then drop 1 s else s)
      in if s = [] \<or> \<not> is_digit (hd s) then Inl Thrown
         else let x = (if neg then - int (digits_val 0 s) else int (digits_val 0 s))
              in if - (2 ^ 31) \<le> x \<and> x < 2 ^ 31 then Inr x else Inl Thrown)"

section \<open>Reading what was written\<close>

lemma dec_nat_digits: "c \<in> set (dec_nat n) \<Longrightarrow> is_digit c"
proof (induction n rule: dec_nat.induct)
  case (1 n)
  have d: "is_digit (char_of (48 + k :: nat))" if "k < 10" for k using that by (simp add: is_digit_def)
  show ?case
  proof (cases "n < 10")
    case True
    then show ?thesis using 1(2) d [OF True] by (subst (asm) dec_nat.simps) simp
  next
    case False
    then have "c \<in> set (dec_nat (n div 10)) \<or> c = char_of (48 + n mod 10)"
      using 1(2) by (subst (asm) dec_nat.simps) auto
    with 1(1) [OF False] d [of "n mod 10"] show ?thesis by auto
  qed
qed

lemma digits_val_append: "\<forall>c \<in> set s. is_digit c \<Longrightarrow> digits_val acc (s @ t) = digits_val (digits_val acc s) t"
  by (induction s arbitrary: acc) auto

lemma digits_val_dec: "digits_val 0 (dec_nat n) = n"
proof (induction n rule: dec_nat.induct)
  case (1 n)
  have d: "digits_val a [char_of (48 + k)] = 10 * a + k" if "k < 10" for a k
    using that by (simp add: is_digit_def)
  show ?case
  proof (cases "n < 10")
    case True
    then show ?thesis using d [OF True, of 0] by (subst dec_nat.simps) simp
  next
    case False
    then have "dec_nat n = dec_nat (n div 10) @ [char_of (48 + n mod 10)]"
      by (subst dec_nat.simps) simp
    then have "digits_val 0 (dec_nat n) = digits_val (digits_val 0 (dec_nat (n div 10))) [char_of (48 + n mod 10)]"
      by (metis dec_nat_digits digits_val_append)
    also have "\<dots> = 10 * (n div 10) + n mod 10" by (simp only: 1 [OF False] d [of "n mod 10"] mod_less_divisor)
    finally show ?thesis by simp
  qed
qed

lemma dec_nat_nonempty: "dec_nat n \<noteq> []"
  by (subst dec_nat.simps) simp

lemma digit_plain: "is_digit c \<Longrightarrow> \<not> is_space c \<and> c \<noteq> CHR ''-'' \<and> c \<noteq> CHR ''+'' \<and> c \<noteq> CHR '':''"
  by (auto simp: is_digit_def is_space_def)

lemma stoi_digits:
  assumes "s \<noteq> []" "\<forall>c \<in> set s. is_digit c" "int (digits_val 0 s) < 2 ^ 31"
  shows "stoi s = Inr (int (digits_val 0 s))"
proof -
  obtain c cs where s: "s = c # cs" using assms(1) by (cases s) auto
  then have "is_digit c" using assms(2) by simp
  then show ?thesis using digit_plain [of c] assms(3) by (simp add: s stoi_def Let_def)
qed

lemma stoi_neg_digits:
  assumes "s \<noteq> []" "\<forall>c \<in> set s. is_digit c" "int (digits_val 0 s) \<le> 2 ^ 31"
  shows "stoi (CHR ''-'' # s) = Inr (- int (digits_val 0 s))"
  using assms by (simp add: stoi_def Let_def is_space_def)

lemma stoi_dec: "- (2 ^ 31) \<le> n \<Longrightarrow> n < 2 ^ 31 \<Longrightarrow> stoi (dec n) = Inr n"
  using stoi_digits [OF dec_nat_nonempty, of "nat n"] stoi_neg_digits [OF dec_nat_nonempty, of "nat (- n)"]
    dec_nat_digits
  by (auto simp: dec_def digits_val_dec)

lemma length_dec_nat: "n < 10 ^ k \<Longrightarrow> 0 < k \<Longrightarrow> length (dec_nat n) \<le> k"
proof (induction k arbitrary: n)
  case (Suc k)
  show ?case
  proof (cases "n < 10")
    case True
    then show ?thesis by (simp add: dec_nat.simps [of n])
  next
    case False
    then have "0 < k" using Suc.prems(1) by (cases k) auto
    moreover have "n div 10 < 10 ^ k" using Suc.prems(1) by (simp add: less_mult_imp_div_less)
    ultimately show ?thesis using Suc.IH False by (simp add: dec_nat.simps [of n])
  qed
qed simp

end
