(* ===== verification/Log.thy ===== *)
theory Log
  imports Decimal
begin

text \<open>
  The logger (\<open>src/log.cc\<close>, \<open>include/log.h\<close>): events, the formatter with its format strings,
  appenders, loggers and their manager. Loggers and appenders are shared objects and live in
  stores, named by numbers. What an appender has written is a string; the conversion of a time
  to text (\<open>localtime_r\<close>, \<open>strftime\<close>) is an argument. Format strings and the items they are
  parsed into are checked against an abstract syntax of format strings.
\<close>

section \<open>Events\<close>

datatype log_level = UNKNOWN | DEBUG | INFO | WARN | ERROR | FATAL

fun level_val :: "log_level \<Rightarrow> int" where
  "level_val UNKNOWN = 0"
| "level_val DEBUG = 1"
| "level_val INFO = 2"
| "level_val WARN = 3"
| "level_val ERROR = 4"
| "level_val FATAL = 5"

text \<open>Levels are compared as the enumeration compares them.\<close>

instantiation log_level :: linorder
begin

definition less_eq_log_level :: "log_level \<Rightarrow> log_level \<Rightarrow> bool" where
  "less_eq_log_level a b \<longleftrightarrow> level_val a \<le> level_val b"

definition less_log_level :: "log_level \<Rightarrow> log_level \<Rightarrow> bool" where
  "less_log_level a b \<longleftrightarrow> level_val a < level_val b"

instance
proof
  fix a b :: log_level
  show "a \<le> b \<Longrightarrow> b \<le> a \<Longrightarrow> a = b" by (cases a; cases b) (simp_all add: less_eq_log_level_def)
qed (auto simp: less_eq_log_level_def less_log_level_def)

end

record log_event =
  le_file :: string
  le_line :: int
  le_elapse :: int
  le_time :: int
  le_threadId :: int
  le_coId :: int
  le_level :: log_level
  le_ss :: string
  le_logger :: nat

text \<open>The constructor; thread and coroutine go through \<open>uint32_t\<close> to \<open>int\<close>.\<close>

definition log_event_new ::
  "nat \<Rightarrow> log_level \<Rightarrow> string \<Rightarrow> int \<Rightarrow> int \<Rightarrow> int \<Rightarrow> int \<Rightarrow> int \<Rightarrow> log_event" where
  "log_event_new logger level file line elapse thread_id co_id time =
     \<lparr>le_file = file, le_line = line mod 2 ^ 32, le_elapse = elapse mod 2 ^ 32, le_time = time,
      le_threadId = s32 (thread_id mod 2 ^ 32), le_coId = s32 (co_id mod 2 ^ 32),
      le_level = level, le_ss = '''', le_logger = logger\<rparr>"

text \<open>\<open>format\<close>: what \<open>vasprintf\<close> produced, or nothing when it failed.\<close>

definition event_format :: "string option \<Rightarrow> log_event \<Rightarrow> log_event" where
  "event_format text e = (case text of None \<Rightarrow> e | Some s \<Rightarrow> e\<lparr>le_ss := le_ss e @ s\<rparr>)"

section \<open>Format items\<close>

datatype event_parse =
    DateTimeFormatItem
  | TabFormatItem
  | ThreadIdFormatItem
  | FiberIdFormatItem
  | LevelFormatItem
  | NameFormatItem
  | FilenameFormatItem
  | LineFormatItem
  | MessageFormatItem
  | NewLineFormatItem

fun level_name :: "log_level \<Rightarrow> string" where
  "level_name DEBUG = ''DEBUG''"
| "level_name INFO = ''INFO''"
| "level_name WARN = ''WARN''"
| "level_name ERROR = ''ERROR''"
| "level_name FATAL = ''FATAL''"
| "level_name UNKNOWN = ''UNKNOWN''"

text \<open>
  \<open>dt\<close> is the text of a time, \<open>name\<close> the name of a logger. The text of a date has 19 characters,
  so the buffer of 64 is never too small.
\<close>

fun format_item :: "(int \<Rightarrow> string) \<Rightarrow> (nat \<Rightarrow> string) \<Rightarrow> event_parse \<Rightarrow> log_event \<Rightarrow> string" where
  "format_item dt name DateTimeFormatItem e = dt (le_time e)"
| "format_item dt name TabFormatItem e = [CHR 0x09]"
| "format_item dt name ThreadIdFormatItem e = dec (le_threadId e)"
| "format_item dt name FiberIdFormatItem e = dec (le_coId e)"
| "format_item dt name LevelFormatItem e = level_name (le_level e)"
| "format_item dt name NameFormatItem e = name (le_logger e)"
| "format_item dt name FilenameFormatItem e = le_file e"
| "format_item dt name LineFormatItem e = dec (le_line e)"
| "format_item dt name MessageFormatItem e = le_ss e"
| "format_item dt name NewLineFormatItem e = [CHR 0x0A]"

datatype fmt_item = Str string | Foo event_parse

text \<open>The constructor from text copies up to the first NUL.\<close>

definition item_str :: "string \<Rightarrow> fmt_item" where
  "item_str s = Str (takeWhile (\<lambda>c. c \<noteq> CHR 0x00) s)"

section \<open>The formatter\<close>

text \<open>
  \<open>init\<close>. The body of one \<open>case\<close> of its \<open>switch\<close>: the text since \<open>substr_start\<close>, if there is
  any before the percent sign, then the item. The case of \<open>d\<close> takes one character more of the
  text than the others; those of \<open>N\<close> and \<open>c\<close> have no item.
\<close>

definition directive_items :: "string \<Rightarrow> nat \<Rightarrow> nat \<Rightarrow> nat \<Rightarrow> event_parse option \<Rightarrow> fmt_item list" where
  "directive_items format substr_start i len it =
     (if int substr_start \<le> int i - 2 then [item_str (take len (drop substr_start format))] else []) @
     (case it of None \<Rightarrow> [] | Some f \<Rightarrow> [Foo f])"

fun directive :: "char \<Rightarrow> event_parse option option" where
  "directive c =
     (if c = CHR ''d'' then Some (Some DateTimeFormatItem)
      else if c = CHR ''T'' then Some (Some TabFormatItem)
      else if c = CHR ''t'' then Some (Some ThreadIdFormatItem)
      else if c = CHR ''N'' then Some None
      else if c = CHR ''F'' then Some (Some FiberIdFormatItem)
      else if c = CHR ''p'' then Some (Some LevelFormatItem)
      else if c = CHR ''c'' then Some None
      else if c = CHR ''f'' then Some (Some FilenameFormatItem)
      else if c = CHR ''l'' then Some (Some LineFormatItem)
      else if c = CHR ''m'' then Some (Some MessageFormatItem)
      else if c = CHR ''n'' then Some (Some NewLineFormatItem)
      else None)"

declare directive.simps [simp del]

function init_loop :: "string \<Rightarrow> nat \<Rightarrow> bool \<Rightarrow> nat \<Rightarrow> fmt_item list \<Rightarrow> nat \<times> fmt_item list" where
  "init_loop format i fmt_status substr_start seq =
     (if i < length format then
        let c = format ! i in
        if c = CHR ''%'' then init_loop format (i + 1) True substr_start seq
        else if fmt_status then
          case directive c of
            None \<Rightarrow> init_loop format (i + 1) True substr_start seq
          | Some it \<Rightarrow>
              let len = (if c = CHR ''d'' then i - 1 - substr_start + 1 else i - 1 - substr_start)
              in init_loop format (i + 1) False (i + 1)
                   (seq @ directive_items format substr_start i len it)
        else init_loop format (i + 1) False substr_start seq
      else (substr_start, seq))"
  by pat_completeness auto
termination by (relation "measure (\<lambda>(format, i, _). length format - i)") auto

declare init_loop.simps [simp del]

definition formatter_init :: "string \<Rightarrow> fmt_item list" where
  "formatter_init format =
     (let (substr_start, seq) = init_loop format 0 False 0 []
      in if substr_start < length format
         then seq @ [item_str (take (length format) (drop substr_start format))] else seq)"

definition default_format :: string where
  "default_format = ''%d%T[%p]%T[%t]%T%f:%l%T%m%n''"

fun render :: "(int \<Rightarrow> string) \<Rightarrow> (nat \<Rightarrow> string) \<Rightarrow> fmt_item list \<Rightarrow> log_event \<Rightarrow> string" where
  "render dt name [] e = ''''"
| "render dt name (it # items) e =
     (case it of Str s \<Rightarrow> s | Foo f \<Rightarrow> format_item dt name f e) @ render dt name items e"

section \<open>Appenders and loggers\<close>

text \<open>
  An appender: the file it writes to, if any, its level (which no constructor sets), its
  formatter and what it has written.
\<close>

record appender =
  ap_fileName :: "string option"
  ap_level :: int
  ap_formatter :: "fmt_item list option"
  ap_open :: bool
  ap_out :: string

record logger =
  lg_appenders :: "nat list"
  lg_name :: string
  lg_formatter :: "fmt_item list option"
  lg_level :: log_level

record log_world =
  lw_appenders :: "nat \<Rightarrow> appender"
  lw_loggers :: "nat \<Rightarrow> logger"

definition stdout_appender :: "int \<Rightarrow> appender" where
  "stdout_appender garbage =
     \<lparr>ap_fileName = None, ap_level = garbage, ap_formatter = None, ap_open = True, ap_out = ''''\<rparr>"

text \<open>Opening a file for writing truncates it; \<open>ok\<close> is whether it could be opened.\<close>

definition appender_reopen :: "bool \<Rightarrow> appender \<Rightarrow> appender \<times> bool" where
  "appender_reopen ok a = (a\<lparr>ap_open := ok, ap_out := (if ok then '''' else ap_out a)\<rparr>, ok)"

definition file_appender :: "int \<Rightarrow> bool \<Rightarrow> string \<Rightarrow> appender" where
  "file_appender garbage ok name =
     fst (appender_reopen ok \<lparr>ap_fileName = Some name, ap_level = garbage, ap_formatter = None,
       ap_open = False, ap_out = ''''\<rparr>)"

definition logger_new :: "string \<Rightarrow> logger" where
  "logger_new name =
     \<lparr>lg_appenders = [], lg_name = name, lg_formatter = Some (formatter_init default_format),
      lg_level = DEBUG\<rparr>"

definition setLevel :: "log_level \<Rightarrow> logger \<Rightarrow> logger" where
  "setLevel level l = l\<lparr>lg_level := level\<rparr>"

definition setFormatter :: "fmt_item list option \<Rightarrow> logger \<Rightarrow> logger" where
  "setFormatter f l = l\<lparr>lg_formatter := f\<rparr>"

definition setFormatter_string :: "string \<Rightarrow> logger \<Rightarrow> logger" where
  "setFormatter_string s l = setFormatter (Some (formatter_init s)) l"

definition addAppender :: "nat \<Rightarrow> nat \<Rightarrow> log_world \<Rightarrow> log_world" where
  "addAppender lg ap w =
     (let a = lw_appenders w ap; l = lw_loggers w lg;
          a = (if ap_formatter a = None then a\<lparr>ap_formatter := lg_formatter l\<rparr> else a)
      in w\<lparr>lw_appenders := (lw_appenders w)(ap := a),
           lw_loggers := (lw_loggers w)(lg := l\<lparr>lg_appenders := lg_appenders l @ [ap]\<rparr>)\<rparr>)"

definition delAppender :: "nat \<Rightarrow> nat \<Rightarrow> log_world \<Rightarrow> log_world" where
  "delAppender lg ap w =
     (let l = lw_loggers w lg
      in w\<lparr>lw_loggers := (lw_loggers w)(lg := l\<lparr>lg_appenders := remove1 ap (lg_appenders l)\<rparr>)\<rparr>)"

text \<open>\<open>log\<close> of both appenders; a stream that is not open takes nothing.\<close>

definition appender_log ::
  "(int \<Rightarrow> string) \<Rightarrow> (nat \<Rightarrow> string) \<Rightarrow> log_level \<Rightarrow> log_event \<Rightarrow> appender \<Rightarrow> appender res" where
  "appender_log dt name level e a =
     (if level_val level > ap_level a then
        ubind (of_opt NullDeref (ap_formatter a)) (\<lambda>items.
        Inr (if ap_open a then a\<lparr>ap_out := ap_out a @ render dt name items e\<rparr> else a))
      else Inr a)"

fun log_each ::
  "(int \<Rightarrow> string) \<Rightarrow> log_level \<Rightarrow> log_event \<Rightarrow> nat list \<Rightarrow> log_world \<Rightarrow> log_world res" where
  "log_each dt level e [] w = Inr w"
| "log_each dt level e (ap # aps) w =
     ubind (appender_log dt (\<lambda>l. lg_name (lw_loggers w l)) level e (lw_appenders w ap)) (\<lambda>a.
     log_each dt level e aps (w\<lparr>lw_appenders := (lw_appenders w)(ap := a)\<rparr>))"

definition logger_log ::
  "(int \<Rightarrow> string) \<Rightarrow> nat \<Rightarrow> log_level \<Rightarrow> log_event \<Rightarrow> log_world \<Rightarrow> log_world res" where
  "logger_log dt lg level e w =
     (let l = lw_loggers w lg in
      if level \<ge> lg_level l then log_each dt level e (lg_appenders l) w
      else Inr w)"

definition log_debug where "log_debug dt lg e w = logger_log dt lg DEBUG e w"
definition log_info where "log_info dt lg e w = logger_log dt lg INFO e w"
definition log_warn where "log_warn dt lg e w = logger_log dt lg WARN e w"
definition log_error where "log_error dt lg e w = logger_log dt lg ERROR e w"
definition log_fatal where "log_fatal dt lg e w = logger_log dt lg FATAL e w"

text \<open>The destructor of \<open>EventWraper\<close>, and the macro \<open>NETCO_LOG_FMT_LEVEL\<close>.\<close>

definition event_wraper_end :: "(int \<Rightarrow> string) \<Rightarrow> log_event \<Rightarrow> log_world \<Rightarrow> log_world res" where
  "event_wraper_end dt e w = logger_log dt (le_logger e) (le_level e) e w"

definition netco_log_fmt ::
  "(int \<Rightarrow> string) \<Rightarrow> nat \<Rightarrow> log_level \<Rightarrow> string \<Rightarrow> int \<Rightarrow> int \<Rightarrow> int \<Rightarrow> string option \<Rightarrow> log_world \<Rightarrow> log_world res" where
  "netco_log_fmt dt lg level file line threadIdx time text w =
     (if lg_level (lw_loggers w lg) \<le> level
      then event_wraper_end dt (event_format text (log_event_new lg level file line 0 threadIdx (-1) time)) w
      else Inr w)"

text \<open>
  The macro \<open>NETCO_LOG_LEVEL\<close>: \<open>text\<close> is what the statement behind it streams into the event. The
  event is logged when the wrapper is destroyed, at the end of the statement.
\<close>

definition netco_log ::
  "(int \<Rightarrow> string) \<Rightarrow> nat \<Rightarrow> log_level \<Rightarrow> string \<Rightarrow> int \<Rightarrow> int \<Rightarrow> int \<Rightarrow> string \<Rightarrow> log_world \<Rightarrow> log_world res" where
  "netco_log dt lg level file line threadIdx time text w =
     (if lg_level (lw_loggers w lg) \<le> level
      then let e = log_event_new lg level file line 0 threadIdx (-1) time
           in event_wraper_end dt (e\<lparr>le_ss := le_ss e @ text\<rparr>) w
      else Inr w)"

lemma netco_log_fmt_stream: "netco_log_fmt dt lg level file line i time (Some text) w =
    netco_log dt lg level file line i time text w"
  by (simp add: netco_log_fmt_def netco_log_def event_format_def Let_def)

definition netco_log_debug where "netco_log_debug dt lg = netco_log dt lg DEBUG"
definition netco_log_info where "netco_log_info dt lg = netco_log dt lg INFO"
definition netco_log_warn where "netco_log_warn dt lg = netco_log dt lg WARN"
definition netco_log_error where "netco_log_error dt lg = netco_log dt lg ERROR"
definition netco_log_fatal where "netco_log_fatal dt lg = netco_log dt lg FATAL"

definition netco_log_fmt_debug where "netco_log_fmt_debug dt lg = netco_log_fmt dt lg DEBUG"
definition netco_log_fmt_info where "netco_log_fmt_info dt lg = netco_log_fmt dt lg INFO"
definition netco_log_fmt_warn where "netco_log_fmt_warn dt lg = netco_log_fmt dt lg WARN"
definition netco_log_fmt_error where "netco_log_fmt_error dt lg = netco_log_fmt dt lg ERROR"
definition netco_log_fmt_fatal where "netco_log_fmt_fatal dt lg = netco_log_fmt dt lg FATAL"

section \<open>The manager\<close>

record log_manager =
  lm_map :: "string \<rightharpoonup> nat"
  lm_root :: nat
  lm_next :: nat                 \<comment> \<open>name of the next logger to be created\<close>
  lm_world :: log_world

definition log_manager_new :: "int \<Rightarrow> log_world \<Rightarrow> log_manager" where
  "log_manager_new garbage w =
     (let w = w\<lparr>lw_loggers := (lw_loggers w)(0 := logger_new ''root''),
                lw_appenders := (lw_appenders w)(0 := stdout_appender garbage)\<rparr>;
          w = addAppender 0 0 w
      in \<lparr>lm_map = [''root'' \<mapsto> 0], lm_root = 0, lm_next = 1, lm_world = w\<rparr>)"

text \<open>
  \<open>getLogger\<close> holds the lock for the search and again for the insertion, not in between:
  other threads can come in after \<open>getLogger_find\<close>. \<open>insert\<close> keeps an entry that is there.
\<close>

definition getLogger_find :: "string \<Rightarrow> log_manager \<Rightarrow> nat option" where
  "getLogger_find name m = lm_map m name"

definition getLogger_insert :: "string \<Rightarrow> log_manager \<Rightarrow> log_manager \<times> nat" where
  "getLogger_insert name m =
     (let lg = lm_next m; w = lm_world m;
          w = w\<lparr>lw_loggers := (lw_loggers w)(lg := logger_new name)\<rparr>
      in (m\<lparr>lm_next := lg + 1, lm_world := w,
            lm_map := (if lm_map m name = None then (lm_map m)(name \<mapsto> lg) else lm_map m)\<rparr>, lg))"

definition getLogger :: "string \<Rightarrow> log_manager \<Rightarrow> log_manager \<times> nat" where
  "getLogger name m =
     (case getLogger_find name m of
        Some lg \<Rightarrow> (m, lg)
      | None \<Rightarrow> getLogger_insert name m)"

text \<open>The macros on the loggers of the manager; \<open>NETCO_LOG\<close> writes to the root logger.\<close>

definition getRoot :: "log_manager \<Rightarrow> nat" where
  "getRoot m = lm_root m"

definition netco_log_name :: "string \<Rightarrow> log_manager \<Rightarrow> log_manager \<times> nat" where
  "netco_log_name name m = getLogger name m"

definition netco_log_default ::
  "(int \<Rightarrow> string) \<Rightarrow> string \<Rightarrow> int \<Rightarrow> int \<Rightarrow> int \<Rightarrow> string \<Rightarrow> log_manager \<Rightarrow> log_manager res" where
  "netco_log_default dt file line threadIdx time text m =
     ubind (netco_log_debug dt (getRoot m) file line threadIdx time text (lm_world m)) (\<lambda>w.
     Inr (m\<lparr>lm_world := w\<rparr>))"

definition netco_log_fmt_default ::
  "(int \<Rightarrow> string) \<Rightarrow> string \<Rightarrow> int \<Rightarrow> int \<Rightarrow> int \<Rightarrow> string option \<Rightarrow> log_manager \<Rightarrow> log_manager res" where
  "netco_log_fmt_default dt file line threadIdx time text m =
     ubind (netco_log_fmt_debug dt (getRoot m) file line threadIdx time text (lm_world m)) (\<lambda>w.
     Inr (m\<lparr>lm_world := w\<rparr>))"

section \<open>Format strings\<close>

text \<open>
  The abstract syntax: text and directives. \<open>items_of\<close> is what the formatter makes of it; the
  percent sign of a \<open>%d\<close> stays at the end of the text before it.
\<close>

datatype piece = Lit string | Dir char

fun unparse :: "piece list \<Rightarrow> string" where
  "unparse [] = ''''"
| "unparse (Lit s # ps) = s @ unparse ps"
| "unparse (Dir c # ps) = CHR ''%'' # c # unparse ps"

definition lit_ok :: "string \<Rightarrow> bool" where
  "lit_ok s \<longleftrightarrow> s \<noteq> [] \<and> CHR ''%'' \<notin> set s \<and> CHR 0x00 \<notin> set s"

fun well_formed :: "piece list \<Rightarrow> bool" where
  "well_formed [] \<longleftrightarrow> True"
| "well_formed [Lit s] \<longleftrightarrow> lit_ok s"
| "well_formed (Lit s # Lit t # ps) \<longleftrightarrow> False"
| "well_formed (Lit s # Dir c # ps) \<longleftrightarrow> lit_ok s \<and> directive c \<noteq> None \<and> well_formed ps"
| "well_formed (Dir c # ps) \<longleftrightarrow> directive c \<noteq> None \<and> well_formed ps"

definition item_of :: "char \<Rightarrow> fmt_item list" where
  "item_of c = (case directive c of Some (Some f) \<Rightarrow> [Foo f] | _ \<Rightarrow> [])"

fun items_of :: "piece list \<Rightarrow> fmt_item list" where
  "items_of [] = []"
| "items_of (Lit s # Dir c # ps) =
     Str (if c = CHR ''d'' then s @ ''%'' else s) # item_of c @ items_of ps"
| "items_of (Lit s # ps) = Str s # items_of ps"
| "items_of (Dir c # ps) = item_of c @ items_of ps"

definition finish :: "string \<Rightarrow> nat \<times> fmt_item list \<Rightarrow> fmt_item list" where
  "finish format r =
     (if fst r < length format then snd r @ [item_str (take (length format) (drop (fst r) format))]
      else snd r)"

lemma formatter_init_finish: "formatter_init format = finish format (init_loop format 0 False 0 [])"
  by (simp add: formatter_init_def finish_def split: prod.split)

lemma init_text:
  "CHR ''%'' \<notin> set s \<Longrightarrow> format = pre @ s @ post \<Longrightarrow>
   init_loop format (length pre) False st seq = init_loop format (length pre + length s) False st seq"
proof (induction s arbitrary: pre)
  case Nil
  then show ?case by simp
next
  case (Cons c s)
  have "init_loop format (length pre) False st seq = init_loop format (length (pre @ [c])) False st seq"
    using Cons.prems by (subst init_loop.simps) (auto simp: nth_append)
  also have "\<dots> = init_loop format (length (pre @ [c]) + length s) False st seq"
    by (rule Cons.IH) (use Cons.prems in simp_all)
  finally show ?case by simp
qed

lemma directive_percent: "directive (CHR ''%'') = None"
  by (simp add: directive.simps)

lemma init_directive:
  assumes "directive c = Some it" "format = pre @ CHR ''%'' # c # post"
  shows "init_loop format (length pre) False st seq =
    init_loop format (length pre + 2) False (length pre + 2)
      (seq @ directive_items format st (length pre + 1)
         (if c = CHR ''d'' then length pre - st + 1 else length pre - st) it)"
proof -
  have c: "c \<noteq> CHR ''%''" using assms(1) directive_percent by auto
  have n: "format ! length pre = CHR ''%''" "format ! Suc (length pre) = c"
    "Suc (length pre) < length format" using assms(2) by (simp_all add: nth_append)
  have "init_loop format (length pre) False st seq = init_loop format (Suc (length pre)) True st seq"
    using n by (subst init_loop.simps) simp
  also have "\<dots> = init_loop format (length pre + 2) False (length pre + 2)
      (seq @ directive_items format st (length pre + 1)
         (if c = CHR ''d'' then length pre - st + 1 else length pre - st) it)"
    using n c assms(1) by (subst init_loop.simps) (simp add: Let_def)
  finally show ?thesis .
qed

lemma take_literal: "CHR 0x00 \<notin> set s \<Longrightarrow> item_str s = Str s"
  by (auto simp: item_str_def takeWhile_eq_all_conv)

lemma item_of_directive: "directive c = Some it \<Longrightarrow> item_of c = (case it of None \<Rightarrow> [] | Some f \<Rightarrow> [Foo f])"
  by (simp add: item_of_def)

lemma init_unparse:
  "well_formed ps \<Longrightarrow> format = pre @ unparse ps \<Longrightarrow>
   finish format (init_loop format (length pre) False (length pre) seq) = seq @ items_of ps"
proof (induction ps arbitrary: pre seq rule: well_formed.induct)
  case 1
  then show ?case by (subst init_loop.simps) (simp add: finish_def)
next
  case (2 s)
  then have "init_loop format (length pre) False (length pre) seq = (length pre, seq)"
    using init_text [of s format pre "[]"] by (simp add: lit_ok_def) (subst init_loop.simps, simp)
  then show ?case using 2 by (auto simp: finish_def lit_ok_def take_literal)
next
  case (3 s t ps)
  then show ?case by simp
next
  case (4 s c ps)
  obtain it where it: "directive c = Some it" using 4(2) by auto
  have s: "s \<noteq> []" "CHR ''%'' \<notin> set s" "CHR 0x00 \<notin> set s" using 4(2) by (simp_all add: lit_ok_def)
  let ?pre = "pre @ s @ [CHR ''%'', c]"
  have f: "format = (pre @ s) @ CHR ''%'' # c # unparse ps" using 4(3) by simp
  have "directive_items format (length pre) (length (pre @ s) + 1)
      (if c = CHR ''d'' then length (pre @ s) - length pre + 1 else length (pre @ s) - length pre) it =
    Str (if c = CHR ''d'' then s @ ''%'' else s) # item_of c"
    using s it 4(3) by (auto simp: directive_items_def item_of_directive take_literal Suc_le_eq)
  then have "init_loop format (length pre) False (length pre) seq =
      init_loop format (length ?pre) False (length ?pre)
        (seq @ Str (if c = CHR ''d'' then s @ ''%'' else s) # item_of c)"
    using init_text [OF s(2), of format pre "CHR ''%'' # c # unparse ps" "length pre" seq]
      init_directive [OF it f, of "length pre" seq] f by simp
  with 4(1) [of ?pre] 4(2,3) show ?case by simp
next
  case (5 c ps)
  obtain it where it: "directive c = Some it" using 5(2) by auto
  let ?pre = "pre @ [CHR ''%'', c]"
  have f: "format = pre @ CHR ''%'' # c # unparse ps" using 5(3) by simp
  have "directive_items format (length pre) (length pre + 1) n it = item_of c" for n
    using it by (simp add: directive_items_def item_of_directive)
  then have "init_loop format (length pre) False (length pre) seq =
      init_loop format (length ?pre) False (length ?pre) (seq @ item_of c)"
    using init_directive [OF it f, of "length pre" seq] by simp
  with 5(1) [of ?pre] 5(2,3) show ?case by simp
qed

section \<open>Logging\<close>

lemma log_each_run:
  assumes "distinct aps" "\<forall>ap \<in> set aps. ap_formatter (lw_appenders w ap) \<noteq> None"
  shows "\<exists>w'. log_each dt level e aps w = Inr w' \<and> lw_loggers w' = lw_loggers w \<and>
    (\<forall>ap. lw_appenders w' ap =
       (if ap \<in> set aps \<and> ap_level (lw_appenders w ap) < level_val level \<and> ap_open (lw_appenders w ap)
        then (lw_appenders w ap)\<lparr>ap_out := ap_out (lw_appenders w ap) @
          render dt (\<lambda>l. lg_name (lw_loggers w l)) (the (ap_formatter (lw_appenders w ap))) e\<rparr>
        else lw_appenders w ap))"
  using assms
proof (induction aps arbitrary: w)
  case Nil
  then show ?case by simp
next
  case (Cons ap aps)
  let ?a = "lw_appenders w ap" and ?n = "\<lambda>l. lg_name (lw_loggers w l)"
  obtain items where items: "ap_formatter ?a = Some items" using Cons.prems(2) by auto
  let ?b = "if ap_level ?a < level_val level \<and> ap_open ?a
    then ?a\<lparr>ap_out := ap_out ?a @ render dt ?n items e\<rparr> else ?a"
  have b: "appender_log dt ?n level e ?a = Inr ?b" by (simp add: appender_log_def items)
  let ?w = "w\<lparr>lw_appenders := (lw_appenders w)(ap := ?b)\<rparr>"
  have same: "x \<in> set aps \<Longrightarrow> lw_appenders ?w x = lw_appenders w x" for x using Cons.prems(1) by auto
  have "distinct aps" "\<forall>x \<in> set aps. ap_formatter (lw_appenders ?w x) \<noteq> None"
    using Cons.prems same by auto
  from Cons.IH [OF this] obtain w' where w': "log_each dt level e aps ?w = Inr w'"
    "lw_loggers w' = lw_loggers ?w"
    "\<forall>x. lw_appenders w' x =
       (if x \<in> set aps \<and> ap_level (lw_appenders ?w x) < level_val level \<and> ap_open (lw_appenders ?w x)
        then (lw_appenders ?w x)\<lparr>ap_out := ap_out (lw_appenders ?w x) @
          render dt (\<lambda>l. lg_name (lw_loggers ?w l)) (the (ap_formatter (lw_appenders ?w x))) e\<rparr>
        else lw_appenders ?w x)" by blast
  have run: "log_each dt level e (ap # aps) w = Inr w'" using b w'(1) by simp
  show ?case
  proof (intro exI conjI allI)
    show "log_each dt level e (ap # aps) w = Inr w'" by (rule run)
    show "lw_loggers w' = lw_loggers w" using w'(2) by simp
    fix x
    show "lw_appenders w' x =
       (if x \<in> set (ap # aps) \<and> ap_level (lw_appenders w x) < level_val level \<and> ap_open (lw_appenders w x)
        then (lw_appenders w x)\<lparr>ap_out := ap_out (lw_appenders w x) @
          render dt ?n (the (ap_formatter (lw_appenders w x))) e\<rparr>
        else lw_appenders w x)"
      using w'(3) [rule_format, of x] Cons.prems(1) items by (cases "x = ap") auto
  qed
qed

section \<open>Properties\<close>


text \<open>
  C31: an event logged at a level reaches exactly the appenders of the logger whose own level is
  below it (equal is not enough) and whose stream is open, once each and in the appender's
  format, provided the level is at least that of the logger; nothing else changes.
\<close>

theorem logger_log_delivers:
  assumes "distinct (lg_appenders (lw_loggers w lg))"
    and "\<forall>ap \<in> set (lg_appenders (lw_loggers w lg)). ap_formatter (lw_appenders w ap) \<noteq> None"
  shows "\<exists>w'. logger_log dt lg level e w = Inr w' \<and> lw_loggers w' = lw_loggers w \<and>
    (\<forall>ap. lw_appenders w' ap =
       (if lg_level (lw_loggers w lg) \<le> level \<and>
           ap \<in> set (lg_appenders (lw_loggers w lg)) \<and>
           ap_level (lw_appenders w ap) < level_val level \<and> ap_open (lw_appenders w ap)
        then (lw_appenders w ap)\<lparr>ap_out := ap_out (lw_appenders w ap) @
          render dt (\<lambda>l. lg_name (lw_loggers w l)) (the (ap_formatter (lw_appenders w ap))) e\<rparr>
        else lw_appenders w ap))"
proof (cases "lg_level (lw_loggers w lg) \<le> level")
  case True
  from log_each_run [OF assms, of dt level e] True show ?thesis
    by (simp add: logger_log_def Let_def)
next
  case False
  then show ?thesis by (simp add: logger_log_def)
qed

text \<open>
  When two threads ask for a logger that does not exist yet and both search before either
  inserts, they get two different loggers, and only the first is the one that later calls
  return: what is set on the second (its appenders, its level) has no effect on them.
\<close>

theorem getLogger_race:
  assumes "getLogger_find name m = None"
    and "getLogger_insert name m = (m1, a)" "getLogger_insert name m1 = (m2, b)"
  shows "a \<noteq> b \<and> getLogger name m2 = (m2, a) \<and> lg_appenders (lw_loggers (lm_world m2) a) = []"
  using assms by (auto simp: getLogger_def getLogger_find_def getLogger_insert_def Let_def logger_new_def)

text \<open>The default format, and what \<open>%d\<close> does to text before it.\<close>

lemma default_format_items:
  "formatter_init default_format =
     [Foo DateTimeFormatItem, Foo TabFormatItem, Str ''['', Foo LevelFormatItem, Str '']'',
      Foo TabFormatItem, Str ''['', Foo ThreadIdFormatItem, Str '']'', Foo TabFormatItem,
      Foo FilenameFormatItem, Str '':'', Foo LineFormatItem, Foo TabFormatItem,
      Foo MessageFormatItem, Foo NewLineFormatItem]"
  by code_simp

lemma date_after_text:
  "formatter_init ''at %d'' = [Str ''at %'', Foo DateTimeFormatItem]"
  by code_simp

lemma line_after_unknown_directive:
  "formatter_init ''100% help'' = [Str ''100% h'', Foo LineFormatItem, Str ''p'']"
  by code_simp

section \<open>Witnesses\<close>


lemma logger_log_delivers_witness:
  "\<exists>w'. logger_log (\<lambda>_. ''now'') 0 INFO (event_format (Some ''hi'') (log_event_new 0 INFO ''f'' 7 0 3 (-1) 0))
      (lm_world (log_manager_new 1 \<lparr>lw_appenders = \<lambda>_. stdout_appender 0, lw_loggers = \<lambda>_. logger_new ''''\<rparr>)) = Inr w' \<and>
    lw_appenders w' 1 = stdout_appender 0"
proof -
  let ?w = "lm_world (log_manager_new 1 \<lparr>lw_appenders = \<lambda>_. stdout_appender 0, lw_loggers = \<lambda>_. logger_new ''''\<rparr>)"
  have a: "lg_appenders (lw_loggers ?w 0) = [0]" "ap_formatter (lw_appenders ?w 0) \<noteq> None"
    "lw_appenders ?w 1 = stdout_appender 0"
    by (simp_all add: log_manager_new_def addAppender_def logger_new_def stdout_appender_def Let_def)
  then show ?thesis
    using logger_log_delivers [of ?w 0 "\<lambda>_. ''now''" INFO
        "event_format (Some ''hi'') (log_event_new 0 INFO ''f'' 7 0 3 (-1) 0)"] by auto
qed

lemma getLogger_race_witness:
  "\<exists>m2 a b. a \<noteq> b \<and> getLogger ''net'' m2 = (m2, a) \<and> lm_map m2 ''net'' = Some a \<and> lm_next m2 = 3"
proof -
  let ?m = "log_manager_new 1 \<lparr>lw_appenders = \<lambda>_. stdout_appender 0, lw_loggers = \<lambda>_. logger_new ''''\<rparr>"
  obtain m1 a where 1: "getLogger_insert ''net'' ?m = (m1, a)" by (cases "getLogger_insert ''net'' ?m")
  obtain m2 b where 2: "getLogger_insert ''net'' m1 = (m2, b)" by (cases "getLogger_insert ''net'' m1")
  have f: "getLogger_find ''net'' ?m = None"
    by (simp add: getLogger_find_def log_manager_new_def Let_def)
  have n: "lm_next m2 = 3"
    using 1 2 by (auto simp: getLogger_insert_def log_manager_new_def Let_def)
  have "lm_map m2 ''net'' = Some a" using 1 2 f
    by (auto simp: getLogger_insert_def getLogger_find_def Let_def)
  with getLogger_race [OF f 1 2] n show ?thesis by blast
qed

end
