(* ===== verification/MsTime.thy ===== *)
theory MsTime
  imports Prelude
begin

text \<open>
  \<open>Time\<close> of \<open>src/mstime.cc\<close> and \<open>include/mstime.h\<close>: milliseconds since the epoch, their
  comparisons, the interval that arms a timer, and \<open>toLocalTime\<close>, the conversion to a calendar
  date without locks. The conversion is checked against the Gregorian calendar. \<open>time_t\<close>,
  \<open>long\<close> and \<open>int64_t\<close> are integers here; the one conversion to a narrower type, to
  \<open>unsigned int\<close>, is written out. The clock is an argument.
\<close>

section \<open>Operations\<close>

type_synonym ms_time = int       \<comment> \<open>\<open>Time\<close>, its \<open>_timeVal\<close>\<close>

text \<open>\<open>now\<close> and \<open>nowSec\<close> of a clock reading in seconds and microseconds.\<close>

definition time_now :: "int \<Rightarrow> int \<Rightarrow> ms_time" where
  "time_now tv_sec tv_usec = tv_sec * 1000 + tv_usec sdiv 1000"

definition now_sec :: "int \<Rightarrow> int \<Rightarrow> int" where
  "now_sec tv_sec tv_usec = tv_sec"

definition time_less :: "ms_time \<Rightarrow> ms_time \<Rightarrow> bool" where "time_less l r = (l < r)"
definition time_le :: "ms_time \<Rightarrow> ms_time \<Rightarrow> bool" where "time_le l r = (l \<le> r)"
definition time_greater :: "ms_time \<Rightarrow> ms_time \<Rightarrow> bool" where "time_greater l r = (l > r)"
definition time_ge :: "ms_time \<Rightarrow> ms_time \<Rightarrow> bool" where "time_ge l r = (l \<ge> r)"
definition time_eq :: "ms_time \<Rightarrow> ms_time \<Rightarrow> bool" where "time_eq l r = (l = r)"

record timespec =
  ts_sec :: int
  ts_nsec :: int

definition timeIntervalFromNow :: "ms_time \<Rightarrow> ms_time \<Rightarrow> timespec res" where
  "timeIntervalFromNow now t =
     ubind (chk64 (t - now)) (\<lambda>microseconds.
     if microseconds < 1 then Inr \<lparr>ts_sec = 0, ts_nsec = 1000\<rparr>
     else Inr \<lparr>ts_sec = microseconds sdiv 1000, ts_nsec = (microseconds mod 1000) * 1000 * 1000\<rparr>)"

record tm =
  tm_sec :: int
  tm_min :: int
  tm_hour :: int
  tm_mday :: int
  tm_mon :: nat
  tm_year :: int

definition days :: "int list" where
  "days = [31, 28, 31, 30, 31, 30, 31, 31, 30, 31, 30, 31]"

text \<open>\<open>(year & 3) == 0\<close>, and the hours of a year.\<close>

definition leap4 :: "int \<Rightarrow> bool" where
  "leap4 year = (year mod 4 = 0)"

definition hours_of :: "int \<Rightarrow> int" where
  "hours_of year = (if leap4 year then 365 * 24 + 24 else 365 * 24)"

function year_loop :: "int \<Rightarrow> int \<Rightarrow> int \<times> int" where
  "year_loop year second =
     (if second < hours_of year then (year, second)
      else year_loop (year + 1) (second - hours_of year))"
  by pat_completeness auto
termination
  by (relation "measure (\<lambda>(year, second). nat second)")
    (auto simp: hours_of_def split: if_splits)

declare year_loop.simps [simp del]

function mon_loop :: "nat \<Rightarrow> int \<Rightarrow> (nat \<times> int) res" where
  "mon_loop mon second =
     (if mon < length days then
        if days ! mon < second then mon_loop (mon + 1) (second - days ! mon)
        else Inr (mon, second)
      else Inl OutOfBounds)"
  by pat_completeness auto
termination by (relation "measure (\<lambda>(mon, second). length days - mon)") auto

declare mon_loop.simps [simp del]

definition toLocalTime :: "int \<Rightarrow> int \<Rightarrow> tm \<Rightarrow> tm res" where
  "toLocalTime second timezone t =
     ubind (chk64 (second - timezone)) (\<lambda>second.
     let second = (if second < 0 then 0 else second);
         t = t\<lparr>tm_sec := second mod 60\<rparr>; second = second div 60;
         t = t\<lparr>tm_min := second mod 60\<rparr>; second = second div 60;
         pass4year = (second mod 2 ^ 32) div (1461 * 24);
         second = second mod (1461 * 24);
         (year, second) = year_loop (pass4year * 4 + 70) second;
         t = t\<lparr>tm_year := year, tm_hour := second mod 24\<rparr>;
         second = second div 24 + 1
     in if leap4 year \<and> second = 60 then Inr (t\<lparr>tm_mon := 1, tm_mday := 29\<rparr>)
        else ubind (mon_loop 0 (if leap4 year \<and> second > 60 then second - 1 else second))
               (\<lambda>(mon, mday). Inr (t\<lparr>tm_mon := mon, tm_mday := mday\<rparr>)))"

section \<open>The calendar\<close>

text \<open>The Gregorian rule, days before a year and a month, and the seconds a date stands for.\<close>

definition gregorian_leap :: "int \<Rightarrow> bool" where
  "gregorian_leap y \<longleftrightarrow> 4 dvd y \<and> (\<not> 100 dvd y \<or> 400 dvd y)"

fun days_before_year :: "nat \<Rightarrow> int" where
  "days_before_year 0 = 0"
| "days_before_year (Suc n) =
     days_before_year n + (if gregorian_leap (1970 + int n) then 366 else 365)"

definition days_before_month :: "bool \<Rightarrow> nat \<Rightarrow> int" where
  "days_before_month leap m = sum_list (take m days) + (if leap \<and> 2 \<le> m then 1 else 0)"

definition month_days :: "bool \<Rightarrow> nat \<Rightarrow> int" where
  "month_days leap m = (if leap \<and> m = 1 then 29 else days ! m)"

definition civil_seconds :: "tm \<Rightarrow> int" where
  "civil_seconds t =
     (((days_before_year (nat (tm_year t - 70)) +
        days_before_month (gregorian_leap (1900 + tm_year t)) (tm_mon t) + (tm_mday t - 1)) * 24 +
       tm_hour t) * 60 + tm_min t) * 60 + tm_sec t"

definition valid_tm :: "tm \<Rightarrow> bool" where
  "valid_tm t \<longleftrightarrow>
     0 \<le> tm_sec t \<and> tm_sec t < 60 \<and> 0 \<le> tm_min t \<and> tm_min t < 60 \<and>
     0 \<le> tm_hour t \<and> tm_hour t < 24 \<and> 70 \<le> tm_year t \<and> tm_mon t < 12 \<and>
     1 \<le> tm_mday t \<and> tm_mday t \<le> month_days (gregorian_leap (1900 + tm_year t)) (tm_mon t)"

section \<open>The loops\<close>

text \<open>Days before a year by the four-year rule of the code.\<close>

definition days4 :: "int \<Rightarrow> int" where
  "days4 year = 365 * (year - 70) + (year - 69) div 4"

lemma days4_Suc: "days4 (year + 1) = days4 year + (if leap4 year then 366 else 365)"
proof -
  have "(year - 68) div 4 = (year - 69) div 4 + (if year mod 4 = 0 then 1 else 0)" by presburger
  then show ?thesis by (simp add: days4_def leap4_def)
qed

lemma hours_of_days4: "hours_of year = 24 * (days4 (year + 1) - days4 year)"
  by (simp add: hours_of_def days4_Suc)

lemma year_loop_spec:
  "0 \<le> h \<Longrightarrow> year_loop y h = (y', h') \<Longrightarrow>
   y \<le> y' \<and> 0 \<le> h' \<and> h' < hours_of y' \<and> 24 * days4 y' + h' = 24 * days4 y + h"
proof (induction y h rule: year_loop.induct)
  case (1 y h)
  show ?case
  proof (cases "h < hours_of y")
    case True
    then show ?thesis using 1(2,3) by (subst (asm) year_loop.simps) simp
  next
    case False
    then have "year_loop (y + 1) (h - hours_of y) = (y', h')"
      using 1(3) by (subst (asm) year_loop.simps) simp
    from 1(1) [OF False _ this] False show ?thesis by (auto simp: hours_of_days4)
  qed
qed

lemma mon_loop_spec:
  "1 \<le> d \<Longrightarrow> d \<le> sum_list (drop m days) \<Longrightarrow>
   \<exists>m' e. mon_loop m d = Inr (m', e) \<and> m' < 12 \<and> 1 \<le> e \<and> e \<le> days ! m' \<and>
     sum_list (take m' days) + e = sum_list (take m days) + d"
proof (induction m d rule: mon_loop.induct)
  case (1 m d)
  have m: "m < length days" using 1(2,3) by (cases "m < length days") auto
  show ?case
  proof (cases "days ! m < d")
    case False
    then show ?thesis using m 1(2) by (subst mon_loop.simps) (simp add: days_def)
  next
    case True
    have "sum_list (drop m days) = days ! m + sum_list (drop (m + 1) days)"
      using m by (simp add: Cons_nth_drop_Suc [symmetric])
    then have "1 \<le> d - days ! m" "d - days ! m \<le> sum_list (drop (m + 1) days)"
      using True 1(3) by linarith+
    from 1(1) [OF m True this] obtain m' e where
      "mon_loop (m + 1) (d - days ! m) = Inr (m', e)" "m' < 12" "1 \<le> e" "e \<le> days ! m'"
      "sum_list (take m' days) + e = sum_list (take (m + 1) days) + (d - days ! m)" by blast
    moreover have "sum_list (take (m + 1) days) = sum_list (take m days) + days ! m"
      using m by (simp add: take_Suc_conv_app_nth)
    ultimately show ?thesis using m True by (subst mon_loop.simps) simp
  qed
qed

text \<open>Before the year 2100 the four-year rule is the Gregorian one.\<close>

lemma leap_2099: "1970 \<le> y \<Longrightarrow> y < 2100 \<Longrightarrow> gregorian_leap y \<longleftrightarrow> y mod 4 = 0"
proof -
  assume y: "1970 \<le> y" "y < 2100"
  have "y = 2000" if "100 dvd y"
  proof -
    from that obtain k where "y = 100 * k" by (auto elim: dvdE)
    moreover from this y have "19 < k" "k < 21" by linarith+
    ultimately show ?thesis by linarith
  qed
  then show ?thesis by (auto simp: gregorian_leap_def dvd_eq_mod_eq_0)
qed

lemma days_before_year_2100: "n \<le> 130 \<Longrightarrow> days_before_year n = days4 (70 + int n)"
proof (induction n)
  case (Suc n)
  have "(1970 + int n) mod 4 = (70 + int n) mod 4" by presburger
  then have "gregorian_leap (1970 + int n) \<longleftrightarrow> leap4 (70 + int n)"
    using Suc.prems leap_2099 [of "1970 + int n"] by (simp add: leap4_def)
  then show ?case using Suc days4_Suc [of "70 + int n"] by (simp add: add.commute)
qed (simp add: days4_def)

lemma length_days: "length days = 12"
  by (simp add: days_def)

lemma sum_days: "sum_list days = 365" "sum_list (take 2 days) = 59"
  by (simp_all add: days_def numeral_2_eq_2)

lemma sum_take_days_mono: "m \<le> n \<Longrightarrow> sum_list (take m days) \<le> sum_list (take n days)"
proof -
  assume "m \<le> n"
  then have "take n days = take m days @ take (n - m) (drop m days)"
    by (metis le_add_diff_inverse take_add)
  moreover have "0 \<le> sum_list (take (n - m) (drop m days))"
    by (rule sum_list_nonneg) (auto simp: days_def dest!: in_set_takeD in_set_dropD)
  ultimately show ?thesis by simp
qed

text \<open>The day of a year, from its month and its day there.\<close>

lemma month_of_day:
  assumes "1 \<le> d" "d \<le> (if leap then 366 else 365)" "\<not> (leap \<and> d = 60)"
  shows "\<exists>m e. mon_loop 0 (if leap \<and> d > 60 then d - 1 else d) = Inr (m, e) \<and> m < 12 \<and>
    1 \<le> e \<and> e \<le> month_days leap m \<and> days_before_month leap m + e = d"
proof -
  let ?d = "if leap \<and> d > 60 then d - 1 else d"
  have "1 \<le> ?d" "?d \<le> sum_list (drop 0 days)" using assms by (auto simp: sum_days)
  from mon_loop_spec [OF this] obtain m e where
    me: "mon_loop 0 ?d = Inr (m, e)" "m < 12" "1 \<le> e" "e \<le> days ! m"
        "sum_list (take m days) + e = ?d" by auto
  have "e \<le> month_days leap m" using me(4) by (cases "m = 1") (simp_all add: month_days_def days_def)
  moreover have "days_before_month leap m + e = d"
  proof (cases "leap")
    case True
    have "2 \<le> m \<longleftrightarrow> d > 60"
    proof
      assume "2 \<le> m"
      then have "59 \<le> sum_list (take m days)" using sum_take_days_mono [of 2 m] by (simp add: sum_days)
      then show "d > 60" using me(3,5) True assms(3) by (auto split: if_splits)
    next
      assume "d > 60"
      show "2 \<le> m"
      proof (rule ccontr)
        assume "\<not> 2 \<le> m"
        then have "m + 1 \<le> 2" by simp
        then have "sum_list (take (m + 1) days) \<le> 59" using sum_take_days_mono [of "m + 1" 2] by (simp add: sum_days)
        moreover have "sum_list (take (m + 1) days) = sum_list (take m days) + days ! m"
          using me(2) length_days by (simp add: take_Suc_conv_app_nth)
        ultimately show False using me(4,5) \<open>d > 60\<close> True by auto
      qed
    qed
    then show ?thesis using me(5) True by (auto simp: days_before_month_def split: if_splits)
  next
    case False
    then show ?thesis using me(5) by (simp add: days_before_month_def)
  qed
  ultimately show ?thesis using me by blast
qed

section \<open>The armed interval\<close>

lemma timeIntervalFromNow_total:
  assumes "in64 (t - now)"
  shows "\<exists>ts. timeIntervalFromNow now t = Inr ts \<and> 0 \<le> ts_sec ts \<and> 0 \<le> ts_nsec ts \<and>
     ts_nsec ts < 1000000000 \<and> (ts_sec ts, ts_nsec ts) \<noteq> (0, 0) \<and>
     ts_sec ts * 1000000000 + ts_nsec ts = (if now < t then (t - now) * 1000000 else 1000)"
proof (cases "t - now < 1")
  case True
  then show ?thesis using assms by (simp add: timeIntervalFromNow_def)
next
  case False
  let ?d = "t - now"
  define q r where "q = ?d div 1000" and "r = ?d mod 1000"
  have e: "q * 1000 + r = ?d" by (simp add: q_def r_def)
  have "q * 1000000000 + r * 1000000 = (q * 1000 + r) * 1000000" by simp
  then have "q * 1000000000 + r * 1000000 = ?d * 1000000" unfolding e .
  then have ns: "?d div 1000 * 1000000000 + ?d mod 1000 * 1000000 = ?d * 1000000"
    by (simp only: q_def r_def)
  have "?d div 1000 * 1000 + ?d mod 1000 = ?d" by simp
  then have "?d div 1000 \<noteq> 0 \<or> ?d mod 1000 \<noteq> 0" using False by auto
  moreover have "0 \<le> ?d div 1000" using False by (simp add: pos_imp_zdiv_nonneg_iff)
  ultimately show ?thesis using assms False ns by (auto simp: timeIntervalFromNow_def sdiv_nonneg)
qed

section \<open>Properties\<close>

text \<open>The year and the rest of the hours that \<open>toLocalTime\<close> finds for a number of hours before 2100.\<close>

lemma year_of_hours:
  assumes h: "0 \<le> h" "h < 1139568"
    and yl: "year_loop (h div (1461 * 24) * 4 + 70) (h mod (1461 * 24)) = (y, h')"
  shows "24 * days4 y + h' = h" "0 \<le> h'" "h' < hours_of y" "70 \<le> y" "y < 200"
proof -
  have "0 \<le> h mod (1461 * 24)" by simp
  note yl' = year_loop_spec [OF this yl]
  have "24 * days4 (h div (1461 * 24) * 4 + 70) = h div (1461 * 24) * (1461 * 24)"
    using h(1) by (simp add: days4_def)
  then show hh: "24 * days4 y + h' = h" using yl' by simp
  show "0 \<le> h'" "h' < hours_of y" using yl' by simp_all
  have "0 \<le> h div (1461 * 24)" using h(1) by (simp add: pos_imp_zdiv_nonneg_iff)
  then show "70 \<le> y" using yl' by linarith
  show "y < 200"
  proof (rule ccontr)
    assume "\<not> y < 200"
    then have "131 div 4 \<le> (y - 69) div 4" by (intro zdiv_mono1) simp_all
    then have "24 * 47482 \<le> 24 * days4 y"
      using \<open>\<not> y < 200\<close> unfolding days4_def by simp
    then show False using hh yl' h(2) by linarith
  qed
qed

text \<open>The month and the day that it finds for the \<open>d\<close>-th day of a year.\<close>

lemma month_run:
  assumes d: "1 \<le> d" "d \<le> (if leap then 366 else 365)"
  shows "\<exists>m e. (if leap \<and> d = 60 then Inr (T\<lparr>tm_mon := 1, tm_mday := 29\<rparr>)
       else ubind (mon_loop 0 (if leap \<and> d > 60 then d - 1 else d))
              (\<lambda>(mon, mday). Inr (T\<lparr>tm_mon := mon, tm_mday := mday\<rparr>))) =
      Inr (T\<lparr>tm_mon := m, tm_mday := e\<rparr>) \<and>
    m < 12 \<and> 1 \<le> e \<and> e \<le> month_days leap m \<and> days_before_month leap m + e = d"
proof (cases "leap \<and> d = 60")
  case True
  then show ?thesis
    by (intro exI [of _ 1] exI [of _ 29]) (simp add: month_days_def days_before_month_def days_def)
next
  case False
  from month_of_day [OF d this] obtain m e where
    "mon_loop 0 (if leap \<and> d > 60 then d - 1 else d) = Inr (m, e)" "m < 12" "1 \<le> e"
    "e \<le> month_days leap m" "days_before_month leap m + e = d" by blast
  then show ?thesis using False by (intro exI [of _ m] exI [of _ e]) auto
qed

lemma seconds_of_parts:
  assumes "24 * D + h' = s div 60 div 60"
  shows "((D + (h' div 24 + 1) - 1) * 24 + h' mod 24) * 60 * 60 + (s div 60 mod 60) * 60 + s mod 60 = (s :: int)"
proof -
  have "(D + (h' div 24 + 1) - 1) * 24 + h' mod 24 = D * 24 + (h' div 24 * 24 + h' mod 24)"
    by (simp add: algebra_simps)
  also have "\<dots> = s div 60 div 60" using assms by (simp add: mult.commute)
  finally have "((D + (h' div 24 + 1) - 1) * 24 + h' mod 24) * 60 * 60 + (s div 60 mod 60) * 60 + s mod 60 =
      (s div 60 div 60 * 60 + s div 60 mod 60) * 60 + s mod 60"
    by (simp only:) (simp only: distrib_right)
  also have "\<dots> = s" by (simp only: div_mult_mod_eq)
  finally show ?thesis .
qed

text \<open>
  C33: \<open>toLocalTime\<close> is right up to the year 2100: every second from the epoch on becomes a
  valid date that stands for exactly this second in the Gregorian calendar, and the month
  search stays within the table of days.
\<close>

theorem toLocalTime_correct:
  assumes "0 \<le> second - timezone" "second - timezone < 4102444800"
  shows "\<exists>t'. toLocalTime second timezone t = Inr t' \<and> valid_tm t' \<and>
     civil_seconds t' = second - timezone"
proof -
  define s where "s = second - timezone"
  define h where "h = s div 60 div 60"
  obtain y h' where yl: "year_loop (h div (1461 * 24) * 4 + 70) (h mod (1461 * 24)) = (y, h')"
    by fastforce
  have s: "0 \<le> s" "s < 4102444800" using assms by (simp_all add: s_def)
  then have h: "0 \<le> h" "h < 1139568" by (auto simp: h_def)
  note y = year_of_hours [OF h yl]
  let ?d = "h' div 24 + 1" and ?leap = "leap4 y"
  have greg: "gregorian_leap (1900 + y) = ?leap"
    using leap_2099 [of "1900 + y"] y(4,5) by (simp add: leap4_def) presburger
  have d: "1 \<le> ?d" "?d \<le> (if ?leap then 366 else 365)"
    using y(2,3) by (auto simp: hours_of_def split: if_splits)
  let ?T = "t\<lparr>tm_sec := s mod 60, tm_min := s div 60 mod 60, tm_year := y, tm_hour := h' mod 24\<rparr>"
  have "in64 (second - timezone)" "h mod 2 ^ 32 = h" using s h by (simp_all add: in64_def s_def)
  then have "toLocalTime second timezone t =
      (if ?leap \<and> ?d = 60 then Inr (?T\<lparr>tm_mon := 1, tm_mday := 29\<rparr>)
       else ubind (mon_loop 0 (if ?leap \<and> ?d > 60 then ?d - 1 else ?d))
              (\<lambda>(mon, mday). Inr (?T\<lparr>tm_mon := mon, tm_mday := mday\<rparr>)))"
    using s yl by (simp add: toLocalTime_def Let_def s_def [symmetric] h_def [symmetric])
  with month_run [OF d, of ?T] obtain m e where
    me: "toLocalTime second timezone t = Inr (?T\<lparr>tm_mon := m, tm_mday := e\<rparr>)"
    "m < 12" "1 \<le> e" "e \<le> month_days ?leap m" "days_before_month ?leap m + e = ?d" by metis
  have "nat (y - 70) \<le> 130" using y(4,5) by simp
  from days_before_year_2100 [OF this] y(4) have dy: "days_before_year (nat (y - 70)) = days4 y" by simp
  have "civil_seconds (?T\<lparr>tm_mon := m, tm_mday := e\<rparr>) =
      ((days4 y + (days_before_month ?leap m + e) - 1) * 24 + h' mod 24) * 60 * 60 +
      (s div 60 mod 60) * 60 + s mod 60"
    by (simp add: civil_seconds_def dy greg greg [unfolded add.commute [of 1900 y]] algebra_simps)
  also have "\<dots> = s" unfolding me(5) by (rule seconds_of_parts) (simp add: y(1) h_def)
  finally have "civil_seconds (?T\<lparr>tm_mon := m, tm_mday := e\<rparr>) = s" .
  moreover have "valid_tm (?T\<lparr>tm_mon := m, tm_mday := e\<rparr>)"
    using me(2-4) y(4) by (simp add: valid_tm_def greg)
  ultimately show ?thesis using me(1) s_def by auto
qed

definition tm0 :: tm where
  "tm0 = \<lparr>tm_sec = 0, tm_min = 0, tm_hour = 0, tm_mday = 0, tm_mon = 0, tm_year = 0\<rparr>"

lemma toLocalTime_correct_witness:
  "\<exists>t'. toLocalTime 951782400 0 tm0 = Inr t' \<and> civil_seconds t' = 951782400"
  using toLocalTime_correct [of 951782400 0 tm0] by auto

text \<open>
  From 1 March 2100 on the conversion is a day late: it takes every fourth year for a leap
  year, so the first second of that day is shown as 29 February 2100, a date that does not
  exist.
\<close>

theorem toLocalTime_2100:
  "toLocalTime 4107542400 0 tm0 =
     Inr \<lparr>tm_sec = 0, tm_min = 0, tm_hour = 0, tm_mday = 29, tm_mon = 1, tm_year = 200\<rparr> \<and>
   \<not> gregorian_leap (1900 + 200)"
proof
  have "year_loop 198 18936 = (200, 1416)"
    by (simp add: year_loop.simps hours_of_def leap4_def)
  then show "toLocalTime 4107542400 0 tm0 =
     Inr \<lparr>tm_sec = 0, tm_min = 0, tm_hour = 0, tm_mday = 29, tm_mon = 1, tm_year = 200\<rparr>"
    by (simp add: toLocalTime_def Let_def in64_def tm0_def leap4_def)
  show "\<not> gregorian_leap (1900 + 200)" by (simp add: gregorian_leap_def)
qed

text \<open>
  The interval that arms a timer is a valid and positive \<open>timespec\<close>: it never is zero,
  which would disarm the timer, its nanoseconds are below a second, and for a time in the
  future it is the exact difference.
\<close>

theorem timeIntervalFromNow_valid:
  assumes "in64 (t - now)"
  shows "\<exists>ts. timeIntervalFromNow now t = Inr ts \<and> 0 \<le> ts_sec ts \<and> 0 \<le> ts_nsec ts \<and>
     ts_nsec ts < 1000000000 \<and> (ts_sec ts, ts_nsec ts) \<noteq> (0, 0) \<and>
     ts_sec ts * 1000000000 + ts_nsec ts = (if now < t then (t - now) * 1000000 else 1000)"
  using timeIntervalFromNow_total [OF assms] .

lemma timeIntervalFromNow_valid_witness:
  "timeIntervalFromNow 1000 2500 = Inr \<lparr>ts_sec = 1, ts_nsec = 500000000\<rparr>"
proof -
  have "in64 (2500 - 1000)" by (simp add: in64_def)
  from timeIntervalFromNow_valid [OF this] obtain ts where
    ts: "timeIntervalFromNow 1000 2500 = Inr ts" "0 \<le> ts_nsec ts" "ts_nsec ts < 1000000000"
      "ts_sec ts * 1000000000 + ts_nsec ts = 1500000000" by auto
  then have "\<not> ts_sec ts \<le> 0" "\<not> 2 \<le> ts_sec ts" by linarith+
  then have "ts_sec ts = 1" by linarith
  with ts show ?thesis by simp
qed

end
