(* ===== verification/TimerQueue.thy ===== *)
theory TimerQueue
  imports MsTime "HOL-Library.Product_Lexorder" "HOL-Library.Multiset"
begin

text \<open>
  \<open>Timer\<close> of \<open>src/timer.cc\<close> and \<open>include/timer.h\<close>: a min-heap of (time, coroutine) pairs and
  a timerfd that is armed for the earliest. \<open>std::priority_queue\<close> with \<open>std::greater\<close> is the
  list of its pairs in ascending order, whose head is \<open>top()\<close>; a coroutine is its address. The
  effect of \<open>timerfd_settime\<close> is the last interval the fd was given and the clock it was given
  at; its return value, like the clock readings, is an argument.
\<close>

section \<open>State and operations\<close>

type_synonym co_ptr = nat

record timer =
  timeFd :: int
  timerCoHeap :: "(ms_time \<times> co_ptr) list"
  tm_armed :: "(ms_time \<times> timespec) option"     \<comment> \<open>clock and interval of the last settime\<close>
  tm_closed :: bool

definition timer_new :: timer where
  "timer_new = \<lparr>timeFd = -1, timerCoHeap = [], tm_armed = None, tm_closed = False\<rparr>"

definition isTimeFdUseful :: "timer \<Rightarrow> bool" where
  "isTimeFdUseful t = (if timeFd t < 0 then False else True)"

definition timer_destroy :: "timer \<Rightarrow> timer" where
  "timer_destroy t = (if isTimeFdUseful t then t\<lparr>tm_closed := True\<rparr> else t)"

text \<open>\<open>fd\<close> is what \<open>timerfd_create\<close> returned, \<open>addEv\<close> the registration with the poller.\<close>

definition timer_init :: "int \<Rightarrow> (int \<Rightarrow> bool) \<Rightarrow> timer \<Rightarrow> timer \<times> bool" where
  "timer_init fd addEv t =
     (let t = t\<lparr>timeFd := fd\<rparr> in
      if isTimeFdUseful t then (t, addEv (timeFd t)) else (t, False))"

definition heap_push :: "ms_time \<times> co_ptr \<Rightarrow> (ms_time \<times> co_ptr) list \<Rightarrow> (ms_time \<times> co_ptr) list" where
  "heap_push x h = insort x h"

definition resetTimeOfTimefd :: "ms_time \<Rightarrow> int \<Rightarrow> ms_time \<Rightarrow> timer \<Rightarrow> (timer \<times> bool) res" where
  "resetTimeOfTimefd now ret time t =
     ubind (timeIntervalFromNow now time) (\<lambda>newValue.
     Inr ((if ret < 0 then t else t\<lparr>tm_armed := Some (now, newValue)\<rparr>),
          (if ret < 0 then False else True)))"

definition runAt :: "ms_time \<Rightarrow> int \<Rightarrow> ms_time \<Rightarrow> co_ptr \<Rightarrow> timer \<Rightarrow> timer res" where
  "runAt now ret time pCo t =
     (let t = t\<lparr>timerCoHeap := heap_push (time, pCo) (timerCoHeap t)\<rparr> in
      if time_eq (fst (hd (timerCoHeap t))) time
      then ubind (resetTimeOfTimefd now ret time t) (\<lambda>(t, _). Inr t)
      else Inr t)"

definition runAfter :: "ms_time \<Rightarrow> ms_time \<Rightarrow> int \<Rightarrow> ms_time \<Rightarrow> co_ptr \<Rightarrow> timer \<Rightarrow> timer res" where
  "runAfter now now' ret time pCo t =
     ubind (chk64 (now + time)) (\<lambda>runTime. runAt now' ret runTime pCo t)"

definition wakeUp :: "ms_time \<Rightarrow> ms_time \<Rightarrow> int \<Rightarrow> timer \<Rightarrow> timer res" where
  "wakeUp now now' ret t =
     ubind (resetTimeOfTimefd now' ret now t) (\<lambda>(t, _). Inr t)"

fun pop_expired :: "ms_time \<Rightarrow> (ms_time \<times> co_ptr) list \<Rightarrow> co_ptr list \<times> (ms_time \<times> co_ptr) list" where
  "pop_expired nowTime [] = ([], [])"
| "pop_expired nowTime (x # h) =
     (if time_le (fst x) nowTime
      then let (cs, h') = pop_expired nowTime h in (snd x # cs, h')
      else ([], x # h))"

definition getExpiredCoroutines ::
  "ms_time \<Rightarrow> ms_time \<Rightarrow> int \<Rightarrow> co_ptr list \<Rightarrow> timer \<Rightarrow> (timer \<times> co_ptr list) res" where
  "getExpiredCoroutines now now' ret expired t =
     (let (cs, h) = pop_expired now (timerCoHeap t); t = t\<lparr>timerCoHeap := h\<rparr> in
      if h \<noteq> [] then
        ubind (resetTimeOfTimefd now' ret (fst (hd h)) t) (\<lambda>(t, _). Inr (t, expired @ cs))
      else Inr (t, expired @ cs))"

section \<open>The heap\<close>

definition timer_inv :: "timer \<Rightarrow> bool" where
  "timer_inv t \<longleftrightarrow> sorted (timerCoHeap t)"

lemma heap_push_sorted: "sorted h \<Longrightarrow> sorted (heap_push x h)"
  by (simp add: heap_push_def sorted_insort)

lemma heap_push_mset: "mset (heap_push x h) = add_mset x (mset h)"
  by (simp add: heap_push_def)

lemma heap_push_nonempty [simp]: "heap_push x h \<noteq> []"
  by (simp add: heap_push_def)

lemma hd_heap_push: "sorted h \<Longrightarrow> hd (heap_push x h) = (if h = [] \<or> x \<le> hd h then x else hd h)"
  by (cases h) (auto simp: heap_push_def)

lemma sorted_fst: "sorted ((a, c) # h) \<Longrightarrow> y \<in> set h \<Longrightarrow> a \<le> fst y"
  by (auto simp: less_eq_prod_def)

lemma pop_expired_spec:
  "sorted h \<Longrightarrow> pop_expired now h =
     (map snd (filter (\<lambda>x. fst x \<le> now) h), filter (\<lambda>x. \<not> fst x \<le> now) h)"
proof (induction h)
  case (Cons x h)
  obtain a c where x: "x = (a, c)" by (cases x)
  show ?case
  proof (cases "a \<le> now")
    case True
    then show ?thesis using Cons by (simp add: x time_le_def)
  next
    case False
    then have "\<forall>y \<in> set h. \<not> fst y \<le> now"
      using sorted_fst [of a c h] Cons.prems by (fastforce simp: x)
    then have "filter (\<lambda>x. fst x \<le> now) h = []" "filter (\<lambda>x. \<not> fst x \<le> now) h = h"
      by (simp_all add: filter_empty_conv filter_id_conv)
    with False show ?thesis by (simp add: x time_le_def)
  qed
qed simp

section \<open>The armed time\<close>

text \<open>When the timerfd will fire, in nanoseconds since the epoch.\<close>

definition fires_at :: "ms_time \<times> timespec \<Rightarrow> int" where
  "fires_at a = fst a * 1000000 + (ts_sec (snd a) * 1000000000 + ts_nsec (snd a))"

definition armed_by :: "ms_time \<Rightarrow> timer \<Rightarrow> bool" where
  "armed_by now t \<longleftrightarrow>
     (timerCoHeap t \<noteq> [] \<longrightarrow>
       (\<exists>a. tm_armed t = Some a \<and>
            fires_at a \<le> max (fst (hd (timerCoHeap t)) * 1000000) (now * 1000000 + 1000)))"

lemma reset_armed:
  assumes "in64 (time - now)" "0 \<le> ret"
  shows "\<exists>ts. resetTimeOfTimefd now ret time t = Inr (t\<lparr>tm_armed := Some (now, ts)\<rparr>, True) \<and>
    fires_at (now, ts) = (if now < time then time * 1000000 else now * 1000000 + 1000)"
proof -
  obtain ts where ts: "timeIntervalFromNow now time = Inr ts"
    "ts_sec ts * 1000000000 + ts_nsec ts = (if now < time then (time - now) * 1000000 else 1000)"
    using timeIntervalFromNow_total [OF assms(1)] by blast
  then show ?thesis
    using assms(2)
    by (intro exI [of _ ts]) (simp add: resetTimeOfTimefd_def fires_at_def algebra_simps)
qed

lemma armed_by_later: "armed_by now t \<Longrightarrow> now \<le> now' \<Longrightarrow> armed_by now' t"
  by (fastforce simp: armed_by_def)

lemma runAt_run:
  assumes inv: "timer_inv t" "armed_by now0 t" "now0 \<le> now" and ok: "in64 (time - now)" "0 \<le> ret"
  shows "\<exists>t'. runAt now ret time co t = Inr t' \<and> timer_inv t' \<and> armed_by now t' \<and>
    timerCoHeap t' = heap_push (time, co) (timerCoHeap t)"
proof -
  let ?h = "heap_push (time, co) (timerCoHeap t)"
  let ?t = "t\<lparr>timerCoHeap := ?h\<rparr>"
  have s: "sorted (timerCoHeap t)" "sorted ?h"
    using inv(1) by (simp_all add: timer_inv_def heap_push_sorted)
  show ?thesis
  proof (cases "fst (hd ?h) = time")
    case True
    from reset_armed [OF ok, of ?t] obtain ts where
      "resetTimeOfTimefd now ret time ?t = Inr (?t\<lparr>tm_armed := Some (now, ts)\<rparr>, True)"
      "fires_at (now, ts) = (if now < time then time * 1000000 else now * 1000000 + 1000)" by blast
    then show ?thesis
      using True s(2) by (simp add: runAt_def Let_def time_eq_def timer_inv_def armed_by_def)
  next
    case False
    then have hd: "timerCoHeap t \<noteq> []" "hd ?h = hd (timerCoHeap t)"
      using hd_heap_push [OF s(1), of "(time, co)"] by (auto split: if_splits)
    have "armed_by now ?t"
      using armed_by_later [OF inv(2,3)] hd by (simp add: armed_by_def)
    then show ?thesis using False s(2) by (simp add: runAt_def Let_def time_eq_def timer_inv_def)
  qed
qed

lemma getExpired_run:
  assumes inv: "timer_inv t" and ok: "0 \<le> ret" "\<forall>x \<in> set (timerCoHeap t). in64 (fst x - now')"
  shows "\<exists>t'. getExpiredCoroutines now now' ret acc t =
      Inr (t', acc @ map snd (filter (\<lambda>x. fst x \<le> now) (timerCoHeap t))) \<and>
    timer_inv t' \<and> armed_by now' t' \<and>
    timerCoHeap t' = filter (\<lambda>x. \<not> fst x \<le> now) (timerCoHeap t)"
proof -
  let ?h = "filter (\<lambda>x. \<not> fst x \<le> now) (timerCoHeap t)" and ?t = "\<lambda>h. t\<lparr>timerCoHeap := h\<rparr>"
  have s: "sorted (timerCoHeap t)" using inv by (simp add: timer_inv_def)
  then have s': "sorted ?h" by (rule sorted_wrt_filter)
  note pe = pop_expired_spec [OF s, of now]
  show ?thesis
  proof (cases "?h = []")
    case True
    then show ?thesis
      by (simp add: getExpiredCoroutines_def pe timer_inv_def armed_by_def)
  next
    case False
    then have "hd ?h \<in> set (timerCoHeap t)" using hd_in_set [OF False] by simp
    then have "in64 (fst (hd ?h) - now')" using ok(2) by blast
    from reset_armed [OF this ok(1), of "?t ?h"] obtain ts where
      "resetTimeOfTimefd now' ret (fst (hd ?h)) (?t ?h) =
         Inr ((?t ?h)\<lparr>tm_armed := Some (now', ts)\<rparr>, True)"
      "fires_at (now', ts) = (if now' < fst (hd ?h) then fst (hd ?h) * 1000000 else now' * 1000000 + 1000)"
      by blast
    then show ?thesis
      using False s' by (simp add: getExpiredCoroutines_def pe timer_inv_def armed_by_def Let_def)
  qed
qed

section \<open>Properties\<close>

text \<open>
  C34: a timer hands out exactly the coroutines whose time has come, in the order of their
  times, keeps the others, and leaves the timerfd armed to fire no later than the earliest of
  those (or in a microsecond, if that time has passed meanwhile).
\<close>

theorem timer_expires_due:
  assumes "timer_inv t" "0 \<le> ret" "\<forall>x \<in> set (timerCoHeap t). in64 (fst x - now')"
  shows "\<exists>t' cs. getExpiredCoroutines now now' ret [] t = Inr (t', map snd cs) \<and>
    mset cs = filter_mset (\<lambda>x. fst x \<le> now) (mset (timerCoHeap t)) \<and> sorted (map fst cs) \<and>
    mset (timerCoHeap t') = filter_mset (\<lambda>x. \<not> fst x \<le> now) (mset (timerCoHeap t)) \<and>
    armed_by now' t'"
proof -
  let ?cs = "filter (\<lambda>x. fst x \<le> now) (timerCoHeap t)"
  have "sorted ?cs" using assms(1) unfolding timer_inv_def by (rule sorted_wrt_filter)
  then have "sorted (map fst ?cs)"
    unfolding sorted_map by (rule sorted_wrt_mono_rel [rotated]) (auto simp: less_eq_prod_def)
  with getExpired_run [OF assms, of now "[]"] show ?thesis
    by (auto intro!: exI [of _ ?cs] simp: mset_filter)
qed

text \<open>
  Scheduling a coroutine keeps the pending ones, and the timerfd stays armed to fire no
  later than the earliest time, whether the new one is the earliest or not.
\<close>

theorem timer_schedules:
  assumes "timer_inv t" "armed_by now0 t" "now0 \<le> now" "in64 (time - now)" "0 \<le> ret"
  shows "\<exists>t'. runAt now ret time co t = Inr t' \<and> timer_inv t' \<and> armed_by now t' \<and>
    mset (timerCoHeap t') = add_mset (time, co) (mset (timerCoHeap t))"
  using runAt_run [OF assms, of co] by (auto simp: heap_push_mset)

text \<open>
  A wake-up can be lost: \<open>wakeUp\<close> only arms the timerfd, so scheduling a coroutine right
  after it, as the earliest one, arms the fd for the time of that coroutine instead, and the
  poller is not woken in a microsecond as asked.
\<close>

theorem wakeUp_overwritten:
  assumes "timer_inv t" "timerCoHeap t = []" "in64 (time - now)" "now < time" "0 \<le> ret"
  shows "\<exists>t1 t2 a. wakeUp now now ret t = Inr t1 \<and> runAt now ret time co t1 = Inr t2 \<and>
    tm_armed t2 = Some a \<and> fires_at a = time * 1000000"
proof -
  have "in64 (now - now)" by (simp add: in64_def)
  from reset_armed [OF this assms(5), of t] obtain ts where
    w: "wakeUp now now ret t = Inr (t\<lparr>tm_armed := Some (now, ts)\<rparr>)"
    by (auto simp: wakeUp_def)
  let ?t1 = "t\<lparr>tm_armed := Some (now, ts)\<rparr>"
  let ?t2 = "?t1\<lparr>timerCoHeap := [(time, co)]\<rparr>"
  from reset_armed [OF assms(3,5), of ?t2] obtain ts2 where
    "resetTimeOfTimefd now ret time ?t2 = Inr (?t2\<lparr>tm_armed := Some (now, ts2)\<rparr>, True)"
    "fires_at (now, ts2) = time * 1000000" using assms(4) by auto
  then show ?thesis
    using w assms(2) by (simp add: runAt_def Let_def heap_push_def time_eq_def)
qed

section \<open>Witnesses\<close>

definition demo_timer :: timer where
  "demo_timer = timer_new\<lparr>timeFd := 5, timerCoHeap := [(10, 1), (20, 2), (30, 3)],
     tm_armed := Some (5, \<lparr>ts_sec = 0, ts_nsec = 5000000\<rparr>)\<rparr>"

lemma demo_timer_ok: "timer_inv demo_timer" "armed_by 5 demo_timer"
  by (simp_all add: demo_timer_def timer_new_def timer_inv_def armed_by_def fires_at_def)

lemma timer_expires_due_witness:
  "\<exists>t' cs. getExpiredCoroutines 20 20 0 [] demo_timer = Inr (t', map snd cs) \<and>
     mset cs = {#(10 :: int, 1), (20, 2)#} \<and> mset (timerCoHeap t') = {#(30, 3)#}"
proof -
  have "\<forall>x \<in> set (timerCoHeap demo_timer). in64 (fst x - 20)"
    by (simp add: demo_timer_def timer_new_def in64_def)
  from timer_expires_due [OF demo_timer_ok(1) _ this, of 0 20]
  obtain t' cs where r: "getExpiredCoroutines 20 20 0 [] demo_timer = Inr (t', map snd cs)"
    "mset cs = filter_mset (\<lambda>e. fst e \<le> 20) (mset (timerCoHeap demo_timer))"
    "mset (timerCoHeap t') = filter_mset (\<lambda>e. \<not> fst e \<le> 20) (mset (timerCoHeap demo_timer))"
    by blast
  then show ?thesis by (intro exI [of _ t'] exI [of _ cs]) (simp add: demo_timer_def)
qed

lemma timer_schedules_witness:
  "\<exists>t'. runAt 6 0 15 4 demo_timer = Inr t' \<and> armed_by 6 t'"
proof -
  have "in64 (15 - 6)" by (simp add: in64_def)
  from timer_schedules [OF demo_timer_ok _ this, of 0 4] show ?thesis by auto
qed

lemma wakeUp_overwritten_witness:
  "\<exists>t1 t2 a. wakeUp 7 7 0 timer_new = Inr t1 \<and> runAt 7 0 1007 4 t1 = Inr t2 \<and>
     tm_armed t2 = Some a \<and> fires_at a = 1007000000"
proof -
  have "in64 (1007 - 7)" by (simp add: in64_def)
  from wakeUp_overwritten [OF _ _ this, of timer_new 0 4] show ?thesis
    by (simp add: timer_new_def timer_inv_def)
qed

end
