(* ===== verification/Epoller.thy ===== *)
theory Epoller
  imports TimerQueue
begin

text \<open>
  \<open>Epoller\<close> (\<open>src/epoller.cc\<close>, \<open>include/epoller.h\<close>): the poller that tells a processor which
  coroutines may go on. The kernel's interest list is \<open>ep_interest\<close>; what \<open>epoll_create1\<close>,
  \<open>epoll_ctl\<close> and \<open>epoll_wait\<close> return is an argument. Only the array of events is the
  program's own: it is overwritten from its start by each wait and doubles when a wait fills it.
\<close>

section \<open>State and operations\<close>

record epoll_event =
  ev_events :: int
  ev_ptr :: co_ptr

record epoller =
  epollFd :: int
  activeEpollEvents :: "epoll_event list"
  ep_interest :: "int \<rightharpoonup> epoll_event"
  ep_closed :: bool

definition epollerListFirstSize :: nat where
  "epollerListFirstSize = 16"

definition epollTimeOutMs :: int where
  "epollTimeOutMs = -1"

definition isEpollFdUseful :: "epoller \<Rightarrow> bool" where
  "isEpollFdUseful e = (if epollFd e < 0 then False else True)"

definition epoller_new :: epoller where
  "epoller_new =
     \<lparr>epollFd = -1,
      activeEpollEvents = replicate epollerListFirstSize \<lparr>ev_events = 0, ev_ptr = 0\<rparr>,
      ep_interest = (\<lambda>_. None), ep_closed = False\<rparr>"

definition epoller_destroy :: "epoller \<Rightarrow> epoller" where
  "epoller_destroy e = (if isEpollFdUseful e then e\<lparr>ep_closed := True\<rparr> else e)"

definition epoller_init :: "int \<Rightarrow> epoller \<Rightarrow> epoller \<times> bool" where
  "epoller_init fd e = (let e = e\<lparr>epollFd := fd\<rparr> in (e, isEpollFdUseful e))"

definition modifyEv :: "int \<Rightarrow> co_ptr \<Rightarrow> int \<Rightarrow> int \<Rightarrow> epoller \<Rightarrow> epoller \<times> bool" where
  "modifyEv ret pCo fd interesEv e =
     (if \<not> isEpollFdUseful e then (e, False)
      else let event = \<lparr>ev_events = interesEv, ev_ptr = pCo\<rparr> in
        if ret < 0 then (e, False)
        else (e\<lparr>ep_interest := (ep_interest e)(fd \<mapsto> event)\<rparr>, True))"

definition addEv :: "int \<Rightarrow> co_ptr \<Rightarrow> int \<Rightarrow> int \<Rightarrow> epoller \<Rightarrow> epoller \<times> bool" where
  "addEv ret pCo fd interesEv e =
     (if \<not> isEpollFdUseful e then (e, False)
      else let event = \<lparr>ev_events = interesEv, ev_ptr = pCo\<rparr> in
        if ret < 0 then (e, False)
        else (e\<lparr>ep_interest := (ep_interest e)(fd \<mapsto> event)\<rparr>, True))"

definition removeEv :: "int \<Rightarrow> co_ptr \<Rightarrow> int \<Rightarrow> int \<Rightarrow> epoller \<Rightarrow> epoller \<times> bool" where
  "removeEv ret pCo fd interesEv e =
     (if \<not> isEpollFdUseful e then (e, False)
      else if ret < 0 then (e, False)
      else (e\<lparr>ep_interest := (ep_interest e)(fd := None)\<rparr>, True))"

text \<open>
  \<open>events\<close> is what \<open>epoll_wait\<close> wrote to the array, or \<open>None\<close> when it returned -1; it is asked
  for at most as many as the array holds.
\<close>

definition getActEvServ ::
  "epoll_event list option \<Rightarrow> int \<Rightarrow> co_ptr list \<Rightarrow> epoller \<Rightarrow> epoller \<times> co_ptr list \<times> int" where
  "getActEvServ events savedErrno activeEvServs e =
     (if \<not> isEpollFdUseful e then (e, activeEvServs, -1)
      else case events of
        None \<Rightarrow> (e, activeEvServs, savedErrno)
      | Some evs \<Rightarrow>
          let e = e\<lparr>activeEpollEvents := evs @ drop (length evs) (activeEpollEvents e)\<rparr>;
              actEvNum = length evs
          in if actEvNum > 0 then
               if actEvNum > length (activeEpollEvents e) then (e, activeEvServs, savedErrno)
               else let served = activeEvServs @ map ev_ptr (take actEvNum (activeEpollEvents e));
                        n = length (activeEpollEvents e)
                    in if actEvNum = n
                       then (e\<lparr>activeEpollEvents := activeEpollEvents e @
                               replicate n \<lparr>ev_events = 0, ev_ptr = 0\<rparr>\<rparr>, served, savedErrno)
                       else (e, served, savedErrno)
             else (e, activeEvServs, savedErrno))"

section \<open>Lemmas\<close>

text \<open>The coroutines of the events are served in order, and the array never fills for good.\<close>

lemma getActEvServ_serves:
  assumes "isEpollFdUseful e" "length evs \<le> length (activeEpollEvents e)" "activeEpollEvents e \<noteq> []"
    and "getActEvServ (Some evs) err acc e = (e', acc', r)"
  shows "acc' = acc @ map ev_ptr evs" "length evs < length (activeEpollEvents e')"
    "length (activeEpollEvents e) \<le> length (activeEpollEvents e')"
  using assms by (auto simp: getActEvServ_def Let_def split: if_splits)

lemma getActEvServ_frame:
  "getActEvServ evs err acc e = (e', acc', r) \<Longrightarrow> epollFd e' = epollFd e \<and> ep_interest e' = ep_interest e"
  by (auto simp: getActEvServ_def Let_def split: if_splits option.splits)

lemma addEv_removeEv:
  assumes "addEv ret co fd ev e = (e1, True)" "removeEv ret' co fd ev e1 = (e2, True)"
  shows "ep_interest e2 = (ep_interest e)(fd := None)"
  using assms by (auto simp: addEv_def removeEv_def Let_def split: if_splits)

end
