(* ===== verification/MemPool.thy ===== *)
theory MemPool
  imports Prelude
begin

text \<open>
  \<open>MemPool\<close> and \<open>ObjPool\<close> (\<open>include/mempool.h\<close>, \<open>include/objpool.h\<close>): blocks of one size,
  carved out of chunks that \<open>malloc\<close> returns, in a free list that is threaded through the
  blocks themselves. An address is a natural number and 0 is the null pointer; \<open>mp_next a\<close> is
  the word a \<open>MemBlockNode\<close> at \<open>a\<close> holds, and the block's owner may write over it. \<open>malloc\<close>
  is outside the program: its result is an argument, and \<open>mp_mallocs\<close> lists the ranges it has
  handed out, so that its contract (a new range overlaps no range in use) can be stated.

  The lemmas show that the pool is a free list refining a set: a block that is handed out
  overlaps no other block in use, writing to a block in use cannot damage the pool, and the
  destructor returns every chunk to \<open>free\<close> once. The locale \<open>object_pool\<close> is what the
  processor asks of the pool of its coroutines.
\<close>

section \<open>State and operations\<close>

type_synonym address = nat

record mempool =
  mp_freeListHead :: address
  mp_mallocListHead :: address
  mp_mallocTimes :: nat
  mp_objSize :: nat
  mp_next :: "address \<Rightarrow> address"
  mp_mallocs :: "(address \<times> nat) list"    \<comment> \<open>address and bytes of what is not yet freed\<close>

definition memPoolMallocObjCnt :: nat where
  "memPoolMallocObjCnt = 40"

text \<open>\<open>sizeof(MemBlockNode)\<close>, a union of a pointer and a character.\<close>

definition node_size :: nat where
  "node_size = 8"

definition mempool_new :: "nat \<Rightarrow> mempool" where
  "mempool_new objSize =
     \<lparr>mp_freeListHead = 0, mp_mallocListHead = 0, mp_mallocTimes = 0,
      mp_objSize = (if objSize < node_size then node_size else objSize),
      mp_next = (\<lambda>_. 0), mp_mallocs = []\<rparr>"

text \<open>The loop that links \<open>k\<close> blocks, the first at \<open>p\<close>, into the free list.\<close>

fun carve :: "nat \<Rightarrow> address \<Rightarrow> mempool \<Rightarrow> mempool" where
  "carve 0 p mp = mp"
| "carve (Suc k) p mp =
     carve k (p + mp_objSize mp)
       (mp\<lparr>mp_next := (mp_next mp)(p := mp_freeListHead mp), mp_freeListHead := p\<rparr>)"

text \<open>\<open>base\<close> is what \<open>malloc\<close> returns, if it is called.\<close>

definition AllocAMemBlock :: "address \<Rightarrow> mempool \<Rightarrow> (mempool \<times> address) res" where
  "AllocAMemBlock base mp =
     ubind (if mp_freeListHead mp = 0 then
              let mallocCnt = memPoolMallocObjCnt + mp_mallocTimes mp in
              if base = 0 then Inl NullDeref
              else let mp = mp\<lparr>mp_mallocs := (base, mallocCnt * mp_objSize mp + node_size) # mp_mallocs mp,
                               mp_next := (mp_next mp)(base := mp_mallocListHead mp),
                               mp_mallocListHead := base\<rparr>;
                       mp = carve mallocCnt (base + node_size) mp
                   in Inr (mp\<lparr>mp_mallocTimes := mp_mallocTimes mp + 1\<rparr>)
            else Inr mp)
       (\<lambda>mp. let ret = mp_freeListHead mp in
        if ret = 0 then Inl NullDeref
        else Inr (mp\<lparr>mp_freeListHead := mp_next mp ret\<rparr>, ret))"

definition FreeAMemBlock :: "address \<Rightarrow> mempool \<Rightarrow> mempool" where
  "FreeAMemBlock block mp =
     (if block = 0 then mp
      else mp\<lparr>mp_next := (mp_next mp)(block := mp_freeListHead mp), mp_freeListHead := block\<rparr>)"

definition free_chunk :: "address \<Rightarrow> mempool \<Rightarrow> mempool res" where
  "free_chunk p mp =
     (if p \<in> fst ` set (mp_mallocs mp)
      then Inr (mp\<lparr>mp_mallocs := filter (\<lambda>c. fst c \<noteq> p) (mp_mallocs mp)\<rparr>)
      else Inl BadFree)"

function mempool_destroy :: "mempool \<Rightarrow> mempool res" where
  "mempool_destroy mp =
     (if mp_mallocListHead mp = 0 then Inr mp
      else let mallocNode = mp_mallocListHead mp;
               mp = mp\<lparr>mp_mallocListHead := mp_next mp mallocNode\<rparr>
           in ubind (free_chunk mallocNode mp) mempool_destroy)"
  by pat_completeness auto
termination
  by (relation "measure (\<lambda>mp. length (mp_mallocs mp))")
    (auto simp: free_chunk_def intro!: length_filter_less split: if_splits)

declare mempool_destroy.simps [simp del]

text \<open>
  \<open>ObjPool\<close>: the objects that live in the blocks. \<open>triv\<close> says that the class has a trivial
  constructor or destructor; the constructor, run on the arguments, gives the object.
\<close>

record 'a obj_pool =
  op_memPool :: mempool
  op_objs :: "address \<rightharpoonup> 'a"

definition obj_pool_new :: "nat \<Rightarrow> 'a obj_pool" where
  "obj_pool_new bytes = \<lparr>op_memPool = mempool_new bytes, op_objs = (\<lambda>_. None)\<rparr>"

definition new_aux_trivial :: "address \<Rightarrow> 'a obj_pool \<Rightarrow> ('a obj_pool \<times> address) res" where
  "new_aux_trivial base p =
     ubind (AllocAMemBlock base (op_memPool p)) (\<lambda>(mp, newPos). Inr (p\<lparr>op_memPool := mp\<rparr>, newPos))"

definition new_aux :: "address \<Rightarrow> 'a \<Rightarrow> 'a obj_pool \<Rightarrow> ('a obj_pool \<times> address) res" where
  "new_aux base x p =
     ubind (AllocAMemBlock base (op_memPool p)) (\<lambda>(mp, newPos).
     Inr (p\<lparr>op_memPool := mp, op_objs := (op_objs p)(newPos \<mapsto> x)\<rparr>, newPos))"

definition new_obj :: "bool \<Rightarrow> address \<Rightarrow> 'a \<Rightarrow> 'a obj_pool \<Rightarrow> ('a obj_pool \<times> address) res" where
  "new_obj triv base x p = (if triv then new_aux_trivial base p else new_aux base x p)"

definition delete_aux_trivial :: "address \<Rightarrow> 'a obj_pool \<Rightarrow> 'a obj_pool res" where
  "delete_aux_trivial obj p = Inr (p\<lparr>op_memPool := FreeAMemBlock obj (op_memPool p)\<rparr>)"

definition delete_aux :: "address \<Rightarrow> 'a obj_pool \<Rightarrow> 'a obj_pool res" where
  "delete_aux obj p =
     (if op_objs p obj = None then Inl UseAfterFree
      else Inr (p\<lparr>op_objs := (op_objs p)(obj := None),
                  op_memPool := FreeAMemBlock obj (op_memPool p)\<rparr>))"

definition delete_obj :: "bool \<Rightarrow> address \<Rightarrow> 'a obj_pool \<Rightarrow> 'a obj_pool res" where
  "delete_obj triv obj p =
     (if obj = 0 then Inr p
      else if triv then delete_aux_trivial obj p else delete_aux obj p)"

section \<open>Chains in memory\<close>

text \<open>\<open>chain nx h xs\<close>: from \<open>h\<close>, following \<open>nx\<close> to null, one meets exactly \<open>xs\<close>.\<close>

fun chain :: "(address \<Rightarrow> address) \<Rightarrow> address \<Rightarrow> address list \<Rightarrow> bool" where
  "chain nx h [] \<longleftrightarrow> h = 0"
| "chain nx h (x # xs) \<longleftrightarrow> h = x \<and> x \<noteq> 0 \<and> chain nx (nx x) xs"

lemma chain_0 [simp]: "chain nx 0 xs \<longleftrightarrow> xs = []"
  by (cases xs) auto

lemma chain_agree: "chain nx h xs \<Longrightarrow> \<forall>x \<in> set xs. nx' x = nx x \<Longrightarrow> chain nx' h xs"
  by (induction xs arbitrary: h) auto

lemma chain_upd: "x \<notin> set xs \<Longrightarrow> chain nx h xs \<Longrightarrow> chain (nx(x := v)) h xs"
  by (erule chain_agree) auto

section \<open>The invariant\<close>

text \<open>
  A chunk is its address and the number of its blocks. \<open>F\<close> is the free list, \<open>A\<close> the blocks in
  use, \<open>C\<close> the chunks, the youngest first.
\<close>

definition chunk_bytes :: "nat \<Rightarrow> nat \<Rightarrow> nat" where
  "chunk_bytes sz k = k * sz + node_size"

definition chunk_blocks :: "nat \<Rightarrow> address \<times> nat \<Rightarrow> address list" where
  "chunk_blocks sz c = map (\<lambda>i. fst c + node_size + i * sz) [0..<snd c]"

definition ranges_apart :: "address \<times> nat \<Rightarrow> address \<times> nat \<Rightarrow> bool" where
  "ranges_apart c d \<longleftrightarrow> fst c + snd c \<le> fst d \<or> fst d + snd d \<le> fst c"

text \<open>If the pool is empty and calls \<open>malloc\<close>, the range at \<open>base\<close> is not in use.\<close>

definition malloc_ok :: "address \<Rightarrow> mempool \<Rightarrow> bool" where
  "malloc_ok base mp \<longleftrightarrow> mp_freeListHead mp = 0 \<longrightarrow> base \<noteq> 0 \<and>
     (\<forall>c \<in> set (mp_mallocs mp).
        ranges_apart (base, chunk_bytes (mp_objSize mp) (memPoolMallocObjCnt + mp_mallocTimes mp)) c)"

definition pool_blocks :: "nat \<Rightarrow> (address \<times> nat) list \<Rightarrow> address set" where
  "pool_blocks sz C = (\<Union>c \<in> set C. set (chunk_blocks sz c))"

definition pool_inv ::
  "mempool \<Rightarrow> address list \<Rightarrow> address set \<Rightarrow> (address \<times> nat) list \<Rightarrow> bool" where
  "pool_inv mp F A C \<longleftrightarrow>
     node_size \<le> mp_objSize mp \<and>
     chain (mp_next mp) (mp_freeListHead mp) F \<and> distinct F \<and>
     chain (mp_next mp) (mp_mallocListHead mp) (map fst C) \<and>
     mp_mallocs mp = map (\<lambda>c. (fst c, chunk_bytes (mp_objSize mp) (snd c))) C \<and>
     sorted_wrt ranges_apart (map (\<lambda>c. (fst c, chunk_bytes (mp_objSize mp) (snd c))) C) \<and>
     map snd C = rev [memPoolMallocObjCnt..<memPoolMallocObjCnt + mp_mallocTimes mp] \<and>
     set F \<inter> A = {} \<and> set F \<union> A = pool_blocks (mp_objSize mp) C"

lemma pool_invD:
  assumes "pool_inv mp F A C"
  shows "node_size \<le> mp_objSize mp" "chain (mp_next mp) (mp_freeListHead mp) F" "distinct F"
    "chain (mp_next mp) (mp_mallocListHead mp) (map fst C)"
    "mp_mallocs mp = map (\<lambda>c. (fst c, chunk_bytes (mp_objSize mp) (snd c))) C"
    "sorted_wrt ranges_apart (map (\<lambda>c. (fst c, chunk_bytes (mp_objSize mp) (snd c))) C)"
    "map snd C = rev [memPoolMallocObjCnt..<memPoolMallocObjCnt + mp_mallocTimes mp]"
    "set F \<inter> A = {}" "set F \<union> A = pool_blocks (mp_objSize mp) C"
  using assms unfolding pool_inv_def by blast+

definition pool_ok :: "mempool \<Rightarrow> address set \<Rightarrow> bool" where
  "pool_ok mp A \<longleftrightarrow> (\<exists>F C. pool_inv mp F A C)"

lemma pool_ok_new: "pool_ok (mempool_new n) {}"
  by (auto simp: pool_ok_def pool_inv_def mempool_new_def pool_blocks_def memPoolMallocObjCnt_def
      intro!: exI [of _ "[]"])

lemma ranges_apart_sym: "ranges_apart c d \<longleftrightarrow> ranges_apart d c"
  by (auto simp: ranges_apart_def)

lemma chunk_blocksE:
  assumes "x \<in> set (chunk_blocks sz c)"
  obtains i where "i < snd c" "x = fst c + node_size + i * sz"
  using assms by (auto simp: chunk_blocks_def)

lemma chunk_block_bounds:
  assumes "x \<in> set (chunk_blocks sz c)"
  shows "fst c + node_size \<le> x" "x + sz \<le> fst c + chunk_bytes sz (snd c)"
proof -
  obtain i where i: "i < snd c" "x = fst c + node_size + i * sz" using assms by (rule chunk_blocksE)
  then show "fst c + node_size \<le> x" by simp
  have "(i + 1) * sz \<le> snd c * sz" using i by (intro mult_le_mono1) simp
  then show "x + sz \<le> fst c + chunk_bytes sz (snd c)" using i by (simp add: chunk_bytes_def)
qed

lemma chunk_blocks_apart:
  assumes "x \<in> set (chunk_blocks sz c)" "y \<in> set (chunk_blocks sz c)" "x \<noteq> y"
  shows "x + sz \<le> y \<or> y + sz \<le> x"
proof -
  obtain i j where x: "x = fst c + node_size + i * sz" and y: "y = fst c + node_size + j * sz"
    using assms by (metis chunk_blocksE)
  have "i < j \<or> j < i" using assms(3) x y by (metis linorder_neqE_nat)
  then show ?thesis
  proof
    assume "i < j"
    then have "(i + 1) * sz \<le> j * sz" by (intro mult_le_mono1) simp
    then show ?thesis using x y by simp
  next
    assume "j < i"
    then have "(j + 1) * sz \<le> i * sz" by (intro mult_le_mono1) simp
    then show ?thesis using x y by simp
  qed
qed

lemma distinct_chunk_blocks: "0 < sz \<Longrightarrow> distinct (chunk_blocks sz c)"
  by (simp add: chunk_blocks_def distinct_map inj_on_def)

lemma sorted_wrt_apart:
  assumes "sorted_wrt ranges_apart (map f C)" "c \<in> set C" "d \<in> set C" "c \<noteq> d"
  shows "ranges_apart (f c) (f d)"
proof -
  obtain i j where ij: "i < length C" "j < length C" "c = C ! i" "d = C ! j"
    using assms by (metis in_set_conv_nth)
  with assms(4) have "i < j \<or> j < i" by (metis linorder_neqE_nat)
  moreover have "i < j \<Longrightarrow> ranges_apart (f c) (f d)" "j < i \<Longrightarrow> ranges_apart (f d) (f c)"
    using sorted_wrt_nth_less [OF assms(1), of i j] sorted_wrt_nth_less [OF assms(1), of j i] ij by simp_all
  ultimately show ?thesis using ranges_apart_sym by blast
qed

lemma pool_chunks_apart:
  assumes "pool_inv mp F A C" "c \<in> set C" "d \<in> set C" "c \<noteq> d"
  shows "ranges_apart (fst c, chunk_bytes (mp_objSize mp) (snd c)) (fst d, chunk_bytes (mp_objSize mp) (snd d))"
proof -
  have "sorted_wrt ranges_apart (map (\<lambda>c. (fst c, chunk_bytes (mp_objSize mp) (snd c))) C)"
    using assms(1) unfolding pool_inv_def by blast
  from sorted_wrt_apart [OF this assms(2-4)] show ?thesis .
qed

lemma pool_blocks_apart:
  assumes inv: "pool_inv mp F A C"
    and "x \<in> pool_blocks (mp_objSize mp) C" "y \<in> pool_blocks (mp_objSize mp) C" "x \<noteq> y"
  shows "x + mp_objSize mp \<le> y \<or> y + mp_objSize mp \<le> x"
proof -
  obtain c d where cd: "c \<in> set C" "x \<in> set (chunk_blocks (mp_objSize mp) c)"
      "d \<in> set C" "y \<in> set (chunk_blocks (mp_objSize mp) d)"
    using assms by (auto simp: pool_blocks_def)
  show ?thesis
  proof (cases "c = d")
    case True
    then show ?thesis using chunk_blocks_apart cd assms(4) by blast
  next
    case False
    from pool_chunks_apart [OF inv cd(1,3) False] show ?thesis
      using chunk_block_bounds [OF cd(2)] chunk_block_bounds [OF cd(4)]
      by (auto simp: ranges_apart_def)
  qed
qed

lemma pool_block_header:
  assumes inv: "pool_inv mp F A C"
    and "x \<in> pool_blocks (mp_objSize mp) C" "d \<in> set C"
  shows "x + mp_objSize mp \<le> fst d \<or> fst d + node_size \<le> x"
proof -
  obtain c where c: "c \<in> set C" "x \<in> set (chunk_blocks (mp_objSize mp) c)"
    using assms by (auto simp: pool_blocks_def)
  show ?thesis
    using pool_chunks_apart [OF inv c(1) assms(3)] chunk_block_bounds [OF c(2)]
    by (cases "c = d") (auto simp: ranges_apart_def chunk_bytes_def)
qed

lemma pool_block_nonzero: "x \<in> pool_blocks (mp_objSize mp) C \<Longrightarrow> x \<noteq> 0"
  by (auto simp: pool_blocks_def chunk_blocks_def node_size_def)

lemma pool_sets:
  assumes inv: "pool_inv mp F A C"
  shows "set F \<subseteq> pool_blocks (mp_objSize mp) C" "A \<subseteq> pool_blocks (mp_objSize mp) C"
  using inv by (auto simp: pool_inv_def)

section \<open>The operations\<close>

lemma map_upt_shift:
  "map (\<lambda>i. p + i * sz) [0..<Suc k] = p # map (\<lambda>i. (p + sz) + i * sz) [0..<k]"
  for p :: nat
  by (subst upt_conv_Cons, simp) (simp add: map_Suc_upt [symmetric] ac_simps del: upt_Suc)

lemma carve_frame:
  "mp_objSize (carve k p mp) = mp_objSize mp \<and> mp_mallocs (carve k p mp) = mp_mallocs mp \<and>
   mp_mallocListHead (carve k p mp) = mp_mallocListHead mp \<and>
   mp_mallocTimes (carve k p mp) = mp_mallocTimes mp"
  by (induction k arbitrary: p mp) simp_all

lemma carve_chain:
  "0 < p \<Longrightarrow> 0 < mp_objSize mp \<Longrightarrow> chain (mp_next mp) (mp_freeListHead mp) F \<Longrightarrow>
   set F \<inter> set (map (\<lambda>i. p + i * mp_objSize mp) [0..<k]) = {} \<Longrightarrow>
   chain (mp_next (carve k p mp)) (mp_freeListHead (carve k p mp))
     (rev (map (\<lambda>i. p + i * mp_objSize mp) [0..<k]) @ F) \<and>
   (\<forall>a. a \<notin> set (map (\<lambda>i. p + i * mp_objSize mp) [0..<k]) \<longrightarrow>
      mp_next (carve k p mp) a = mp_next mp a)"
proof (induction k arbitrary: p mp F)
  case 0
  then show ?case by simp
next
  case (Suc k)
  let ?sz = "mp_objSize mp"
  let ?mp = "mp\<lparr>mp_next := (mp_next mp)(p := mp_freeListHead mp), mp_freeListHead := p\<rparr>"
  let ?B = "map (\<lambda>i. (p + ?sz) + i * ?sz) [0..<k]"
  note B = map_upt_shift [of p ?sz k]
  have p: "p \<notin> set F" "set F \<inter> set ?B = {}" using Suc.prems(4) unfolding B by auto
  have "p \<notin> set ?B" using Suc.prems(2) by auto
  then have d: "set (p # F) \<inter> set ?B = {}" using p by auto
  have "chain (mp_next ?mp) (mp_freeListHead ?mp) (p # F)"
    using Suc.prems p by (simp add: chain_upd)
  from Suc.IH [OF _ _ this, of "p + ?sz"] d Suc.prems(1,2)
  have "chain (mp_next (carve k (p + ?sz) ?mp)) (mp_freeListHead (carve k (p + ?sz) ?mp))
      (rev ?B @ p # F)"
    "\<forall>a. a \<notin> set ?B \<longrightarrow> mp_next (carve k (p + ?sz) ?mp) a = mp_next ?mp a"
    by simp_all
  then show ?case unfolding B by simp
qed

text \<open>Getting a chunk: the free list was empty and gets the blocks of the chunk.\<close>

definition grow :: "address \<Rightarrow> mempool \<Rightarrow> mempool" where
  "grow base mp =
     (let mallocCnt = memPoolMallocObjCnt + mp_mallocTimes mp;
          mp = mp\<lparr>mp_mallocs := (base, mallocCnt * mp_objSize mp + node_size) # mp_mallocs mp,
                  mp_next := (mp_next mp)(base := mp_mallocListHead mp),
                  mp_mallocListHead := base\<rparr>;
          mp = carve mallocCnt (base + node_size) mp
      in mp\<lparr>mp_mallocTimes := mp_mallocTimes mp + 1\<rparr>)"

lemma pool_blocks_Cons:
  "pool_blocks sz (c # C) = set (chunk_blocks sz c) \<union> pool_blocks sz C"
  by (simp add: pool_blocks_def)

lemma new_chunk_apart:
  assumes inv: "pool_inv mp [] A C" and m: "malloc_ok base mp"
    and k: "k = memPoolMallocObjCnt + mp_mallocTimes mp" and d: "d \<in> set C"
  shows "ranges_apart (base, chunk_bytes (mp_objSize mp) k) (fst d, chunk_bytes (mp_objSize mp) (snd d))"
proof -
  have "mp_mallocs mp = map (\<lambda>c. (fst c, chunk_bytes (mp_objSize mp) (snd c))) C"
    using inv unfolding pool_inv_def by blast
  then have "(fst d, chunk_bytes (mp_objSize mp) (snd d)) \<in> set (mp_mallocs mp)" using d by auto
  moreover have "mp_freeListHead mp = 0" using inv by (simp add: pool_inv_def)
  ultimately show ?thesis using m k by (simp add: malloc_ok_def)
qed

lemma new_chunk_disjoint:
  assumes inv: "pool_inv mp [] A C" and m: "malloc_ok base mp"
    and k: "k = memPoolMallocObjCnt + mp_mallocTimes mp"
  shows "set (chunk_blocks (mp_objSize mp) (base, k)) \<inter> pool_blocks (mp_objSize mp) C = {}"
    and "base \<notin> fst ` set C"
    and "set (chunk_blocks (mp_objSize mp) (base, k)) \<inter> fst ` set C = {}"
proof -
  let ?sz = "mp_objSize mp"
  have sz: "0 < ?sz" using inv by (simp add: pool_inv_def node_size_def)
  have no: False if x: "x \<in> set (chunk_blocks ?sz (base, k))" and d: "d \<in> set C"
    and y: "y = fst d \<or> y \<in> set (chunk_blocks ?sz d)" and e: "x = y" for x y d
  proof -
    have "fst d \<le> y" "y < fst d + chunk_bytes ?sz (snd d)"
      using y chunk_block_bounds [of y ?sz d] sz by (auto simp: chunk_bytes_def node_size_def)
    with chunk_block_bounds [OF x] new_chunk_apart [OF inv m k d] sz e show False
      by (auto simp: ranges_apart_def node_size_def)
  qed
  show "set (chunk_blocks ?sz (base, k)) \<inter> pool_blocks ?sz C = {}"
    using no by (fastforce simp: pool_blocks_def)
  show "set (chunk_blocks ?sz (base, k)) \<inter> fst ` set C = {}" using no by fastforce
  show "base \<notin> fst ` set C"
    using new_chunk_apart [OF inv m k] by (force simp: ranges_apart_def chunk_bytes_def node_size_def)
qed

lemma grow_inv:
  assumes inv: "pool_inv mp [] A C" and m: "malloc_ok base mp"
  defines "k \<equiv> memPoolMallocObjCnt + mp_mallocTimes mp"
  shows "pool_inv (grow base mp) (rev (chunk_blocks (mp_objSize mp) (base, k))) A ((base, k) # C)"
    and "mp_objSize (grow base mp) = mp_objSize mp"
proof -
  let ?sz = "mp_objSize mp" and ?B = "chunk_blocks (mp_objSize mp) (base, k)"
  have k: "k = memPoolMallocObjCnt + mp_mallocTimes mp" by (simp add: k_def)
  note dis = new_chunk_disjoint [OF inv m k]
  define mp1 where "mp1 = mp\<lparr>mp_mallocs := (base, k * ?sz + node_size) # mp_mallocs mp,
                  mp_next := (mp_next mp)(base := mp_mallocListHead mp), mp_mallocListHead := base\<rparr>"
  have g: "grow base mp = (carve k (base + node_size) mp1)\<lparr>mp_mallocTimes := mp_mallocTimes mp + 1\<rparr>"
    using carve_frame [of k "base + node_size" mp1] by (simp add: grow_def mp1_def k_def Let_def)
  have B: "?B = map (\<lambda>i. (base + node_size) + i * ?sz) [0..<k]" by (simp add: chunk_blocks_def)
  note D = pool_invD [OF inv]
  have sz: "0 < ?sz" using D(1) by (simp add: node_size_def)
  have "chain (mp_next mp1) (mp_freeListHead mp1) []" using D(2) by (simp add: mp1_def)
  from carve_chain [OF _ _ this, of "base + node_size" k] sz
  have c: "chain (mp_next (carve k (base + node_size) mp1))
      (mp_freeListHead (carve k (base + node_size) mp1)) (rev ?B)"
    "\<forall>a. a \<notin> set ?B \<longrightarrow> mp_next (carve k (base + node_size) mp1) a = mp_next mp1 a"
    unfolding B by (simp_all add: mp1_def node_size_def)
  have nb: "base \<notin> set ?B" by (auto simp: chunk_blocks_def node_size_def)
  have "chain (mp_next mp1) base (map fst ((base, k) # C))"
    using m D(2,4) dis(2) by (simp add: malloc_ok_def mp1_def chain_upd)
  moreover have "\<forall>x \<in> set (map fst ((base, k) # C)). mp_next (carve k (base + node_size) mp1) x = mp_next mp1 x"
  proof
    fix x assume "x \<in> set (map fst ((base, k) # C))"
    then have "x \<notin> set ?B" using nb dis(3) by auto
    then show "mp_next (carve k (base + node_size) mp1) x = mp_next mp1 x" using c(2) by blast
  qed
  ultimately have l: "chain (mp_next (carve k (base + node_size) mp1)) base (map fst ((base, k) # C))"
    by (rule chain_agree)
  have s: "sorted_wrt ranges_apart (map (\<lambda>c. (fst c, chunk_bytes ?sz (snd c))) ((base, k) # C))"
    using D(6) new_chunk_apart [OF inv m k] by auto
  have t: "map snd ((base, k) # C) = rev [memPoolMallocObjCnt..<memPoolMallocObjCnt + (mp_mallocTimes mp + 1)]"
    using D(7) by (simp add: k_def)
  have A: "A = pool_blocks ?sz C" using D(9) by simp
  have f: "mp_objSize (grow base mp) = ?sz" "mp_mallocListHead (grow base mp) = base"
    "mp_mallocTimes (grow base mp) = mp_mallocTimes mp + 1"
    "mp_mallocs (grow base mp) = (base, chunk_bytes ?sz k) # mp_mallocs mp"
    "mp_next (grow base mp) = mp_next (carve k (base + node_size) mp1)"
    "mp_freeListHead (grow base mp) = mp_freeListHead (carve k (base + node_size) mp1)"
    by (simp_all add: g carve_frame mp1_def chunk_bytes_def)
  show "pool_inv (grow base mp) (rev ?B) A ((base, k) # C)"
    unfolding pool_inv_def f
  proof (intro conjI)
    show "set (rev ?B) \<inter> A = {}" using dis(1) by (simp add: A)
    show "set (rev ?B) \<union> A = pool_blocks ?sz ((base, k) # C)" by (simp add: A pool_blocks_Cons)
    show "(base, chunk_bytes ?sz k) # mp_mallocs mp =
        map (\<lambda>c. (fst c, chunk_bytes ?sz (snd c))) ((base, k) # C)" using D(5) by simp
  qed (use D(1) c(1) l s t distinct_chunk_blocks [OF sz] in simp_all)
  show "mp_objSize (grow base mp) = ?sz" by (simp add: g carve_frame mp1_def)
qed

lemma Alloc_grow:
  "mp_freeListHead mp = 0 \<Longrightarrow> base \<noteq> 0 \<Longrightarrow> AllocAMemBlock base mp =
     (let ret = mp_freeListHead (grow base mp) in if ret = 0 then Inl NullDeref
      else Inr ((grow base mp)\<lparr>mp_freeListHead := mp_next (grow base mp) ret\<rparr>, ret))"
  by (simp add: AllocAMemBlock_def grow_def Let_def)

lemma pop_inv:
  assumes inv: "pool_inv mp (r # F) A C"
  shows "pool_inv (mp\<lparr>mp_freeListHead := mp_next mp r\<rparr>) F (insert r A) C"
    and "mp_freeListHead mp = r" "r \<noteq> 0" "r \<notin> A"
    and "\<forall>a \<in> A. r + mp_objSize mp \<le> a \<or> a + mp_objSize mp \<le> r"
proof -
  show i: "pool_inv (mp\<lparr>mp_freeListHead := mp_next mp r\<rparr>) F (insert r A) C"
    and "mp_freeListHead mp = r" "r \<noteq> 0" "r \<notin> A"
    using inv by (auto simp: pool_inv_def)
  then show "\<forall>a \<in> A. r + mp_objSize mp \<le> a \<or> a + mp_objSize mp \<le> r"
    using pool_blocks_apart [OF inv, of r] pool_sets [OF inv] by fastforce
qed

lemma Alloc_run:
  assumes ok: "pool_ok mp A" and m: "malloc_ok base mp"
  shows "\<exists>mp' r. AllocAMemBlock base mp = Inr (mp', r) \<and> pool_ok mp' (insert r A) \<and>
    r \<noteq> 0 \<and> r \<notin> A \<and> mp_objSize mp' = mp_objSize mp \<and>
    (\<forall>a \<in> A. r + mp_objSize mp \<le> a \<or> a + mp_objSize mp \<le> r)"
proof -
  obtain F C where inv: "pool_inv mp F A C" using ok by (auto simp: pool_ok_def)
  obtain mp1 r F' C' where i1: "pool_inv mp1 (r # F') A C'" and sz: "mp_objSize mp1 = mp_objSize mp"
    and run: "AllocAMemBlock base mp =
      (let ret = mp_freeListHead mp1 in if ret = 0 then Inl NullDeref
       else Inr (mp1\<lparr>mp_freeListHead := mp_next mp1 ret\<rparr>, ret))"
  proof (cases F)
    case (Cons x F')
    then show ?thesis
      using that [of mp x F' C] inv by (simp add: AllocAMemBlock_def pool_inv_def)
  next
    case Nil
    let ?B = "chunk_blocks (mp_objSize mp) (base, memPoolMallocObjCnt + mp_mallocTimes mp)"
    have "?B \<noteq> []" by (simp add: chunk_blocks_def memPoolMallocObjCnt_def)
    then obtain x F' where x: "rev ?B = x # F'" by (cases "rev ?B") auto
    have "mp_freeListHead mp = 0" "base \<noteq> 0"
      using inv m Nil by (simp_all add: pool_inv_def malloc_ok_def)
    then show ?thesis
      using that [OF grow_inv(1) [OF _ m, of A C, unfolded x]] grow_inv(2) [OF _ m] inv Nil
        Alloc_grow [of mp base] by simp
  qed
  show ?thesis
    unfolding run using pop_inv [OF i1] sz by (auto simp: pool_ok_def Let_def)
qed

lemma Free_run:
  assumes ok: "pool_ok mp A" and r: "r \<in> A"
  shows "pool_ok (FreeAMemBlock r mp) (A - {r})" "r \<noteq> 0"
proof -
  obtain F C where inv: "pool_inv mp F A C" using ok by (auto simp: pool_ok_def)
  have b: "r \<in> pool_blocks (mp_objSize mp) C" using pool_sets [OF inv] r by blast
  show nz: "r \<noteq> 0" using pool_block_nonzero [OF b] .
  note D = pool_invD [OF inv]
  have nF: "r \<notin> set F" using D(8) r by auto
  moreover have "r \<notin> set (map fst C)"
  proof
    assume "r \<in> set (map fst C)"
    then obtain d where "d \<in> set C" "r = fst d" by auto
    with pool_block_header [OF inv b, of d] D(1) show False by (simp add: node_size_def)
  qed
  ultimately have c: "chain ((mp_next mp)(r := mp_freeListHead mp)) r (r # F)"
    "chain ((mp_next mp)(r := mp_freeListHead mp)) (mp_mallocListHead mp) (map fst C)"
    using D(2,4) nz by (simp_all add: chain_upd)
  have f: "FreeAMemBlock r mp =
      mp\<lparr>mp_next := (mp_next mp)(r := mp_freeListHead mp), mp_freeListHead := r\<rparr>"
    using nz by (simp add: FreeAMemBlock_def)
  have "pool_inv (FreeAMemBlock r mp) (r # F) (A - {r}) C"
    unfolding pool_inv_def f
  proof (intro conjI)
    show "set (r # F) \<union> (A - {r}) = pool_blocks (mp_objSize (mp\<lparr>mp_next := (mp_next mp)
        (r := mp_freeListHead mp), mp_freeListHead := r\<rparr>)) C" using D(9) r by auto
    show "distinct (r # F)" using D(3) nF by simp
  qed (use c D(1,5-8) in auto)
  then show "pool_ok (FreeAMemBlock r mp) (A - {r})" by (auto simp: pool_ok_def)
qed

text \<open>What the owner of a block may do to memory: change words that overlap the block.\<close>

definition writes_in :: "address \<Rightarrow> mempool \<Rightarrow> (address \<Rightarrow> address) \<Rightarrow> bool" where
  "writes_in r mp nx \<longleftrightarrow>
     (\<forall>a. a + node_size \<le> r \<or> r + mp_objSize mp \<le> a \<longrightarrow> nx a = mp_next mp a)"

lemma write_run:
  assumes ok: "pool_ok mp A" and r: "r \<in> A" and w: "writes_in r mp nx"
  shows "pool_ok (mp\<lparr>mp_next := nx\<rparr>) A"
proof -
  obtain F C where inv: "pool_inv mp F A C" using ok by (auto simp: pool_ok_def)
  have b: "r \<in> pool_blocks (mp_objSize mp) C" using pool_sets [OF inv] r by blast
  have sz: "node_size \<le> mp_objSize mp" using inv by (simp add: pool_inv_def)
  have "\<forall>x \<in> set F. nx x = mp_next mp x"
  proof
    fix x assume x: "x \<in> set F"
    have "x \<noteq> r" using inv r x by (auto simp: pool_inv_def)
    then show "nx x = mp_next mp x"
      using pool_blocks_apart [OF inv b, of x] pool_sets(1) [OF inv] x w sz
      by (fastforce simp: writes_in_def)
  qed
  moreover have "\<forall>x \<in> set (map fst C). nx x = mp_next mp x"
    using pool_block_header [OF inv b] w by (auto simp: writes_in_def)
  ultimately have "chain nx (mp_freeListHead mp) F" "chain nx (mp_mallocListHead mp) (map fst C)"
    using pool_invD(2,4) [OF inv] by (blast intro: chain_agree)+
  then have "pool_inv (mp\<lparr>mp_next := nx\<rparr>) F A C"
    using inv by (simp add: pool_inv_def)
  then show ?thesis by (auto simp: pool_ok_def)
qed

lemma destroy_run:
  "chain (mp_next mp) (mp_mallocListHead mp) (map fst cs) \<Longrightarrow> mp_mallocs mp = cs \<Longrightarrow>
   distinct (map fst cs) \<Longrightarrow> \<exists>mp'. mempool_destroy mp = Inr mp' \<and> mp_mallocs mp' = []"
proof (induction cs arbitrary: mp)
  case Nil
  then show ?case by (simp add: mempool_destroy.simps)
next
  case (Cons c cs)
  have "filter (\<lambda>d. fst d \<noteq> fst c) cs = cs"
    using Cons.prems(3) by (intro filter_True) (auto simp del: in_set_conv_decomp intro: rev_image_eqI)
  with Cons.IH [of "mp\<lparr>mp_mallocListHead := mp_next mp (fst c), mp_mallocs := cs\<rparr>"] Cons.prems
  show ?case by (subst mempool_destroy.simps) (simp add: free_chunk_def Let_def)
qed

lemma pool_ok_destroy:
  assumes "pool_ok mp A"
  shows "\<exists>mp'. mempool_destroy mp = Inr mp' \<and> mp_mallocs mp' = []"
proof -
  obtain F C where inv: "pool_inv mp F A C" using assms by (auto simp: pool_ok_def)
  note D = pool_invD [OF inv]
  have "sorted_wrt (\<noteq>) (map fst C)"
    using D(6) unfolding sorted_wrt_map
    by (rule sorted_wrt_mono_rel [rotated]) (auto simp: ranges_apart_def chunk_bytes_def node_size_def)
  moreover have "sorted_wrt (\<noteq>) xs \<Longrightarrow> distinct xs" for xs :: "address list" by (induction xs) auto
  ultimately have "distinct (map fst C)" by blast
  then show ?thesis
    using destroy_run [of mp "mp_mallocs mp"] D(4,5) by (simp add: comp_def)
qed

lemma pool_ok_apart:
  assumes "pool_ok mp A" "x \<in> A" "y \<in> A" "x \<noteq> y"
  shows "x + mp_objSize mp \<le> y \<or> y + mp_objSize mp \<le> x" "x \<noteq> 0"
proof -
  obtain F C where inv: "pool_inv mp F A C" using assms(1) by (auto simp: pool_ok_def)
  have "x \<in> pool_blocks (mp_objSize mp) C" "y \<in> pool_blocks (mp_objSize mp) C"
    using pool_sets [OF inv] assms by auto
  with pool_blocks_apart [OF inv] pool_block_nonzero assms(4)
  show "x + mp_objSize mp \<le> y \<or> y + mp_objSize mp \<le> x" "x \<noteq> 0" by blast+
qed

section \<open>The contract of an object pool\<close>

text \<open>
  What the processor uses: a new object has an address of its own, the others stay, an object
  can change in place and is there until it is deleted. \<open>ready base p\<close> says that \<open>malloc\<close>,
  if it is called, returns the unused range at \<open>base\<close>.
\<close>

locale object_pool =
  fixes inv :: "'p \<Rightarrow> bool"
    and objs :: "'p \<Rightarrow> (address \<rightharpoonup> 'a)"
    and ready :: "address \<Rightarrow> 'p \<Rightarrow> bool"
    and new :: "address \<Rightarrow> 'a \<Rightarrow> 'p \<Rightarrow> ('p \<times> address) res"
    and put :: "address \<Rightarrow> 'a \<Rightarrow> 'p \<Rightarrow> 'p"
    and delete :: "address \<Rightarrow> 'p \<Rightarrow> 'p res"
  assumes new_ok: "inv p \<Longrightarrow> ready base p \<Longrightarrow>
      \<exists>p' r. new base x p = Inr (p', r) \<and> inv p' \<and> r \<noteq> 0 \<and> objs p r = None \<and> objs p' = (objs p)(r \<mapsto> x)"
    and put_ok: "inv p \<Longrightarrow> objs p r \<noteq> None \<Longrightarrow> inv (put r x p) \<and> objs (put r x p) = (objs p)(r \<mapsto> x)"
    and delete_ok: "inv p \<Longrightarrow> objs p r \<noteq> None \<Longrightarrow>
      \<exists>p'. delete r p = Inr p' \<and> inv p' \<and> objs p' = (objs p)(r := None)"
begin

lemma new_resE:
  assumes "inv p" "ready base p" "new base x p = Inr (p', r)"
  obtains "inv p'" "r \<noteq> 0" "objs p r = None" "objs p' = (objs p)(r \<mapsto> x)"
  using new_ok [OF assms(1,2), of x] assms(3) by auto

lemma new_runs: "inv p \<Longrightarrow> ready base p \<Longrightarrow> \<exists>p' r. new base x p = Inr (p', r)"
  using new_ok by blast

lemma put_dom: "inv p \<Longrightarrow> objs p r \<noteq> None \<Longrightarrow> dom (objs (put r x p)) = dom (objs p)"
  using put_ok [of p r x] by auto

lemma delete_resE:
  assumes "inv p" "objs p r \<noteq> None" "delete r p = Inr p'"
  obtains "inv p'" "objs p' = (objs p)(r := None)"
  using delete_ok [OF assms(1,2)] assms(3) by auto

text \<open>Deleting a list of distinct objects.\<close>

fun delete_all :: "address list \<Rightarrow> 'p \<Rightarrow> 'p res" where
  "delete_all [] p = Inr p"
| "delete_all (r # rs) p = ubind (delete r p) (delete_all rs)"

lemma delete_all_ok:
  "inv p \<Longrightarrow> set rs \<subseteq> dom (objs p) \<Longrightarrow> distinct rs \<Longrightarrow>
   \<exists>p'. delete_all rs p = Inr p' \<and> inv p' \<and> dom (objs p') = dom (objs p) - set rs"
proof (induction rs arbitrary: p)
  case Nil
  then show ?case by simp
next
  case (Cons r rs)
  from Cons.prems have "objs p r \<noteq> None" by auto
  from delete_ok [OF Cons.prems(1) this] obtain p1 where
    p1: "delete r p = Inr p1" "inv p1" "objs p1 = (objs p)(r := None)" by blast
  have d: "dom (objs p1) = dom (objs p) - {r}" using p1(3) by auto
  then have "set rs \<subseteq> dom (objs p1)" "distinct rs" using Cons.prems(2,3) by auto
  from Cons.IH [OF p1(2) this] p1(1) d show ?case by auto
qed

end

text \<open>\<open>ObjPool\<close> of a class with a constructor and a destructor keeps the contract.\<close>

definition obj_pool_ok :: "'a obj_pool \<Rightarrow> bool" where
  "obj_pool_ok p \<longleftrightarrow> pool_ok (op_memPool p) (dom (op_objs p))"

definition obj_put :: "address \<Rightarrow> 'a \<Rightarrow> 'a obj_pool \<Rightarrow> 'a obj_pool" where
  "obj_put r x p = p\<lparr>op_objs := (op_objs p)(r \<mapsto> x)\<rparr>"

lemma obj_pool_ok_new [simp]: "obj_pool_ok (obj_pool_new n)"
  by (simp add: obj_pool_ok_def obj_pool_new_def pool_ok_new)

interpretation opool: object_pool obj_pool_ok op_objs "\<lambda>base p. malloc_ok base (op_memPool p)"
  "new_obj False" obj_put "delete_obj False"
proof
  fix p :: "'a obj_pool" and base x
  assume "obj_pool_ok p" "malloc_ok base (op_memPool p)"
  from Alloc_run [OF this [unfolded obj_pool_ok_def]]
  show "\<exists>p' r. new_obj False base x p = Inr (p', r) \<and> obj_pool_ok p' \<and> r \<noteq> 0 \<and>
      op_objs p r = None \<and> op_objs p' = (op_objs p)(r \<mapsto> x)"
    by (auto simp: new_obj_def new_aux_def obj_pool_ok_def domIff)
next
  fix p :: "'a obj_pool" and r x
  assume "obj_pool_ok p" "op_objs p r \<noteq> None"
  moreover from this have "insert r (dom (op_objs p)) = dom (op_objs p)" by auto
  ultimately show "obj_pool_ok (obj_put r x p) \<and> op_objs (obj_put r x p) = (op_objs p)(r \<mapsto> x)"
    by (simp add: obj_pool_ok_def obj_put_def)
next
  fix p :: "'a obj_pool" and r
  assume a: "obj_pool_ok p" "op_objs p r \<noteq> None"
  then have r: "r \<in> dom (op_objs p)" by auto
  let ?p = "p\<lparr>op_objs := (op_objs p)(r := None), op_memPool := FreeAMemBlock r (op_memPool p)\<rparr>"
  note f = Free_run [OF a(1) [unfolded obj_pool_ok_def] r]
  have "delete_obj False r p = Inr ?p" using f(2) a(2) by (simp add: delete_obj_def delete_aux_def)
  moreover have "obj_pool_ok ?p" using f(1) by (simp add: obj_pool_ok_def)
  ultimately show
    "\<exists>p'. delete_obj False r p = Inr p' \<and> obj_pool_ok p' \<and> op_objs p' = (op_objs p)(r := None)"
    by auto
qed

section \<open>Properties\<close>

text \<open>Everything the owner of a pool can do with it: allocate, free and write to its blocks.\<close>

inductive pool_reach :: "nat \<Rightarrow> mempool \<Rightarrow> address set \<Rightarrow> bool" for n where
  start: "pool_reach n (mempool_new n) {}"
| alloc: "pool_reach n mp A \<Longrightarrow> malloc_ok base mp \<Longrightarrow> AllocAMemBlock base mp = Inr (mp', r) \<Longrightarrow>
    pool_reach n mp' (insert r A)"
| free: "pool_reach n mp A \<Longrightarrow> r \<in> A \<Longrightarrow> pool_reach n (FreeAMemBlock r mp) (A - {r})"
| owner_write: "pool_reach n mp A \<Longrightarrow> r \<in> A \<Longrightarrow> writes_in r mp nx \<Longrightarrow> pool_reach n (mp\<lparr>mp_next := nx\<rparr>) A"

lemma pool_reach_ok: "pool_reach n mp A \<Longrightarrow> pool_ok mp A \<and> n \<le> mp_objSize mp"
proof (induction rule: pool_reach.induct)
  case start
  show ?case by (simp add: pool_ok_new) (simp add: mempool_new_def)
next
  case (alloc mp A base mp' r)
  then show ?case using Alloc_run [of mp A base] by auto
next
  case (free mp A r)
  then show ?case using Free_run(1) [of mp A r] by (simp add: FreeAMemBlock_def)
next
  case (owner_write mp A r nx)
  then show ?case using write_run by auto
qed

text \<open>
  C11: the memory pool hands out blocks that never overlap, whatever its client allocates,
  frees and writes into its blocks: any two blocks in use are at least the object size apart,
  an allocation always returns a block that is not in use, given that \<open>malloc\<close> returns
  unused memory, and the destructor gives every chunk back to \<open>free\<close> exactly once.
\<close>

theorem pool_blocks_disjoint:
  assumes "pool_reach n mp A"
  shows "(\<forall>x \<in> A. \<forall>y \<in> A. x \<noteq> y \<longrightarrow> x + n \<le> y \<or> y + n \<le> x) \<and>
    (\<forall>base. malloc_ok base mp \<longrightarrow>
       (\<exists>mp' r. AllocAMemBlock base mp = Inr (mp', r) \<and> r \<noteq> 0 \<and> r \<notin> A)) \<and>
    (\<exists>mp'. mempool_destroy mp = Inr mp' \<and> mp_mallocs mp' = [])"
proof -
  from pool_reach_ok [OF assms] have ok: "pool_ok mp A" and n: "n \<le> mp_objSize mp" by auto
  have "x + n \<le> y \<or> y + n \<le> x" if "x \<in> A" "y \<in> A" "x \<noteq> y" for x y
    using pool_ok_apart(1) [OF ok that] n by linarith
  with Alloc_run [OF ok] pool_ok_destroy [OF ok] show ?thesis by blast
qed

lemma pool_blocks_disjoint_witness:
  "\<exists>mp r. pool_reach 16 mp {r} \<and> (\<exists>mp'. mempool_destroy mp = Inr mp' \<and> mp_mallocs mp' = [])"
proof -
  have m: "malloc_ok 1000 (mempool_new 16)" by (simp add: malloc_ok_def mempool_new_def)
  from Alloc_run [OF pool_ok_new m] obtain mp r where "AllocAMemBlock 1000 (mempool_new 16) = Inr (mp, r)"
    by auto
  from pool_reach.alloc [OF pool_reach.start m this] have r: "pool_reach 16 mp {r}" .
  from pool_blocks_disjoint [OF this] r show ?thesis by blast
qed

end
