(* ===== verification/Coroutine.thy ===== *)
theory Coroutine
  imports Epoller MemPool
begin

text \<open>
  \<open>Context\<close> and \<open>Coroutine\<close> (\<open>src/context.cc\<close>, \<open>src/coroutine.cc\<close> and their headers).

  What a coroutine does is its own code; to the runtime it is the sequence of calls it makes
  into the processor. \<open>co_act\<close> is one such call, and the code of a coroutine is a list of them.
  A saved machine context is the rest of the code still to run: \<open>makecontext\<close> sets it to the
  whole function, \<open>swapcontext\<close> out of the coroutine saves what is left, and \<open>swapcontext\<close> into
  it continues there. The function of \<open>makecontext\<close> is \<open>coWrapFunc\<close>, which runs the coroutine's
  function and then \<open>killCurCo\<close>; when the list is empty, that is what runs.
\<close>

section \<open>Code and contexts\<close>

datatype co_act =
    YieldA                          \<comment> \<open>\<open>Processor::yield\<close>\<close>
  | WaitA ms_time                   \<comment> \<open>\<open>Processor::wait\<close>, of \<open>co_sleep\<close>\<close>
  | BlockedYieldA                   \<comment> \<open>\<open>Processor::blocked_yield\<close>\<close>
  | WaitEventA int int              \<comment> \<open>\<open>Processor::waitEvent(fd, ev)\<close>\<close>
  | RemoveEventA int int            \<comment> \<open>the rest of \<open>waitEvent\<close>, after its \<open>yield\<close>\<close>
  | GoNewA nat "co_act list"        \<comment> \<open>\<open>goNewCo\<close> on the own processor, with a stack size\<close>

record ucontext =
  uc_ss_size :: nat
  uc_code :: "co_act list"

record co_context =
  ctx :: "ucontext option"
  pStack :: "nat option"            \<comment> \<open>bytes of the allocated stack\<close>
  stackSize :: nat

definition coroutineStackSize :: nat where
  "coroutineStackSize = 128 * 1024"

definition context_new :: "nat \<Rightarrow> co_context" where
  "context_new n = \<lparr>ctx = None, pStack = None, stackSize = n\<rparr>"

definition makeContext :: "co_act list \<Rightarrow> co_context \<Rightarrow> co_context" where
  "makeContext code c =
     (let c = (if pStack c = None then c\<lparr>pStack := Some (stackSize c)\<rparr> else c)
      in c\<lparr>ctx := Some \<lparr>uc_ss_size = coroutineStackSize, uc_code = code\<rparr>\<rparr>)"

text \<open>The part of \<open>swapcontext\<close> that saves a context: the rest of the code that is left.\<close>

definition save_context :: "co_act list \<Rightarrow> co_context \<Rightarrow> co_context" where
  "save_context code c =
     c\<lparr>ctx := Some \<lparr>uc_ss_size = (case ctx c of None \<Rightarrow> 0 | Some u \<Rightarrow> uc_ss_size u), uc_code = code\<rparr>\<rparr>"

section \<open>Coroutines\<close>

datatype co_status = CO_READY | CO_RUNNING | CO_WAITING | CO_DEAD

record coroutine =
  coId :: int
  coFunc :: "co_act list"
  co_status :: co_status
  co_ctx :: co_context

definition coroutine_new :: "nat \<Rightarrow> co_act list \<Rightarrow> int \<Rightarrow> coroutine" where
  "coroutine_new stack func idCounter =
     (let c = \<lparr>coId = idCounter, coFunc = func, co_status = CO_DEAD, co_ctx = context_new stack\<rparr>
      in c\<lparr>co_status := CO_READY\<rparr>)"

text \<open>\<open>resume\<close>: the coroutine and the code it goes on with, if it is switched to.\<close>

definition co_resume :: "coroutine \<Rightarrow> (coroutine \<times> co_act list option) res" where
  "co_resume c =
     (case co_status c of
        CO_READY \<Rightarrow>
          let c = c\<lparr>co_status := CO_RUNNING\<rparr>; c = c\<lparr>co_ctx := makeContext (coFunc c) (co_ctx c)\<rparr>
          in ubind (of_opt NullDeref (ctx (co_ctx c))) (\<lambda>u. Inr (c, Some (uc_code u)))
      | CO_WAITING \<Rightarrow>
          let c = c\<lparr>co_status := CO_RUNNING\<rparr>
          in ubind (of_opt NullDeref (ctx (co_ctx c))) (\<lambda>u. Inr (c, Some (uc_code u)))
      | _ \<Rightarrow> Inr (c, None))"

definition co_yield :: "coroutine \<Rightarrow> coroutine" where
  "co_yield c = c\<lparr>co_status := CO_WAITING\<rparr>"

section \<open>Lemmas\<close>

lemma coroutine_new_simps [simp]:
  "co_status (coroutine_new n f i) = CO_READY" "coFunc (coroutine_new n f i) = f"
  "co_ctx (coroutine_new n f i) = context_new n"
  by (simp_all add: coroutine_new_def)

lemma co_resume_ready: "co_status c = CO_READY \<Longrightarrow>
  \<exists>c'. co_resume c = Inr (c', Some (coFunc c)) \<and> co_status c' = CO_RUNNING"
  by (simp add: co_resume_def makeContext_def Let_def)

lemma co_resume_waiting: "co_status c = CO_WAITING \<Longrightarrow> ctx (co_ctx c) = Some u \<Longrightarrow>
  co_resume c = Inr (c\<lparr>co_status := CO_RUNNING\<rparr>, Some (uc_code u))"
  by (simp add: co_resume_def Let_def)

lemma co_resume_other: "co_status c = CO_RUNNING \<or> co_status c = CO_DEAD \<Longrightarrow> co_resume c = Inr (c, None)"
  by (auto simp: co_resume_def)

text \<open>Running until a switch and going on later is running the code in order: nothing is lost.\<close>

lemma resume_after_save:
  "co_resume (c\<lparr>co_status := CO_WAITING, co_ctx := save_context code (co_ctx c)\<rparr>) =
     Inr (c\<lparr>co_status := CO_RUNNING, co_ctx := save_context code (co_ctx c)\<rparr>, Some code)"
  by (simp add: co_resume_def save_context_def Let_def)

text \<open>
  The size a context declares for its stack is always the default one, whatever was allocated:
  a coroutine with a smaller stack runs on memory beyond it.
\<close>

lemma makeContext_stack:
  "pStack c = None \<Longrightarrow>
   pStack (makeContext code c) = Some (stackSize c) \<and>
   map_option uc_ss_size (ctx (makeContext code c)) = Some coroutineStackSize"
  by (simp add: makeContext_def)

end
