(* ===== verification/Processor.thy ===== *)
theory Processor
  imports Coroutine
begin

text \<open>
  \<open>Processor\<close> (\<open>src/processor.cc\<close>, \<open>include/processor.h\<close>): one thread that runs coroutines. Its
  loop polls for events and resumes, in this order, the coroutines that yielded to be queued
  again, those whose time has come, the new ones and those with an event, and then destroys
  the ones that have finished.

  The thread is a machine of small steps. \<open>pr_pc\<close> says where the loop is, with the part of the
  list it still has to go through; \<open>pr_running\<close> is the code the current coroutine still has to
  run while the loop is inside \<open>resume\<close>. A step is one call of the coroutine into the processor
  or one iteration of a loop, so that other threads (\<open>goNewCo\<close>, \<open>stop\<close>) can come in between.
  Everything the system answers during a step is in its \<open>io\<close> argument. The index 0 or 1 of a
  double buffer is a truth value.
\<close>

section \<open>State\<close>

record io =
  io_events :: "epoll_event list option"   \<comment> \<open>\<open>epoll_wait\<close>\<close>
  io_errno :: int
  io_ctl :: int                            \<comment> \<open>\<open>epoll_ctl\<close>\<close>
  io_now :: ms_time
  io_now' :: ms_time                       \<comment> \<open>a second reading of the clock\<close>
  io_ret :: int                            \<comment> \<open>\<open>timerfd_settime\<close>\<close>
  io_base :: address                       \<comment> \<open>\<open>malloc\<close>\<close>

datatype processer_status = PRO_RUNNING | PRO_STOPPING | PRO_STOPPED

datatype loop_pc =
    AtHead
  | AtBlocked "co_ptr list"
  | AtTimer "co_ptr list"
  | AtNew
  | AtAct "co_ptr list"
  | AtRemove "co_ptr list"
  | AtEnd

record processor =
  pr_tid :: int
  pr_status :: processer_status
  newCoroutines :: "bool \<Rightarrow> co_ptr list"
  runningNewQue :: bool
  actCoroutines :: "co_ptr list"
  coSet :: "co_ptr set"
  timerExpiredCo :: "co_ptr list"
  blockedCo :: "bool \<Rightarrow> co_ptr list"
  blockingCoIdx :: bool
  removedCo :: "co_ptr list"
  pr_epoller :: epoller
  pr_timer :: timer
  coPool :: "coroutine obj_pool"
  pCurCoroutine :: co_ptr
  pr_idCounter :: int
  pr_pc :: loop_pc
  pr_running :: "co_act list option"
  pr_timeout :: int                        \<comment> \<open>the timeout of the last poll\<close>

definition processor_new :: "nat \<Rightarrow> int \<Rightarrow> processor" where
  "processor_new coSize tid =
     \<lparr>pr_tid = tid, pr_status = PRO_STOPPED, newCoroutines = (\<lambda>_. []), runningNewQue = False,
      actCoroutines = [], coSet = {}, timerExpiredCo = [], blockedCo = (\<lambda>_. []),
      blockingCoIdx = False, removedCo = [], pr_epoller = epoller_new, pr_timer = timer_new,
      coPool = obj_pool_new coSize, pCurCoroutine = 0, pr_idCounter = 0, pr_pc = AtEnd,
      pr_running = None, pr_timeout = 0\<rparr>"

abbreviation co_objs :: "processor \<Rightarrow> co_ptr \<rightharpoonup> coroutine" where
  "co_objs p \<equiv> op_objs (coPool p)"

definition cur_co :: "processor \<Rightarrow> coroutine res" where
  "cur_co p = of_opt UseAfterFree (co_objs p (pCurCoroutine p))"

definition set_co :: "co_ptr \<Rightarrow> coroutine \<Rightarrow> processor \<Rightarrow> processor" where
  "set_co pCo c p = p\<lparr>coPool := obj_put pCo c (coPool p)\<rparr>"

section \<open>What the coroutines call\<close>

text \<open>\<open>mainCtx_.swapToMe(pCurCoroutine_->getCtx())\<close>: back to the loop, \<open>code\<close> left to run.\<close>

definition swap_out :: "co_act list \<Rightarrow> processor \<Rightarrow> processor res" where
  "swap_out code p =
     ubind (cur_co p) (\<lambda>c.
     Inr ((set_co (pCurCoroutine p) (c\<lparr>co_ctx := save_context code (co_ctx c)\<rparr>) p)\<lparr>pr_running := None\<rparr>))"

definition pr_yield :: "co_act list \<Rightarrow> processor \<Rightarrow> processor res" where
  "pr_yield code p =
     ubind (cur_co p) (\<lambda>c. swap_out code (set_co (pCurCoroutine p) (co_yield c) p))"

definition pr_wait :: "io \<Rightarrow> ms_time \<Rightarrow> co_act list \<Rightarrow> processor \<Rightarrow> processor res" where
  "pr_wait i time code p =
     ubind (cur_co p) (\<lambda>c. let p = set_co (pCurCoroutine p) (co_yield c) p in
     ubind (runAfter (io_now i) (io_now' i) (io_ret i) time (pCurCoroutine p) (pr_timer p)) (\<lambda>t.
     swap_out code (p\<lparr>pr_timer := t\<rparr>)))"

definition blocked_yield :: "co_act list \<Rightarrow> processor \<Rightarrow> processor res" where
  "blocked_yield code p =
     (let b = blockingCoIdx p in
      pr_yield code (p\<lparr>blockedCo := (blockedCo p)(b := blockedCo p b @ [pCurCoroutine p])\<rparr>))"

text \<open>\<open>waitEvent\<close> up to its \<open>yield\<close>, and from there on.\<close>

definition waitEvent_add :: "io \<Rightarrow> int \<Rightarrow> int \<Rightarrow> co_act list \<Rightarrow> processor \<Rightarrow> processor res" where
  "waitEvent_add i fd ev code p =
     (let (e, _) = addEv (io_ctl i) (pCurCoroutine p) fd ev (pr_epoller p)
      in pr_yield (RemoveEventA fd ev # code) (p\<lparr>pr_epoller := e\<rparr>))"

definition waitEvent_remove :: "io \<Rightarrow> int \<Rightarrow> int \<Rightarrow> processor \<Rightarrow> processor" where
  "waitEvent_remove i fd ev p =
     (let (e, _) = removeEv (io_ctl i) (pCurCoroutine p) fd ev (pr_epoller p)
      in p\<lparr>pr_epoller := e\<rparr>)"

definition wakeUpEpoller :: "io \<Rightarrow> processor \<Rightarrow> processor res" where
  "wakeUpEpoller i p =
     ubind (wakeUp (io_now i) (io_now' i) (io_ret i) (pr_timer p)) (\<lambda>t. Inr (p\<lparr>pr_timer := t\<rparr>))"

definition goCo :: "io \<Rightarrow> co_ptr \<Rightarrow> processor \<Rightarrow> processor res" where
  "goCo i pCo p =
     (let q = \<not> runningNewQue p in
      wakeUpEpoller i (p\<lparr>newCoroutines := (newCoroutines p)(q := newCoroutines p q @ [pCo])\<rparr>))"

definition goCoBatch :: "io \<Rightarrow> co_ptr list \<Rightarrow> processor \<Rightarrow> processor res" where
  "goCoBatch i cos p =
     (let q = \<not> runningNewQue p in
      wakeUpEpoller i (p\<lparr>newCoroutines := (newCoroutines p)(q := newCoroutines p q @ cos)\<rparr>))"

definition goNewCo :: "io \<Rightarrow> nat \<Rightarrow> co_act list \<Rightarrow> processor \<Rightarrow> processor res" where
  "goNewCo i stack func p =
     ubind (new_obj False (io_base i) (coroutine_new stack func (pr_idCounter p)) (coPool p))
       (\<lambda>(pool, pCo). goCo i pCo (p\<lparr>coPool := pool, pr_idCounter := pr_idCounter p + 1\<rparr>))"

definition killCurCo :: "processor \<Rightarrow> processor" where
  "killCurCo p = p\<lparr>removedCo := removedCo p @ [pCurCoroutine p]\<rparr>"

text \<open>The end of \<open>coWrapFunc\<close>, from where the context links back to the loop.\<close>

definition co_wrap_end :: "processor \<Rightarrow> processor" where
  "co_wrap_end p = (killCurCo p)\<lparr>pr_running := None\<rparr>"

fun act_step :: "io \<Rightarrow> co_act list \<Rightarrow> processor \<Rightarrow> processor res" where
  "act_step i [] p = Inr (co_wrap_end p)"
| "act_step i (YieldA # code) p = pr_yield code p"
| "act_step i (WaitA time # code) p = pr_wait i time code p"
| "act_step i (BlockedYieldA # code) p = blocked_yield code p"
| "act_step i (WaitEventA fd ev # code) p = waitEvent_add i fd ev code p"
| "act_step i (RemoveEventA fd ev # code) p =
     Inr ((waitEvent_remove i fd ev p)\<lparr>pr_running := Some code\<rparr>)"
| "act_step i (GoNewA stack func # code) p =
     ubind (goNewCo i stack func p) (\<lambda>p. Inr (p\<lparr>pr_running := Some code\<rparr>))"

section \<open>The loop\<close>

definition pr_resume :: "co_ptr \<Rightarrow> processor \<Rightarrow> processor res" where
  "pr_resume pCo p =
     (if pCo = 0 then Inr p
      else if pCo \<notin> coSet p then Inr p
      else let p = p\<lparr>pCurCoroutine := pCo\<rparr> in
        ubind (cur_co p) (\<lambda>c.
        ubind (co_resume c) (\<lambda>(c, run). Inr ((set_co pCo c p)\<lparr>pr_running := run\<rparr>))))"

text \<open>The head of the loop: its test, and the poll.\<close>

definition loop_head :: "io \<Rightarrow> processor \<Rightarrow> processor res" where
  "loop_head i p =
     (if pr_status p \<noteq> PRO_RUNNING then Inr (p\<lparr>pr_status := PRO_STOPPED, pr_pc := AtEnd\<rparr>)
      else let p = p\<lparr>actCoroutines := [], timerExpiredCo := []\<rparr>;
               timeout = (if blockedCo p (blockingCoIdx p) = [] then epollTimeOutMs else 0);
               (e, act, _) = getActEvServ (io_events i) (io_errno i) (actCoroutines p) (pr_epoller p);
               p = p\<lparr>pr_epoller := e, actCoroutines := act, pr_timeout := timeout,
                     blockingCoIdx := \<not> blockingCoIdx p\<rparr>
           in Inr (p\<lparr>pr_pc := AtBlocked (blockedCo p (\<not> blockingCoIdx p))\<rparr>))"

definition loop_timer :: "io \<Rightarrow> processor \<Rightarrow> processor res" where
  "loop_timer i p =
     ubind (getExpiredCoroutines (io_now i) (io_now' i) (io_ret i) (timerExpiredCo p) (pr_timer p))
       (\<lambda>(t, expired). Inr (p\<lparr>pr_timer := t, timerExpiredCo := expired, pr_pc := AtTimer expired\<rparr>))"

definition loop_swap :: "processor \<Rightarrow> processor" where
  "loop_swap p = p\<lparr>runningNewQue := \<not> runningNewQue p, pr_pc := AtNew\<rparr>"

text \<open>After the swap the queue in use is the one whose index is \<open>runningNewQue_\<close>.\<close>

definition loop_new :: "processor \<Rightarrow> processor res" where
  "loop_new p =
     (case newCoroutines p (runningNewQue p) of
        [] \<Rightarrow> Inr (p\<lparr>pr_pc := AtAct (actCoroutines p)\<rparr>)
      | pNewCo # rest \<Rightarrow>
          pr_resume pNewCo
            (p\<lparr>newCoroutines := (newCoroutines p)(runningNewQue p := rest),
               coSet := insert pNewCo (coSet p)\<rparr>))"

definition loop_remove :: "co_ptr \<Rightarrow> co_ptr list \<Rightarrow> processor \<Rightarrow> processor res" where
  "loop_remove deadCo rest p =
     ubind (delete_obj False deadCo (coPool p)) (\<lambda>pool.
     Inr (p\<lparr>coSet := coSet p - {deadCo}, coPool := pool, pr_pc := AtRemove rest\<rparr>))"

fun loop_body :: "io \<Rightarrow> loop_pc \<Rightarrow> processor \<Rightarrow> processor res" where
  "loop_body i AtHead p = loop_head i p"
| "loop_body i (AtBlocked (co # cos)) p = pr_resume co (p\<lparr>pr_pc := AtBlocked cos\<rparr>)"
| "loop_body i (AtBlocked []) p = loop_timer i p"
| "loop_body i (AtTimer (co # cos)) p = pr_resume co (p\<lparr>pr_pc := AtTimer cos\<rparr>)"
| "loop_body i (AtTimer []) p = Inr (loop_swap p)"
| "loop_body i AtNew p = loop_new p"
| "loop_body i (AtAct (co # cos)) p = pr_resume co (p\<lparr>pr_pc := AtAct cos\<rparr>)"
| "loop_body i (AtAct []) p = Inr (p\<lparr>pr_pc := AtRemove (removedCo p)\<rparr>)"
| "loop_body i (AtRemove (co # cos)) p = loop_remove co cos p"
| "loop_body i (AtRemove []) p = Inr (p\<lparr>removedCo := [], pr_pc := AtHead\<rparr>)"
| "loop_body i AtEnd p = Inr p"

definition loop_step :: "io \<Rightarrow> processor \<Rightarrow> processor res" where
  "loop_step i p =
     (case pr_running p of
        Some code \<Rightarrow> act_step i code p
      | None \<Rightarrow> loop_body i (pr_pc p) p)"

section \<open>What other threads call\<close>

text \<open>\<open>loop\<close>: \<open>efd\<close> and \<open>tfd\<close> are what \<open>epoll_create1\<close> and \<open>timerfd_create\<close> return.\<close>

definition pr_loop :: "int \<Rightarrow> int \<Rightarrow> int \<Rightarrow> processor \<Rightarrow> processor \<times> bool" where
  "pr_loop efd tfd ctl p =
     (let (e, ok) = epoller_init efd (pr_epoller p); p = p\<lparr>pr_epoller := e\<rparr> in
      if \<not> ok then (p, False)
      else let ev = 1 + 2 + 8192;
               (t, ok) = timer_init tfd (\<lambda>fd. snd (addEv ctl 0 fd ev e)) (pr_timer p);
               e = (if isTimeFdUseful t then fst (addEv ctl 0 (timeFd t) ev e) else e);
               p = p\<lparr>pr_timer := t, pr_epoller := e\<rparr> in
        if \<not> ok then (p, False)
        else (p\<lparr>pr_status := PRO_RUNNING, pr_pc := AtHead\<rparr>, True))"

definition pr_stop :: "processor \<Rightarrow> processor" where
  "pr_stop p = p\<lparr>pr_status := PRO_STOPPING\<rparr>"

text \<open>\<open>join\<close> returns once the thread has ended.\<close>

definition pr_join :: "processor \<Rightarrow> processor res" where
  "pr_join p = (if pr_pc p = AtEnd then Inr p else Inl Diverge)"

text \<open>The destructor applies \<open>delete\<close> to coroutines that live in the pool's memory.\<close>

definition pr_destroy :: "processor \<Rightarrow> processor res" where
  "pr_destroy p =
     (let p = (if pr_status p = PRO_RUNNING then pr_stop p else p) in
      ubind (if pr_status p = PRO_STOPPING then pr_join p else Inr p) (\<lambda>p.
      if coSet p = {} then Inr p else Inl BadFree))"

definition getCoCnt :: "processor \<Rightarrow> int" where
  "getCoCnt p = u64 (int (card (coSet p)) - int (length (removedCo p)))"

definition getCurRunningCo :: "processor \<Rightarrow> co_ptr" where
  "getCurRunningCo p = pCurCoroutine p"

end
