(* ===== verification/ProcessorInv.thy ===== *)
theory ProcessorInv
  imports Processor
begin

text \<open>
  The invariant of a processor and that every step keeps it, whatever the coroutines do, the
  system answers and other threads call in between. Every coroutine object is in one of four
  places: queued and not started, finished and on the list of coroutines to destroy, running,
  or switched out with a saved context. From it follow that the loop never touches a destroyed
  coroutine, that new coroutines start in the order they were created in, and that each runs
  its code in order.
\<close>

section \<open>Results that may only overflow\<close>

text \<open>\<open>mostly Q r\<close>: \<open>r\<close> is a value with \<open>Q\<close>, or a time has overflowed 64 bits.\<close>

definition mostly :: "('a \<Rightarrow> bool) \<Rightarrow> 'a res \<Rightarrow> bool" where
  "mostly Q r = (case r of Inl e \<Rightarrow> e = SignedOverflow | Inr x \<Rightarrow> Q x)"

lemma mostly_Inr [simp]: "mostly Q (Inr x) = Q x"
  by (simp add: mostly_def)

lemma mostly_Inl [simp]: "mostly Q (Inl e) \<longleftrightarrow> e = SignedOverflow"
  by (simp add: mostly_def)

lemma mostly_bind:
  "mostly P m \<Longrightarrow> (\<And>x. P x \<Longrightarrow> mostly Q (f x)) \<Longrightarrow> mostly Q (ubind m f)"
  by (cases m) auto

lemma mostly_mono: "mostly P r \<Longrightarrow> (\<And>x. P x \<Longrightarrow> Q x) \<Longrightarrow> mostly Q r"
  by (cases r) auto

lemma mostly_chk64: "mostly (\<lambda>y. y = x) (chk64 x)"
  by (simp add: chk64_def)

lemma mostly_wakeUp: "mostly (\<lambda>_. True) (wakeUp now now' ret t)"
  by (auto simp: wakeUp_def resetTimeOfTimefd_def timeIntervalFromNow_def chk64_def)

lemma mostly_runAfter: "mostly (\<lambda>_. True) (runAfter now now' ret time co t)"
  by (auto simp: runAfter_def runAt_def resetTimeOfTimefd_def timeIntervalFromNow_def chk64_def Let_def)

lemma mostly_getExpired: "mostly (\<lambda>_. True) (getExpiredCoroutines now now' ret acc t)"
  by (auto simp: getExpiredCoroutines_def resetTimeOfTimefd_def timeIntervalFromNow_def chk64_def
      Let_def split: prod.splits)

section \<open>Where the coroutines are\<close>

text \<open>
  \<open>core_inv pool S pend dead cur\<close>: the pool holds the coroutines of \<open>S\<close> (the started ones) and
  of \<open>pend\<close> (the queued ones), \<open>dead\<close> are the finished ones among the started, \<open>cur\<close> is the one
  that runs.
\<close>

definition core_inv ::
  "coroutine obj_pool \<Rightarrow> co_ptr set \<Rightarrow> co_ptr list \<Rightarrow> co_ptr list \<Rightarrow> co_ptr option \<Rightarrow> bool" where
  "core_inv pool S pend dead cur \<longleftrightarrow>
     obj_pool_ok pool \<and> finite S \<and> dom (op_objs pool) = S \<union> set pend \<and>
     distinct pend \<and> S \<inter> set pend = {} \<and>
     (\<forall>c \<in> set pend. \<exists>x. op_objs pool c = Some x \<and> co_status x = CO_READY) \<and>
     distinct dead \<and> set dead \<subseteq> S \<and>
     (\<forall>c \<in> S. \<exists>x. op_objs pool c = Some x \<and>
        (if c \<in> set dead \<or> cur = Some c then co_status x = CO_RUNNING
         else co_status x = CO_WAITING \<and> ctx (co_ctx x) \<noteq> None)) \<and>
     (\<forall>c. cur = Some c \<longrightarrow> c \<in> S \<and> c \<notin> set dead)"

lemma core_invD:
  assumes "core_inv pool S pend dead cur"
  shows "obj_pool_ok pool" "finite S" "dom (op_objs pool) = S \<union> set pend" "distinct pend"
    "S \<inter> set pend = {}" "distinct dead" "set dead \<subseteq> S"
    "\<And>c. c \<in> set pend \<Longrightarrow> \<exists>x. op_objs pool c = Some x \<and> co_status x = CO_READY"
    "\<And>c. c \<in> S \<Longrightarrow> \<exists>x. op_objs pool c = Some x \<and>
        (if c \<in> set dead \<or> cur = Some c then co_status x = CO_RUNNING
         else co_status x = CO_WAITING \<and> ctx (co_ctx x) \<noteq> None)"
    "\<And>c. cur = Some c \<Longrightarrow> c \<in> S \<and> c \<notin> set dead"
  using assms unfolding core_inv_def by blast+

lemma obj_pool_nonzero: "obj_pool_ok pool \<Longrightarrow> op_objs pool c = Some x \<Longrightarrow> c \<noteq> 0"
  using Free_run(2) [of "op_memPool pool" "dom (op_objs pool)" c] by (auto simp: obj_pool_ok_def)

lemma core_start:
  assumes i: "core_inv pool S (c # pend) dead None" and x: "co_status x = CO_RUNNING"
  shows "core_inv (obj_put c x pool) (insert c S) pend dead (Some c)"
proof -
  note D = core_invD [OF i]
  have c: "op_objs pool c \<noteq> None" using D(8) [of c] by auto
  note P = opool.put_ok [OF D(1) c, of x]
  have d: "dom (op_objs pool) = insert c S \<union> set pend" using D(3) by auto
  show ?thesis
    unfolding core_inv_def
  proof (intro conjI ballI allI impI)
    fix e assume "e \<in> set pend"
    then show "\<exists>y. op_objs (obj_put c x pool) e = Some y \<and> co_status y = CO_READY"
      using D(4) D(8) [of e] P by auto
  next
    fix e assume "e \<in> insert c S"
    then show "\<exists>y. op_objs (obj_put c x pool) e = Some y \<and>
        (if e \<in> set dead \<or> Some c = Some e then co_status y = CO_RUNNING
         else co_status y = CO_WAITING \<and> ctx (co_ctx y) \<noteq> None)"
      using D(9) [of e] P x by (cases "e = c") auto
  qed (use D c P d in \<open>auto simp: opool.put_dom [OF D(1) c]\<close>)
qed

lemma core_resume:
  assumes i: "core_inv pool S pend dead None" and c: "c \<in> S" and x: "co_status x = CO_RUNNING"
    and nd: "c \<notin> set dead"
  shows "core_inv (obj_put c x pool) S pend dead (Some c)"
proof -
  note D = core_invD [OF i]
  have c': "op_objs pool c \<noteq> None" using D(9) [OF c] by auto
  note P = opool.put_ok [OF D(1) c', of x]
  show ?thesis
    unfolding core_inv_def
  proof (intro conjI ballI allI impI)
    fix e assume "e \<in> set pend"
    then show "\<exists>y. op_objs (obj_put c x pool) e = Some y \<and> co_status y = CO_READY"
      using D(5) D(8) [of e] P c by auto
  next
    fix e assume "e \<in> S"
    then show "\<exists>y. op_objs (obj_put c x pool) e = Some y \<and>
        (if e \<in> set dead \<or> Some c = Some e then co_status y = CO_RUNNING
         else co_status y = CO_WAITING \<and> ctx (co_ctx y) \<noteq> None)"
      using D(9) [of e] P x by (cases "e = c") auto
  qed (use D c nd P in \<open>auto simp: opool.put_dom [OF D(1) c']\<close>)
qed

lemma core_yield:
  assumes i: "core_inv pool S pend dead (Some c)"
    and x: "co_status x = CO_WAITING" "ctx (co_ctx x) \<noteq> None"
  shows "core_inv (obj_put c x pool) S pend dead None"
proof -
  note D = core_invD [OF i]
  have c: "c \<in> S" "c \<notin> set dead" using D(10) by auto
  have c': "op_objs pool c \<noteq> None" using D(9) [OF c(1)] by auto
  note P = opool.put_ok [OF D(1) c', of x]
  show ?thesis
    unfolding core_inv_def
  proof (intro conjI ballI allI impI)
    fix e assume "e \<in> set pend"
    then show "\<exists>y. op_objs (obj_put c x pool) e = Some y \<and> co_status y = CO_READY"
      using D(5) D(8) [of e] P c by auto
  next
    fix e assume "e \<in> S"
    then show "\<exists>y. op_objs (obj_put c x pool) e = Some y \<and>
        (if e \<in> set dead \<or> None = Some e then co_status y = CO_RUNNING
         else co_status y = CO_WAITING \<and> ctx (co_ctx y) \<noteq> None)"
      using D(9) [of e] P x c by (cases "e = c") auto
  qed (use D c P in \<open>auto simp: opool.put_dom [OF D(1) c']\<close>)
qed

lemma core_finish:
  assumes i: "core_inv pool S pend dead (Some c)"
  shows "core_inv pool S pend (dead @ [c]) None"
proof -
  note D = core_invD [OF i]
  have "\<exists>y. op_objs pool e = Some y \<and>
      (if e \<in> set (dead @ [c]) \<or> None = Some e then co_status y = CO_RUNNING
       else co_status y = CO_WAITING \<and> ctx (co_ctx y) \<noteq> None)" if e: "e \<in> S" for e
  proof -
    obtain x where "op_objs pool e = Some x" "if e \<in> set dead \<or> Some c = Some e then co_status x = CO_RUNNING
        else co_status x = CO_WAITING \<and> ctx (co_ctx x) \<noteq> None" using D(9) [OF e] by blast
    then show ?thesis by (intro exI [of _ x]) auto
  qed
  moreover have "distinct (dead @ [c])" "set (dead @ [c]) \<subseteq> S" using D(6,7,10) by auto
  ultimately show ?thesis using D(1-5,8) unfolding core_inv_def by blast
qed

lemma core_same:
  assumes "core_inv pool S pend dead cur" "op_objs pool c = Some x"
  shows "core_inv (obj_put c x pool) S pend dead cur"
proof -
  have "obj_put c x pool = pool" using assms(2) by (simp add: obj_put_def fun_upd_idem)
  then show ?thesis using assms(1) by simp
qed

lemma core_new:
  assumes i: "core_inv pool S pend dead cur" and m: "malloc_ok base (op_memPool pool)"
    and x: "co_status x = CO_READY"
  shows "\<exists>pool' r. new_obj False base x pool = Inr (pool', r) \<and>
    core_inv pool' S (pend @ [r]) dead cur \<and> op_objs pool r = None \<and>
    op_objs pool' = (op_objs pool)(r \<mapsto> x)"
proof -
  note D = core_invD [OF i]
  from opool.new_ok [OF D(1) m, of x] obtain pool' r where
    n: "new_obj False base x pool = Inr (pool', r)" "obj_pool_ok pool'" "op_objs pool r = None"
      "op_objs pool' = (op_objs pool)(r \<mapsto> x)" by blast
  have r: "r \<notin> S" "r \<notin> set pend" using n(3) D(3) by auto
  have "core_inv pool' S (pend @ [r]) dead cur"
    unfolding core_inv_def
  proof (intro conjI ballI allI impI)
    fix e assume "e \<in> set (pend @ [r])"
    then show "\<exists>y. op_objs pool' e = Some y \<and> co_status y = CO_READY"
      using D(8) [of e] n(4) x r by auto
  next
    fix e assume "e \<in> S"
    then show "\<exists>y. op_objs pool' e = Some y \<and>
        (if e \<in> set dead \<or> cur = Some e then co_status y = CO_RUNNING
         else co_status y = CO_WAITING \<and> ctx (co_ctx y) \<noteq> None)"
      using D(9) [of e] n(4) r by auto
  qed (use D n r in auto)
  with n show ?thesis by blast
qed

lemma core_delete:
  assumes i: "core_inv pool S pend (c # dead) None"
  shows "\<exists>pool'. delete_obj False c pool = Inr pool' \<and> core_inv pool' (S - {c}) pend dead None \<and>
    op_objs pool' = (op_objs pool)(c := None)"
proof -
  note D = core_invD [OF i]
  have c: "c \<in> S" "c \<notin> set dead" using D(6,7) by auto
  have "op_objs pool c \<noteq> None" using D(9) [OF c(1)] by auto
  from opool.delete_ok [OF D(1) this] obtain pool' where
    p: "delete_obj False c pool = Inr pool'" "obj_pool_ok pool'" "op_objs pool' = (op_objs pool)(c := None)"
    by blast
  have np: "c \<notin> set pend" using c D(5) by auto
  have "core_inv pool' (S - {c}) pend dead None"
    unfolding core_inv_def
  proof (intro conjI ballI allI impI)
    fix e assume "e \<in> set pend"
    then show "\<exists>y. op_objs pool' e = Some y \<and> co_status y = CO_READY"
      using D(8) [of e] p(3) np by auto
  next
    fix e assume "e \<in> S - {c}"
    then show "\<exists>y. op_objs pool' e = Some y \<and>
        (if e \<in> set dead \<or> None = Some e then co_status y = CO_RUNNING
         else co_status y = CO_WAITING \<and> ctx (co_ctx y) \<noteq> None)"
      using D(9) [of e] p(3) by auto
  qed (use D p np c in auto)
  with p show ?thesis by blast
qed

section \<open>The invariant of a processor\<close>

text \<open>The queued coroutines in the order in which they will start.\<close>

definition pending :: "processor \<Rightarrow> co_ptr list" where
  "pending p = newCoroutines p (runningNewQue p) @ newCoroutines p (\<not> runningNewQue p)"

text \<open>The finished coroutines that are not destroyed yet, and the one that is running.\<close>

definition dead_of :: "loop_pc \<Rightarrow> co_ptr list \<Rightarrow> co_ptr list" where
  "dead_of pc removed = (case pc of AtRemove rest \<Rightarrow> rest | _ \<Rightarrow> removed)"

definition dead :: "processor \<Rightarrow> co_ptr list" where
  "dead p = dead_of (pr_pc p) (removedCo p)"

lemma dead_of_simps [simp]:
  "dead_of AtHead l = l" "dead_of (AtBlocked cs) l = l" "dead_of (AtTimer cs) l = l"
  "dead_of AtNew l = l" "dead_of (AtAct cs) l = l" "dead_of (AtRemove rest) l = rest"
  "dead_of AtEnd l = l"
  by (simp_all add: dead_of_def)

definition current :: "processor \<Rightarrow> co_ptr option" where
  "current p = (if pr_running p = None then None else Some (pCurCoroutine p))"

definition place_inv :: "processor \<Rightarrow> bool" where
  "place_inv p \<longleftrightarrow>
     (\<exists>gone. removedCo p = gone @ dead p \<and> set gone \<inter> coSet p = {}) \<and>
     (pr_pc p = AtEnd \<or> (\<exists>rest. pr_pc p = AtRemove rest) \<longrightarrow> pr_running p = None) \<and>
     (pr_pc p \<noteq> AtNew \<longrightarrow> newCoroutines p (runningNewQue p) = [])"

definition proc_inv :: "processor \<Rightarrow> bool" where
  "proc_inv p \<longleftrightarrow>
     core_inv (coPool p) (coSet p) (pending p) (dead p) (current p) \<and> place_inv p"

definition io_ok :: "io \<Rightarrow> processor \<Rightarrow> bool" where
  "io_ok i p \<longleftrightarrow> malloc_ok (io_base i) (op_memPool (coPool p))"

lemma proc_inv_new: "proc_inv (processor_new n tid)"
  by (simp add: proc_inv_def core_inv_def place_inv_def processor_new_def pending_def dead_def current_def)
    (simp add: obj_pool_new_def)

text \<open>What the invariant does not mention.\<close>

lemma proc_inv_frame [simp]:
  "proc_inv (p\<lparr>pr_timer := t\<rparr>) = proc_inv p"
  "proc_inv (p\<lparr>pr_epoller := e\<rparr>) = proc_inv p"
  "proc_inv (p\<lparr>blockedCo := b\<rparr>) = proc_inv p"
  "proc_inv (p\<lparr>pr_idCounter := n\<rparr>) = proc_inv p"
  "proc_inv (p\<lparr>pr_status := s\<rparr>) = proc_inv p"
  by (simp_all add: proc_inv_def place_inv_def pending_def dead_def current_def)

text \<open>At the calls of a coroutine: it is running, so no coroutine is being destroyed.\<close>

lemma running_inv:
  assumes "proc_inv p" "pr_running p = Some code"
  shows "core_inv (coPool p) (coSet p) (pending p) (removedCo p) (Some (pCurCoroutine p))"
    "dead p = removedCo p" "pr_pc p \<noteq> AtEnd" "pr_pc p \<noteq> AtRemove rest"
    "\<exists>x. cur_co p = Inr x"
proof -
  have pc: "\<And>rest. pr_pc p \<noteq> AtRemove rest" "pr_pc p \<noteq> AtEnd"
    using assms by (auto simp: proc_inv_def place_inv_def)
  then show d: "dead p = removedCo p" "pr_pc p \<noteq> AtEnd" "pr_pc p \<noteq> AtRemove rest"
    by (auto simp: dead_def dead_of_def split: loop_pc.split)
  show c: "core_inv (coPool p) (coSet p) (pending p) (removedCo p) (Some (pCurCoroutine p))"
    using assms d by (simp add: proc_inv_def current_def)
  show "\<exists>x. cur_co p = Inr x"
    using core_invD(9,10) [OF c] by (force simp: cur_co_def)
qed

lemma set_co_simps [simp]:
  "coPool (set_co c x p) = obj_put c x (coPool p)" "pCurCoroutine (set_co c x p) = pCurCoroutine p"
  "pr_timer (set_co c x p) = pr_timer p" "pr_running (set_co c x p) = pr_running p"
  "coSet (set_co c x p) = coSet p" "removedCo (set_co c x p) = removedCo p"
  "newCoroutines (set_co c x p) = newCoroutines p" "runningNewQue (set_co c x p) = runningNewQue p"
  "pr_pc (set_co c x p) = pr_pc p" "blockedCo (set_co c x p) = blockedCo p"
  "blockingCoIdx (set_co c x p) = blockingCoIdx p" "pr_epoller (set_co c x p) = pr_epoller p"
  by (simp_all add: set_co_def)

lemma cur_co_set [simp]: "cur_co (set_co (pCurCoroutine p) x p) = Inr x"
  by (simp add: cur_co_def obj_put_def)

lemma obj_put_put [simp]: "obj_put c y (obj_put c x pool) = obj_put c y pool"
  by (simp add: obj_put_def)

text \<open>The state after a coroutine has switched out, \<open>code\<close> left to run.\<close>

definition switched :: "co_act list \<Rightarrow> coroutine \<Rightarrow> processor \<Rightarrow> processor" where
  "switched code c p =
     (let c = co_yield c in
      (set_co (pCurCoroutine p) (c\<lparr>co_ctx := save_context code (co_ctx c)\<rparr>) p)\<lparr>pr_running := None\<rparr>)"

lemma pr_yield_run: "cur_co p = Inr c \<Longrightarrow> pr_yield code p = Inr (switched code c p)"
  by (simp add: pr_yield_def swap_out_def switched_def Let_def) (simp add: set_co_def)

lemma switched_inv:
  assumes "proc_inv p" "pr_running p = Some code'" "cur_co p = Inr c"
  shows "proc_inv (switched code c p)"
proof -
  note r = running_inv [OF assms(1,2)]
  have "core_inv (obj_put (pCurCoroutine p) (co_yield c\<lparr>co_ctx := save_context code (co_ctx (co_yield c))\<rparr>)
      (coPool p)) (coSet p) (pending p) (removedCo p) None"
    by (rule core_yield [OF r(1)]) (simp_all add: co_yield_def save_context_def)
  moreover have "pending (switched code c p) = pending p" "dead (switched code c p) = removedCo p"
    "current (switched code c p) = None"
    using r(2) by (simp_all add: pending_def dead_def current_def switched_def Let_def)
  moreover have "place_inv (switched code c p)"
    using assms(1) r(2) by (simp add: proc_inv_def place_inv_def switched_def Let_def dead_def)
  ultimately show ?thesis by (simp add: proc_inv_def switched_def Let_def)
qed

lemma push_inv:
  assumes "core_inv pool (coSet p) (pending p @ cs) (dead p) (current p)" "place_inv p"
    and "q = (\<not> runningNewQue p)"
  shows "proc_inv (p\<lparr>coPool := pool, pr_idCounter := n,
      newCoroutines := (newCoroutines p)(q := newCoroutines p q @ cs)\<rparr>)"
  using assms by (auto simp: proc_inv_def place_inv_def pending_def dead_def current_def split: if_splits)

lemma goNewCo_run:
  assumes inv: "proc_inv p" and io: "io_ok i p"
  shows "mostly (\<lambda>p'. proc_inv p' \<and>
    (\<exists>r. co_objs p r = None \<and>
       co_objs p' = (co_objs p)(r \<mapsto> coroutine_new stack func (pr_idCounter p)) \<and>
       pending p' = pending p @ [r] \<and> coSet p' = coSet p \<and> removedCo p' = removedCo p \<and>
       pr_pc p' = pr_pc p \<and> pr_running p' = pr_running p \<and> pCurCoroutine p' = pCurCoroutine p \<and>
       blockedCo p' = blockedCo p \<and> blockingCoIdx p' = blockingCoIdx p \<and> pr_status p' = pr_status p))
    (goNewCo i stack func p)"
proof -
  let ?x = "coroutine_new stack func (pr_idCounter p)"
  from core_new [of "coPool p" "coSet p" "pending p" "dead p" "current p" "io_base i" ?x] inv io
  obtain pool r where n: "new_obj False (io_base i) ?x (coPool p) = Inr (pool, r)"
    "core_inv pool (coSet p) (pending p @ [r]) (dead p) (current p)" "co_objs p r = None"
    "op_objs pool = (co_objs p)(r \<mapsto> ?x)"
    by (auto simp: proc_inv_def io_ok_def)
  let ?q = "\<not> runningNewQue p"
  let ?p = "p\<lparr>coPool := pool, pr_idCounter := pr_idCounter p + 1,
      newCoroutines := (newCoroutines p)(?q := newCoroutines p ?q @ [r])\<rparr>"
  have i: "proc_inv ?p" using push_inv [OF n(2)] inv by (simp add: proc_inv_def)
  have g: "goNewCo i stack func p = wakeUpEpoller i ?p"
    by (simp add: goNewCo_def n(1) goCo_def Let_def)
  show ?thesis
    unfolding g wakeUpEpoller_def
    by (rule mostly_bind [OF mostly_wakeUp]) (use i n in \<open>auto simp: pending_def\<close>)
qed

section \<open>The abstract machine\<close>

text \<open>
  What a processor promises: a set of sequential programs, each with the code it still has to
  run, and the line of those that have not started. A program starts when it is first in line,
  goes through its code in order, can create another, and is gone only after it has ended.
\<close>

type_synonym rt_state = "(co_ptr \<rightharpoonup> co_act list) \<times> co_ptr list"

inductive rt_step :: "rt_state \<Rightarrow> rt_state \<Rightarrow> bool" where
  rt_idle: "rt_step s s"
| rt_call: "L c = Some (a # code) \<Longrightarrow> rt_step (L, Q) (L(c \<mapsto> code), Q)"
| rt_wait: "L c = Some (WaitEventA fd ev # code) \<Longrightarrow>
    rt_step (L, Q) (L(c \<mapsto> RemoveEventA fd ev # code), Q)"
| rt_go: "L c = Some (GoNewA stack func # code) \<Longrightarrow> L r = None \<Longrightarrow>
    rt_step (L, Q) (L(c \<mapsto> code, r \<mapsto> func), Q @ [r])"
| rt_start: "rt_step (L, c # Q) (L, Q)"
| rt_gone: "L c = Some [] \<Longrightarrow> c \<notin> set Q \<Longrightarrow> rt_step (L, Q) (L(c := None), Q)"
| rt_spawn: "L r = None \<Longrightarrow> rt_step (L, Q) (L(r \<mapsto> func), Q @ [r])"

definition code_left :: "coroutine \<Rightarrow> co_act list" where
  "code_left x =
     (case co_status x of
        CO_READY \<Rightarrow> coFunc x
      | CO_WAITING \<Rightarrow> (case ctx (co_ctx x) of None \<Rightarrow> [] | Some u \<Rightarrow> uc_code u)
      | _ \<Rightarrow> [])"

definition left_of ::
  "(co_ptr \<rightharpoonup> coroutine) \<Rightarrow> co_ptr option \<Rightarrow> co_act list option \<Rightarrow> (co_ptr \<rightharpoonup> co_act list)" where
  "left_of objs cur run c =
     (case objs c of None \<Rightarrow> None | Some x \<Rightarrow> if cur = Some c then run else Some (code_left x))"

definition rt_abs :: "processor \<Rightarrow> rt_state" where
  "rt_abs p = (left_of (co_objs p) (current p) (pr_running p), pending p)"

definition grows :: "processor \<Rightarrow> processor \<Rightarrow> bool" where
  "grows p p' \<longleftrightarrow> (\<forall>b. \<exists>s. blockedCo p' b = blockedCo p b @ s)"

lemma grows_same [simp]: "blockedCo p' = blockedCo p \<Longrightarrow> grows p p'"
  by (simp add: grows_def)

definition good_step :: "processor \<Rightarrow> processor \<Rightarrow> bool" where
  "good_step p p' \<longleftrightarrow> proc_inv p' \<and> rt_step (rt_abs p) (rt_abs p') \<and> grows p p'"

lemma good_step_idle:
  "proc_inv p' \<Longrightarrow> rt_abs p' = rt_abs p \<Longrightarrow> blockedCo p' = blockedCo p \<Longrightarrow> good_step p p'"
  by (simp add: good_step_def rt_idle)

lemma rt_abs_frame [simp]:
  "rt_abs (p\<lparr>pr_timer := t\<rparr>) = rt_abs p"
  "rt_abs (p\<lparr>pr_epoller := e\<rparr>) = rt_abs p"
  "rt_abs (p\<lparr>blockedCo := b\<rparr>) = rt_abs p"
  "rt_abs (p\<lparr>pr_status := s\<rparr>) = rt_abs p"
  by (simp_all add: rt_abs_def pending_def current_def)

lemma left_of_put:
  "c \<noteq> e \<Longrightarrow> left_of (op_objs (obj_put c x pool)) cur run e = left_of (op_objs pool) cur run e"
  by (simp add: left_of_def obj_put_def)

lemma left_of_put_self:
  "left_of (op_objs (obj_put c x pool)) cur run c = (if cur = Some c then run else Some (code_left x))"
  by (simp add: left_of_def obj_put_def)

lemma switched_left:
  assumes "cur_co p = Inr c" "pr_running p = Some code'"
  shows "rt_abs (switched code c p) = ((fst (rt_abs p))(pCurCoroutine p \<mapsto> code), pending p)"
    "fst (rt_abs p) (pCurCoroutine p) = Some code'"
proof -
  have "left_of (op_objs (obj_put (pCurCoroutine p) (co_yield c\<lparr>co_ctx := save_context code (co_ctx (co_yield c))\<rparr>)
      (coPool p))) None None = (left_of (co_objs p) (Some (pCurCoroutine p)) (Some code'))(pCurCoroutine p \<mapsto> code)"
    by (rule ext) (auto simp: left_of_def obj_put_def code_left_def co_yield_def save_context_def
        split: option.split)
  then show "rt_abs (switched code c p) = ((fst (rt_abs p))(pCurCoroutine p \<mapsto> code), pending p)"
    using assms(2) by (simp add: rt_abs_def switched_def current_def pending_def Let_def)
  have "co_objs p (pCurCoroutine p) = Some c"
    using assms(1) by (simp add: cur_co_def of_opt_eq_Inr)
  then show "fst (rt_abs p) (pCurCoroutine p) = Some code'"
    using assms(2) by (simp add: rt_abs_def left_of_def current_def)
qed

lemma switched_step:
  assumes "proc_inv p" "pr_running p = Some (a # code)" "cur_co p = Inr c"
  shows "good_step p (switched code c p)"
  unfolding good_step_def
proof (intro conjI)
  show "proc_inv (switched code c p)" using switched_inv assms by blast
  show "rt_step (rt_abs p) (rt_abs (switched code c p))"
    using rt_call [of "fst (rt_abs p)" "pCurCoroutine p" a code "pending p"]
      switched_left [OF assms(3,2)] by (simp add: rt_abs_def)
  show "grows p (switched code c p)" by (simp add: switched_def Let_def)
qed

lemma good_step_trans_frame:
  assumes "good_step q p'" "rt_abs q = rt_abs p" "grows p q"
  shows "good_step p p'"
proof -
  have "\<exists>s. blockedCo p' b = blockedCo p b @ s" for b
  proof -
    have "\<exists>s. blockedCo q b = blockedCo p b @ s" "\<exists>t. blockedCo p' b = blockedCo q b @ t"
      using assms by (simp_all add: good_step_def grows_def)
    then obtain s t where "blockedCo q b = blockedCo p b @ s" "blockedCo p' b = blockedCo q b @ t"
      by blast
    then show ?thesis by auto
  qed
  with assms(1,2) show ?thesis by (simp add: good_step_def grows_def)
qed

text \<open>One lemma for each call of a coroutine; \<open>c\<close> is the coroutine that runs.\<close>

lemma act_return_good:
  assumes inv: "proc_inv p" and r: "pr_running p = Some []" and c: "cur_co p = Inr c"
  shows "good_step p (co_wrap_end p)"
proof -
  note R = running_inv [OF inv r]
  have "proc_inv (co_wrap_end p)"
    using core_finish [OF R(1)] R(2-4) inv
    by (auto simp: proc_inv_def place_inv_def co_wrap_end_def killCurCo_def pending_def dead_def
        current_def dead_of_def split: loop_pc.splits)
  moreover have "co_status c = CO_RUNNING" "co_objs p (pCurCoroutine p) = Some c"
    using core_invD(9,10) [OF R(1)] c by (force simp: cur_co_def of_opt_eq_Inr)+
  then have "rt_abs (co_wrap_end p) = rt_abs p"
    using r by (auto simp: rt_abs_def co_wrap_end_def killCurCo_def pending_def current_def
        left_of_def code_left_def fun_eq_iff split: option.split)
  ultimately show ?thesis by (simp add: good_step_idle co_wrap_end_def killCurCo_def)
qed

lemma act_wait_good:
  assumes inv: "proc_inv p" and r: "pr_running p = Some (WaitA time # as)" and c: "cur_co p = Inr c"
  shows "mostly (good_step p) (pr_wait i time as p)"
proof -
  have "pr_wait i time as p =
      ubind (runAfter (io_now i) (io_now' i) (io_ret i) time (pCurCoroutine p) (pr_timer p))
        (\<lambda>t. Inr (switched as c (p\<lparr>pr_timer := t\<rparr>)))"
    using c by (simp add: pr_wait_def Let_def swap_out_def cur_co_def obj_put_def switched_def
        of_opt_eq_Inr set_co_def)
  moreover have "good_step p (switched as c (p\<lparr>pr_timer := t\<rparr>))" for t
  proof (rule good_step_trans_frame [OF switched_step])
    show "cur_co (p\<lparr>pr_timer := t\<rparr>) = Inr c" using c by (simp add: cur_co_def)
  qed (use inv r in simp_all)
  ultimately show ?thesis by (simp add: mostly_bind [OF mostly_runAfter])
qed

lemma act_blocked_good:
  assumes inv: "proc_inv p" and r: "pr_running p = Some (BlockedYieldA # as)" and c: "cur_co p = Inr c"
  shows "mostly (good_step p) (blocked_yield as p)"
proof -
  let ?p = "p\<lparr>blockedCo := (blockedCo p)(blockingCoIdx p := blockedCo p (blockingCoIdx p) @ [pCurCoroutine p])\<rparr>"
  have c': "cur_co ?p = Inr c" using c by (simp add: cur_co_def)
  have "good_step p (switched as c ?p)"
  proof (rule good_step_trans_frame [OF switched_step [OF _ _ c']])
    show "grows p ?p" by (simp add: grows_def)
  qed (use inv r in simp_all)
  then show ?thesis by (simp add: blocked_yield_def Let_def pr_yield_run [OF c'])
qed

lemma act_wait_event_good:
  assumes inv: "proc_inv p" and r: "pr_running p = Some (WaitEventA fd ev # as)" and c: "cur_co p = Inr c"
  shows "mostly (good_step p) (waitEvent_add i fd ev as p)"
proof -
  obtain e ok where e: "addEv (io_ctl i) (pCurCoroutine p) fd ev (pr_epoller p) = (e, ok)"
    by (cases "addEv (io_ctl i) (pCurCoroutine p) fd ev (pr_epoller p)")
  let ?p = "p\<lparr>pr_epoller := e\<rparr>" and ?as = "RemoveEventA fd ev # as"
  have c': "cur_co ?p = Inr c" using c by (simp add: cur_co_def)
  have "good_step ?p (switched ?as c ?p)"
    unfolding good_step_def
  proof (intro conjI)
    show "proc_inv (switched ?as c ?p)" by (rule switched_inv [OF _ _ c']) (use inv r in simp_all)
    show "rt_step (rt_abs ?p) (rt_abs (switched ?as c ?p))"
      using rt_wait [of "fst (rt_abs ?p)" "pCurCoroutine ?p" fd ev as "pending ?p"]
        switched_left [OF c'] r by (simp add: rt_abs_def)
  qed (simp add: switched_def Let_def)
  then have "good_step p (switched ?as c ?p)"
    by (rule good_step_trans_frame) simp_all
  then show ?thesis by (simp add: waitEvent_add_def e pr_yield_run [OF c'])
qed

lemma act_remove_event_good:
  assumes inv: "proc_inv p" and r: "pr_running p = Some (RemoveEventA fd ev # as)" and c: "cur_co p = Inr c"
  shows "good_step p ((waitEvent_remove i fd ev p)\<lparr>pr_running := Some as\<rparr>)"
proof -
  note R = running_inv [OF inv r]
  let ?p = "(waitEvent_remove i fd ev p)\<lparr>pr_running := Some as\<rparr>"
  have f: "coPool ?p = coPool p" "coSet ?p = coSet p" "pending ?p = pending p" "dead ?p = dead p"
    "current ?p = current p" "place_inv ?p = place_inv p" "blockedCo ?p = blockedCo p"
    "pCurCoroutine ?p = pCurCoroutine p"
    using r R(3,4) by (auto simp: waitEvent_remove_def pending_def dead_def current_def place_inv_def
        split: prod.split)
  have "proc_inv ?p" using inv f by (simp add: proc_inv_def)
  moreover have "rt_step (rt_abs p) (rt_abs ?p)"
  proof -
    have "co_objs p (pCurCoroutine p) = Some c" using c by (simp add: cur_co_def of_opt_eq_Inr)
    then have "fst (rt_abs ?p) = (fst (rt_abs p))(pCurCoroutine p \<mapsto> as)"
      "fst (rt_abs p) (pCurCoroutine p) = Some (RemoveEventA fd ev # as)"
      using f r by (auto simp: rt_abs_def left_of_def current_def fun_eq_iff split: option.split)
    then show ?thesis using rt_call [of "fst (rt_abs p)" "pCurCoroutine p" _ as "pending p"] f(3)
      by (simp add: rt_abs_def)
  qed
  ultimately show ?thesis using f(7) by (simp add: good_step_def)
qed

lemma act_go_new_good:
  assumes inv: "proc_inv p" and r: "pr_running p = Some (GoNewA stack func # as)" and c: "cur_co p = Inr c"
    and io: "io_ok i p"
  shows "mostly (good_step p) (ubind (goNewCo i stack func p) (\<lambda>p. Inr (p\<lparr>pr_running := Some as\<rparr>)))"
proof (rule mostly_bind [OF goNewCo_run [OF inv io]], elim conjE exE, unfold mostly_Inr)
  fix p' :: processor and n
  let ?p = "p'\<lparr>pr_running := Some as\<rparr>" and ?x = "coroutine_new stack func (pr_idCounter p)"
  assume p': "proc_inv p'" "co_objs p n = None" "co_objs p' = (co_objs p)(n \<mapsto> ?x)"
    "pending p' = pending p @ [n]" "coSet p' = coSet p" "removedCo p' = removedCo p"
    "pr_pc p' = pr_pc p" "pr_running p' = pr_running p" "pCurCoroutine p' = pCurCoroutine p"
    "blockedCo p' = blockedCo p"
  have co: "co_objs p (pCurCoroutine p) = Some c" using c by (simp add: cur_co_def of_opt_eq_Inr)
  then have ne: "n \<noteq> pCurCoroutine p" using p'(2) by auto
  have "proc_inv ?p"
    using p'(1,7,8) r running_inv(3,4) [OF inv r]
    by (auto simp: proc_inv_def place_inv_def pending_def dead_def current_def split: if_splits)
  moreover have "fst (rt_abs ?p) = (fst (rt_abs p))(pCurCoroutine p \<mapsto> as, n \<mapsto> func)"
    using p' r co ne
    by (auto simp: rt_abs_def left_of_def current_def fun_eq_iff code_left_def split: option.split)
  moreover have "fst (rt_abs p) (pCurCoroutine p) = Some (GoNewA stack func # as)" "fst (rt_abs p) n = None"
    using r co p'(2) by (simp_all add: rt_abs_def left_of_def current_def)
  moreover have "pending ?p = pending p @ [n]" using p'(4) by (simp add: pending_def)
  ultimately show "good_step p ?p"
    using rt_go [of "fst (rt_abs p)" "pCurCoroutine p" stack func as n "pending p"] p'(10)
    by (simp add: good_step_def rt_abs_def)
qed

lemma act_step_good:
  assumes inv: "proc_inv p" and r: "pr_running p = Some code" and io: "io_ok i p"
  shows "mostly (good_step p) (act_step i code p)"
proof -
  obtain c where c: "cur_co p = Inr c" using running_inv(5) [OF inv r] by blast
  show ?thesis
  proof (cases code)
    case Nil
    then show ?thesis using act_return_good [OF inv _ c] r by simp
  next
    case co: (Cons a as)
    show ?thesis
    proof (cases a)
      case YieldA
      then show ?thesis using switched_step [OF inv _ c] r co by (simp add: pr_yield_run [OF c])
    next
      case (WaitA time)
      then show ?thesis using act_wait_good [OF inv _ c] r co by simp
    next
      case BlockedYieldA
      then show ?thesis using act_blocked_good [OF inv _ c] r co by simp
    next
      case (WaitEventA fd ev)
      then show ?thesis using act_wait_event_good [OF inv _ c] r co by simp
    next
      case (RemoveEventA fd ev)
      then show ?thesis using act_remove_event_good [OF inv _ c] r co by simp
    next
      case (GoNewA stack func)
      then show ?thesis using act_go_new_good [OF inv _ c io] r co by simp
    qed
  qed
qed

section \<open>The steps of the loop\<close>

lemma idle_inv:
  assumes "proc_inv p" "pr_running p = None"
  shows "core_inv (coPool p) (coSet p) (pending p) (dead p) None"
  using assms by (simp add: proc_inv_def current_def)

text \<open>The state after the switch into \<open>c\<close>.\<close>

definition entered :: "co_ptr \<Rightarrow> coroutine \<Rightarrow> co_act list option \<Rightarrow> processor \<Rightarrow> processor" where
  "entered c x run p = (set_co c x (p\<lparr>pCurCoroutine := c\<rparr>))\<lparr>pr_running := run\<rparr>"

lemma entered_simps [simp]:
  "coPool (entered c x run p) = obj_put c x (coPool p)" "coSet (entered c x run p) = coSet p"
  "pending (entered c x run p) = pending p" "dead (entered c x run p) = dead p"
  "blockedCo (entered c x run p) = blockedCo p" "pr_running (entered c x run p) = run"
  "pr_pc (entered c x run p) = pr_pc p" "pCurCoroutine (entered c x run p) = c"
  "current (entered c x run p) = (if run = None then None else Some c)"
  by (simp_all add: entered_def set_co_def pending_def dead_def current_def)

lemma entered_place:
  assumes "place_inv p" "run = None \<or> pr_pc p \<noteq> AtEnd \<and> (\<forall>rest. pr_pc p \<noteq> AtRemove rest)"
  shows "place_inv (entered c x run p)"
  using assms by (auto simp: place_inv_def entered_def set_co_def dead_def)

lemma left_of_enter:
  assumes "objs c = Some x" "code_left x = code" "pool = obj_put c y pool0" "objs = op_objs pool0"
  shows "left_of (op_objs pool) (Some c) (Some code) = left_of objs None None"
  using assms by (auto simp: left_of_def obj_put_def fun_eq_iff split: option.split)

lemma resume_good:
  assumes inv: "proc_inv p" and r: "pr_running p = None"
    and pc: "pr_pc p \<noteq> AtEnd" "\<And>rest. pr_pc p \<noteq> AtRemove rest"
  shows "mostly (good_step p) (pr_resume c p)"
proof (cases "c = 0 \<or> c \<notin> coSet p")
  case True
  then show ?thesis using inv by (auto simp: pr_resume_def good_step_idle)
next
  case False
  note I = idle_inv [OF inv r]
  have pl: "place_inv p" using inv by (simp add: proc_inv_def)
  have c: "c \<in> coSet p" using False by simp
  obtain x where x: "co_objs p c = Some x" "if c \<in> set (dead p) then co_status x = CO_RUNNING
      else co_status x = CO_WAITING \<and> ctx (co_ctx x) \<noteq> None"
    using core_invD(9) [OF I c] by auto
  have run: "pr_resume c p = ubind (co_resume x) (\<lambda>(y, run). Inr (entered c y run p))"
    using False x(1) by (simp add: pr_resume_def Let_def cur_co_def entered_def set_co_def)
  show ?thesis
  proof (cases "c \<in> set (dead p)")
    case True
    then have "co_resume x = Inr (x, None)" using x(2) by (simp add: co_resume_other)
    moreover have "good_step p (entered c x None p)"
    proof (rule good_step_idle)
      show "proc_inv (entered c x None p)"
        using core_same [OF I x(1)] entered_place [OF pl] by (simp add: proc_inv_def)
      show "rt_abs (entered c x None p) = rt_abs p"
        using r x(1) by (auto simp: rt_abs_def left_of_def current_def obj_put_def fun_eq_iff)
    qed simp
    ultimately show ?thesis by (simp add: run)
  next
    case nd: False
    then obtain u where u: "co_status x = CO_WAITING" "ctx (co_ctx x) = Some u" using x(2) by auto
    let ?y = "x\<lparr>co_status := CO_RUNNING\<rparr>"
    have "good_step p (entered c ?y (Some (uc_code u)) p)"
    proof (rule good_step_idle)
      show "proc_inv (entered c ?y (Some (uc_code u)) p)"
        using core_resume [OF I c _ nd, of ?y] entered_place [OF pl] pc by (simp add: proc_inv_def)
      have "code_left x = uc_code u" using u by (simp add: code_left_def)
      from left_of_enter [OF x(1) this refl refl]
      show "rt_abs (entered c ?y (Some (uc_code u)) p) = rt_abs p"
        using r by (simp add: rt_abs_def current_def)
    qed simp
    then show ?thesis by (simp add: run co_resume_waiting [OF u])
  qed
qed

lemma loop_new_good:
  assumes inv: "proc_inv p" and r: "pr_running p = None" and pc: "pr_pc p = AtNew"
  shows "mostly (good_step p) (loop_new p)"
proof (cases "newCoroutines p (runningNewQue p)")
  case Nil
  note I = idle_inv [OF inv r]
  let ?p = "p\<lparr>pr_pc := AtAct (actCoroutines p)\<rparr>"
  have "proc_inv ?p"
    using inv Nil pc r by (auto simp: proc_inv_def place_inv_def pending_def dead_def current_def)
  moreover have "rt_abs ?p = rt_abs p" by (simp add: rt_abs_def pending_def current_def)
  ultimately show ?thesis using Nil by (simp add: loop_new_def good_step_idle)
next
  case (Cons c rest)
  note I = idle_inv [OF inv r]
  let ?Q = "rest @ newCoroutines p (\<not> runningNewQue p)"
  have q: "pending p = c # ?Q" using Cons by (simp add: pending_def)
  obtain x where x: "co_objs p c = Some x" "co_status x = CO_READY"
    using core_invD(8) [OF I, of c] q by auto
  obtain y where y: "co_resume x = Inr (y, Some (coFunc x))" "co_status y = CO_RUNNING"
    using co_resume_ready [OF x(2)] by blast
  let ?p = "p\<lparr>newCoroutines := (newCoroutines p)(runningNewQue p := rest), coSet := insert c (coSet p)\<rparr>"
  have c0: "c \<noteq> 0" using obj_pool_nonzero [OF core_invD(1) [OF I] x(1)] .
  have run: "loop_new p = Inr (entered c y (Some (coFunc x)) ?p)"
    using Cons c0 x(1) y(1)
    by (simp add: loop_new_def pr_resume_def Let_def cur_co_def entered_def set_co_def)
  have Q': "pending ?p = ?Q" by (simp add: pending_def)
  have d: "dead ?p = dead p" by (simp add: dead_def)
  have "core_inv (obj_put c y (coPool p)) (insert c (coSet p)) ?Q (dead p) (Some c)"
    using core_start [OF I [unfolded q] y(2)] .
  moreover have "place_inv ?p" using inv pc by (auto simp: proc_inv_def place_inv_def dead_def)
  then have "place_inv (entered c y (Some (coFunc x)) ?p)" using pc by (intro entered_place) simp_all
  ultimately have "proc_inv (entered c y (Some (coFunc x)) ?p)" by (simp add: proc_inv_def Q' d)
  moreover have "rt_step (rt_abs p) (rt_abs (entered c y (Some (coFunc x)) ?p))"
  proof -
    have "code_left x = coFunc x" using x(2) by (simp add: code_left_def)
    from left_of_enter [OF x(1) this refl refl]
    have "rt_abs (entered c y (Some (coFunc x)) ?p) = (fst (rt_abs p), ?Q)"
      using r Q' by (simp add: rt_abs_def current_def)
    then show ?thesis using rt_start [of "fst (rt_abs p)" c ?Q] q by (simp add: rt_abs_def)
  qed
  ultimately show ?thesis by (simp add: run good_step_def)
qed

lemma loop_remove_good:
  assumes inv: "proc_inv p" and pc: "pr_pc p = AtRemove (c # rest)"
  shows "mostly (good_step p) (loop_remove c rest p)"
proof -
  have r: "pr_running p = None" using inv pc by (auto simp: proc_inv_def place_inv_def)
  have d: "dead p = c # rest" using pc by (simp add: dead_def)
  note I = idle_inv [OF inv r, unfolded d]
  note D = core_invD [OF I]
  obtain pool where p: "delete_obj False c (coPool p) = Inr pool"
    "core_inv pool (coSet p - {c}) (pending p) rest None" "op_objs pool = (co_objs p)(c := None)"
    using core_delete [OF I] by blast
  let ?p = "p\<lparr>coSet := coSet p - {c}, coPool := pool, pr_pc := AtRemove rest\<rparr>"
  have f: "pending ?p = pending p" "dead ?p = rest" "current ?p = None"
    using r by (simp_all add: pending_def dead_def current_def)
  obtain gone where g: "removedCo p = gone @ c # rest" "set gone \<inter> coSet p = {}"
    using inv d by (auto simp: proc_inv_def place_inv_def)
  have "place_inv ?p"
    using inv f(2) r g pc by (auto simp: proc_inv_def place_inv_def intro!: exI [of _ "gone @ [c]"])
  then have "proc_inv ?p" using p(2) f by (simp add: proc_inv_def)
  moreover have "rt_step (rt_abs p) (rt_abs ?p)"
  proof -
    obtain x where x: "co_objs p c = Some x" "co_status x = CO_RUNNING" using D(7,9) by fastforce
    have "fst (rt_abs p) c = Some []"
      using x r by (simp add: rt_abs_def left_of_def current_def code_left_def)
    moreover have "c \<notin> set (pending p)" using D(5,7) by auto
    moreover have "fst (rt_abs ?p) = (fst (rt_abs p))(c := None)"
      using p(3) r by (auto simp: rt_abs_def left_of_def current_def fun_eq_iff)
    ultimately show ?thesis
      using rt_gone [of "fst (rt_abs p)" c "pending p"] f(1) by (simp add: rt_abs_def)
  qed
  ultimately show ?thesis by (simp add: loop_remove_def p(1) good_step_def)
qed

text \<open>The steps that only move the loop on.\<close>

lemma move_good:
  assumes inv: "proc_inv p" and r: "pr_running p = None"
    and q: "coPool q = coPool p" "coSet q = coSet p" "pending q = pending p" "dead q = dead p"
      "pr_running q = None" "blockedCo q = blockedCo p" "place_inv q"
  shows "good_step p q"
proof (rule good_step_idle)
  show "proc_inv q" using inv r q by (simp add: proc_inv_def current_def)
  show "rt_abs q = rt_abs p" using r q by (simp add: rt_abs_def current_def)
qed (use q in simp)

lemma pc_good:
  assumes "proc_inv p" "pr_running p = None" "pr_pc p \<noteq> AtNew" "pr_pc p \<noteq> AtEnd"
    "\<And>rest. pr_pc p \<noteq> AtRemove rest" "pc \<noteq> AtEnd" "\<And>rest. pc \<noteq> AtRemove rest"
  shows "good_step p (p\<lparr>pr_pc := pc\<rparr>)" "pr_running (p\<lparr>pr_pc := pc\<rparr>) = None"
    "proc_inv (p\<lparr>pr_pc := pc\<rparr>)"
proof -
  have d: "dead_of pc (removedCo p) = removedCo p" "dead_of (pr_pc p) (removedCo p) = removedCo p"
    using assms by (auto simp: dead_of_def split: loop_pc.split)
  show "good_step p (p\<lparr>pr_pc := pc\<rparr>)"
    by (rule move_good [OF assms(1,2)])
      (use assms d in \<open>auto simp: pending_def dead_def place_inv_def proc_inv_def\<close>)
  then show "proc_inv (p\<lparr>pr_pc := pc\<rparr>)" by (simp add: good_step_def)
qed (use assms in simp)

lemma resume_at_good:
  assumes "proc_inv p" "pr_running p = None" "pr_pc p \<noteq> AtNew" "pr_pc p \<noteq> AtEnd"
    "\<And>rest. pr_pc p \<noteq> AtRemove rest" "pc \<noteq> AtEnd" "\<And>rest. pc \<noteq> AtRemove rest"
  shows "mostly (good_step p) (pr_resume c (p\<lparr>pr_pc := pc\<rparr>))"
proof -
  note P = pc_good [OF assms]
  have a: "rt_abs (p\<lparr>pr_pc := pc\<rparr>) = rt_abs p" by (simp add: rt_abs_def pending_def current_def)
  show ?thesis
    by (rule mostly_mono [OF resume_good [OF P(3,2)]])
      (use assms(6,7) a in \<open>auto intro: good_step_trans_frame\<close>)
qed

lemma loop_head_good:
  assumes "proc_inv p" "pr_running p = None" "pr_pc p = AtHead"
  shows "mostly (good_step p) (loop_head i p)"
proof (cases "pr_status p = PRO_RUNNING")
  case False
  then show ?thesis
    using move_good [OF assms(1,2), of "p\<lparr>pr_status := PRO_STOPPED, pr_pc := AtEnd\<rparr>"] assms
    by (auto simp: loop_head_def pending_def dead_def place_inv_def proc_inv_def)
next
  case True
  obtain e act r where g: "getActEvServ (io_events i) (io_errno i) [] (pr_epoller p) = (e, act, r)"
    by (cases "getActEvServ (io_events i) (io_errno i) [] (pr_epoller p)")
  show ?thesis
    using True assms(3) g
    by (auto simp: loop_head_def Let_def intro!: move_good [OF assms(1,2)])
      (use assms in \<open>auto simp: pending_def dead_def place_inv_def proc_inv_def\<close>)
qed

lemma loop_body_good:
  assumes inv: "proc_inv p" and r: "pr_running p = None"
  shows "mostly (good_step p) (loop_body i (pr_pc p) p)"
proof -
  have mv: "good_step p q" if "coPool q = coPool p" "coSet q = coSet p" "pending q = pending p"
      "dead q = dead p" "pr_running q = None" "blockedCo q = blockedCo p" "place_inv q" for q
    using move_good [OF inv r that] .
  have pl: "place_inv p" using inv by (simp add: proc_inv_def)
  show ?thesis
  proof (cases "pr_pc p")
    case AtHead
    then show ?thesis using loop_head_good [OF inv r] by simp
  next
    case (AtBlocked cs)
    show ?thesis
    proof (cases cs)
      case Nil
      have "good_step p (p\<lparr>pr_timer := t, timerExpiredCo := ex, pr_pc := AtTimer ex\<rparr>)" for t ex
        by (rule mv) (use AtBlocked pl r in \<open>auto simp: pending_def dead_def place_inv_def\<close>)
      then show ?thesis
        using AtBlocked Nil mostly_bind [OF mostly_getExpired]
        by (auto simp: loop_timer_def intro!: mostly_bind [OF mostly_getExpired] split: prod.split)
    next
      case (Cons c cs')
      then show ?thesis using AtBlocked resume_at_good [OF inv r] by simp
    qed
  next
    case (AtTimer cs)
    show ?thesis
    proof (cases cs)
      case Nil
      have "newCoroutines p (runningNewQue p) = []" using pl AtTimer by (simp add: place_inv_def)
      then have "good_step p (loop_swap p)"
        by (intro mv) (use AtTimer pl r in \<open>auto simp: pending_def dead_def place_inv_def loop_swap_def\<close>)
      then show ?thesis using AtTimer Nil by simp
    next
      case (Cons c cs')
      then show ?thesis using AtTimer resume_at_good [OF inv r] by simp
    qed
  next
    case AtNew
    then show ?thesis using loop_new_good [OF inv r] by simp
  next
    case (AtAct cs)
    show ?thesis
    proof (cases cs)
      case Nil
      have "good_step p (p\<lparr>pr_pc := AtRemove (removedCo p)\<rparr>)"
        by (rule mv) (use AtAct pl r in \<open>auto simp: pending_def dead_def place_inv_def\<close>)
      then show ?thesis using AtAct Nil by simp
    next
      case (Cons c cs')
      then show ?thesis using AtAct resume_at_good [OF inv r] by simp
    qed
  next
    case (AtRemove cs)
    show ?thesis
    proof (cases cs)
      case Nil
      have "good_step p (p\<lparr>removedCo := [], pr_pc := AtHead\<rparr>)"
        by (rule mv) (use AtRemove Nil pl r in \<open>auto simp: pending_def dead_def place_inv_def\<close>)
      then show ?thesis using AtRemove Nil by simp
    next
      case (Cons c cs')
      then show ?thesis using AtRemove loop_remove_good [OF inv] by simp
    qed
  next
    case AtEnd
    then show ?thesis using good_step_idle [OF inv] by simp
  qed
qed

end
