(* ===== verification/ProcessorProps.thy ===== *)
theory ProcessorProps
  imports ProcessorInv
begin

text \<open>
  The reachable states of a processor, with other threads calling \<open>goNewCo\<close> and \<open>stop\<close> between
  any two steps of its loop, and the properties of the processor.
\<close>

section \<open>Reachable states\<close>

inductive proc_step :: "processor \<Rightarrow> processor \<Rightarrow> bool" where
  ps_loop: "pr_pc p = AtEnd \<Longrightarrow> pr_loop efd tfd ctl p = (p', ok) \<Longrightarrow> proc_step p p'"
| ps_step: "io_ok i p \<Longrightarrow> loop_step i p = Inr p' \<Longrightarrow> proc_step p p'"
| ps_spawn: "io_ok i p \<Longrightarrow> goNewCo i stack func p = Inr p' \<Longrightarrow> proc_step p p'"
| ps_stop: "proc_step p (pr_stop p)"

inductive proc_reach :: "nat \<Rightarrow> int \<Rightarrow> processor \<Rightarrow> bool" for n tid where
  pr_new: "proc_reach n tid (processor_new n tid)"
| pr_next: "proc_reach n tid p \<Longrightarrow> proc_step p p' \<Longrightarrow> proc_reach n tid p'"

lemma loop_step_good:
  assumes "proc_inv p" "io_ok i p"
  shows "mostly (good_step p) (loop_step i p)"
  using loop_body_good [OF assms(1)] act_step_good [OF assms(1) _ assms(2)]
  by (cases "pr_running p") (auto simp: loop_step_def)

lemma proc_core: "proc_inv p \<Longrightarrow> core_inv (coPool p) (coSet p) (pending p) (dead p) (current p)"
  by (simp add: proc_inv_def)

lemma current_live:
  assumes "proc_inv p" "current p = Some c"
  shows "co_objs p c \<noteq> None"
proof -
  note D = core_invD [OF proc_core [OF assms(1)]]
  from D(10) [OF assms(2)] D(9) [of c] show ?thesis by auto
qed

lemma spawn_good:
  assumes inv: "proc_inv p" and io: "io_ok i p"
  shows "mostly (good_step p) (goNewCo i stack func p)"
proof (rule mostly_mono [OF goNewCo_run [OF inv io]], elim conjE exE)
  fix p' :: processor and r
  let ?x = "coroutine_new stack func (pr_idCounter p)"
  assume p': "proc_inv p'" "co_objs p r = None" "co_objs p' = (co_objs p)(r \<mapsto> ?x)"
    "pending p' = pending p @ [r]" "pr_running p' = pr_running p" "pCurCoroutine p' = pCurCoroutine p"
    "blockedCo p' = blockedCo p"
  have "current p \<noteq> Some r"
    using current_live [OF inv] p'(2) by blast
  then have "fst (rt_abs p') = (fst (rt_abs p))(r \<mapsto> func)"
    using p' by (auto simp: rt_abs_def left_of_def current_def fun_eq_iff code_left_def split: option.split)
  moreover have "fst (rt_abs p) r = None" using p'(2) by (simp add: rt_abs_def left_of_def)
  ultimately show "good_step p p'"
    using rt_spawn [of "fst (rt_abs p)" r "pending p" func] p' by (simp add: good_step_def rt_abs_def)
qed

lemma pr_loop_frame:
  "pr_loop efd tfd ctl p = (p', ok) \<Longrightarrow>
   coPool p' = coPool p \<and> coSet p' = coSet p \<and> newCoroutines p' = newCoroutines p \<and>
   runningNewQue p' = runningNewQue p \<and> removedCo p' = removedCo p \<and> blockedCo p' = blockedCo p \<and>
   pr_running p' = pr_running p \<and> (pr_pc p' = pr_pc p \<or> pr_pc p' = AtHead)"
  by (auto simp: pr_loop_def Let_def split: prod.splits if_splits)

lemma pr_loop_good:
  assumes inv: "proc_inv p" and pc: "pr_pc p = AtEnd" and l: "pr_loop efd tfd ctl p = (p', ok)"
  shows "good_step p p'"
proof -
  have r: "pr_running p = None" using inv pc by (simp add: proc_inv_def place_inv_def)
  have pl: "place_inv p" using inv by (simp add: proc_inv_def)
  note F = pr_loop_frame [OF l]
  have d: "dead p' = dead p" "pending p' = pending p" using F pc by (auto simp: dead_def pending_def)
  have "place_inv p'" using pl F pc d r by (auto simp: place_inv_def)
  with F d r show ?thesis by (intro move_good [OF inv r]) auto
qed

lemma proc_step_good: "proc_step p p' \<Longrightarrow> proc_inv p \<Longrightarrow> good_step p p'"
proof (induction rule: proc_step.induct)
  case (ps_loop p efd tfd ctl p' ok)
  then show ?case using pr_loop_good by blast
next
  case (ps_step i p p')
  then show ?case using loop_step_good [of p i] by simp
next
  case (ps_spawn i p stack func p')
  then show ?case using spawn_good [of p i stack func] by simp
next
  case (ps_stop p)
  then show ?case by (simp add: pr_stop_def good_step_idle)
qed

lemma proc_reach_inv: "proc_reach n tid p \<Longrightarrow> proc_inv p"
  by (induction rule: proc_reach.induct) (auto simp: proc_inv_new good_step_def dest: proc_step_good)

lemma waiting_saved:
  assumes "proc_reach n tid p" "co_objs p c = Some x" "co_status x = CO_WAITING"
  shows "ctx (co_ctx x) \<noteq> None"
proof -
  have C: "core_inv (coPool p) (coSet p) (pending p) (dead p) (current p)"
    using proc_reach_inv [OF assms(1)] by (simp add: proc_inv_def)
  note D = core_invD [OF C]
  have "c \<in> coSet p \<or> c \<in> set (pending p)" using D(3) assms(2) by auto
  then show ?thesis using D(8) [of c] D(9) [of c] assms(2,3) by (auto split: if_splits)
qed

section \<open>Counting\<close>

lemma getCoCnt_formula:
  assumes inv: "proc_inv p"
  shows "getCoCnt p = u64 (int (card (coSet p - set (dead p))) -
    int (length (removedCo p) - length (dead p)))"
proof -
  have C: "core_inv (coPool p) (coSet p) (pending p) (dead p) (current p)"
    using inv by (simp add: proc_inv_def)
  note D = core_invD [OF C]
  obtain gone where g: "removedCo p = gone @ dead p"
    using inv by (auto simp: proc_inv_def place_inv_def)
  have "card (coSet p - set (dead p)) = card (coSet p) - length (dead p)"
    using D(6,7) by (simp add: card_Diff_subset distinct_card)
  moreover have "length (dead p) \<le> card (coSet p)"
    using D(2,6,7) by (metis card_mono distinct_card)
  ultimately show ?thesis using g by (simp add: getCoCnt_def algebra_simps)
qed

section \<open>Passes\<close>

text \<open>How far a pass has come: the phase, the list it goes through, the code that runs.\<close>

definition pass_phase :: "loop_pc \<Rightarrow> nat" where
  "pass_phase pc = (case pc of AtHead \<Rightarrow> 0 | AtEnd \<Rightarrow> 0 | AtRemove _ \<Rightarrow> 1 | AtAct _ \<Rightarrow> 2 | AtNew \<Rightarrow> 3
     | AtTimer _ \<Rightarrow> 4 | AtBlocked _ \<Rightarrow> 5)"

definition to_go :: "processor \<Rightarrow> nat" where
  "to_go p = (case pr_pc p of AtBlocked l \<Rightarrow> length l | AtTimer l \<Rightarrow> length l | AtAct l \<Rightarrow> length l
     | AtRemove l \<Rightarrow> length l | AtNew \<Rightarrow> length (newCoroutines p (runningNewQue p)) | _ \<Rightarrow> 0)"

definition to_run :: "processor \<Rightarrow> nat" where
  "to_run p = (case pr_running p of None \<Rightarrow> 0 | Some code \<Rightarrow> Suc (length code))"

definition pass_left :: "processor \<Rightarrow> nat \<times> nat \<times> nat" where
  "pass_left p = (pass_phase (pr_pc p), to_go p, to_run p)"

definition pass_less :: "((nat \<times> nat \<times> nat) \<times> (nat \<times> nat \<times> nat)) set" where
  "pass_less = less_than <*lex*> (less_than <*lex*> less_than)"

lemma wf_pass_less: "wf pass_less"
  by (simp add: pass_less_def wf_lex_prod)

lemma to_go_cong:
  "pr_pc p' = pr_pc p \<Longrightarrow> newCoroutines p' (runningNewQue p') = newCoroutines p (runningNewQue p) \<Longrightarrow>
   to_go p' = to_go p"
  by (simp add: to_go_def split: loop_pc.split)

lemma swap_out_frame:
  "swap_out code p = Inr p' \<Longrightarrow> pr_pc p' = pr_pc p \<and> newCoroutines p' = newCoroutines p \<and>
     runningNewQue p' = runningNewQue p \<and> pr_running p' = None"
  by (auto simp: swap_out_def)

lemma pr_yield_frame:
  "pr_yield code p = Inr p' \<Longrightarrow> pr_pc p' = pr_pc p \<and> newCoroutines p' = newCoroutines p \<and>
     runningNewQue p' = runningNewQue p \<and> pr_running p' = None"
  by (auto simp: pr_yield_def dest!: swap_out_frame)

lemma goNewCo_frame:
  "goNewCo i stack func p = Inr p' \<Longrightarrow> pr_pc p' = pr_pc p \<and>
     newCoroutines p' (runningNewQue p') = newCoroutines p (runningNewQue p)"
  by (auto simp: goNewCo_def goCo_def wakeUpEpoller_def Let_def split: prod.splits)

lemma act_step_frame:
  assumes "act_step i code p = Inr p'"
  shows "pr_pc p' = pr_pc p \<and> newCoroutines p' (runningNewQue p') = newCoroutines p (runningNewQue p) \<and>
    to_run p' < Suc (length code)"
proof (cases code)
  case Nil
  then show ?thesis using assms by (auto simp: co_wrap_end_def killCurCo_def to_run_def)
next
  case (Cons a as)
  then show ?thesis
    using assms
    by (cases a)
      (auto simp: to_run_def pr_wait_def blocked_yield_def waitEvent_add_def waitEvent_remove_def Let_def
        split: prod.splits dest!: pr_yield_frame swap_out_frame goNewCo_frame)
qed

lemma pr_resume_frame:
  "pr_resume c p = Inr p' \<Longrightarrow> pr_pc p' = pr_pc p \<and> newCoroutines p' = newCoroutines p \<and>
     runningNewQue p' = runningNewQue p"
  by (auto simp: pr_resume_def Let_def split: if_splits prod.splits)

lemma loop_step_less:
  assumes s: "loop_step i p = Inr p'" and pc: "pr_pc p \<noteq> AtHead" "pr_pc p \<noteq> AtEnd"
  shows "(pass_left p', pass_left p) \<in> pass_less"
proof (cases "pr_running p")
  case (Some code)
  then have a: "act_step i code p = Inr p'" using s by (simp add: loop_step_def)
  from act_step_frame [OF a] to_go_cong [of p' p] Some show ?thesis
    by (simp add: pass_left_def pass_less_def to_run_def [of p])
next
  case None
  then have b: "loop_body i (pr_pc p) p = Inr p'" using s by (simp add: loop_step_def)
  have res: "(pass_left p', pass_left p) \<in> pass_less"
    if "pr_resume c (p\<lparr>pr_pc := q\<rparr>) = Inr p'" "pass_phase q = pass_phase (pr_pc p)" "to_go (p\<lparr>pr_pc := q\<rparr>) < to_go p" for c q
    using pr_resume_frame [OF that(1)] that(2,3) to_go_cong [of p' "p\<lparr>pr_pc := q\<rparr>"]
    by (simp add: pass_left_def pass_less_def)
  show ?thesis
  proof (cases "pr_pc p")
    case AtHead
    then show ?thesis using pc by simp
  next
    case (AtBlocked l)
    then show ?thesis
      using b res
      by (cases l) (auto simp: pass_phase_def to_go_def loop_timer_def pass_left_def pass_less_def split: prod.splits)
  next
    case (AtTimer l)
    then show ?thesis
      using b res by (cases l) (auto simp: pass_phase_def to_go_def loop_swap_def pass_left_def pass_less_def)
  next
    case AtNew
    show ?thesis
    proof (cases "newCoroutines p (runningNewQue p)")
      case Nil
      then show ?thesis using b AtNew by (auto simp: loop_new_def pass_phase_def pass_left_def pass_less_def)
    next
      case (Cons c rest)
      let ?p = "p\<lparr>newCoroutines := (newCoroutines p)(runningNewQue p := rest), coSet := insert c (coSet p)\<rparr>"
      have "pr_resume c ?p = Inr p'" using b AtNew Cons by (simp add: loop_new_def)
      from pr_resume_frame [OF this] AtNew Cons show ?thesis
        by (simp add: pass_left_def pass_less_def to_go_def pass_phase_def)
    qed
  next
    case (AtAct l)
    then show ?thesis
      using b res by (cases l) (auto simp: pass_phase_def to_go_def pass_left_def pass_less_def)
  next
    case (AtRemove l)
    then show ?thesis
      using b by (cases l) (auto simp: pass_phase_def to_go_def pass_left_def pass_less_def loop_remove_def)
  next
    case AtEnd
    then show ?thesis using pc by simp
  qed
qed

section \<open>Properties\<close>

text \<open>
  C8: a processor implements a set of sequential programs, in every reachable state, whatever
  its coroutines call, the system answers, stale events name and other threads call in between:
  each step runs at most one call of one coroutine, in the order of its code, starts the
  coroutines in the order they were created in, and destroys none that has not ended; and no
  step uses a destroyed coroutine, an uninitialised context or the pool wrongly: the only thing
  that can go wrong is a clock so far off that a time overflows 64 bits.
\<close>

theorem processor_refines:
  assumes "proc_reach n tid p" "io_ok i p"
  shows "(\<forall>p'. loop_step i p = Inr p' \<longrightarrow> rt_step (rt_abs p) (rt_abs p')) \<and>
    (\<forall>e. loop_step i p = Inl e \<longrightarrow> e = SignedOverflow) \<and>
    (\<forall>stack func p'. goNewCo i stack func p = Inr p' \<longrightarrow> rt_step (rt_abs p) (rt_abs p')) \<and>
    (\<forall>stack func e. goNewCo i stack func p = Inl e \<longrightarrow> e = SignedOverflow)"
proof -
  note inv = proc_reach_inv [OF assms(1)]
  have m: "mostly Q r \<Longrightarrow> r = Inr x \<Longrightarrow> Q x" "mostly Q r \<Longrightarrow> r = Inl e \<Longrightarrow> e = SignedOverflow"
    for Q :: "processor \<Rightarrow> bool" and r x e by auto
  show ?thesis
    using m [OF loop_step_good [OF inv assms(2)]] m [OF spawn_good [OF inv assms(2)]]
    by (auto simp: good_step_def)
qed

text \<open>
  C35: a coroutine object is queued and ready, or finished and about to be destroyed, or the one
  that runs, or waiting with a saved context: its status says which, none is in two places or
  queued twice, and none is lost.
\<close>

theorem coroutine_places:
  assumes "proc_reach n tid p" "co_objs p c = Some x"
  shows "(co_status x = CO_READY \<longleftrightarrow> c \<in> set (pending p)) \<and>
    (co_status x = CO_RUNNING \<longleftrightarrow> c \<in> set (dead p) \<or> current p = Some c) \<and>
    (co_status x = CO_WAITING \<longleftrightarrow> c \<in> coSet p \<and> c \<notin> set (dead p) \<and> current p \<noteq> Some c) \<and>
    co_status x \<noteq> CO_DEAD \<and> (co_status x = CO_WAITING \<longrightarrow> ctx (co_ctx x) \<noteq> None) \<and>
    \<not> (c \<in> set (dead p) \<and> current p = Some c) \<and> distinct (pending p) \<and> distinct (dead p)"
proof -
  have C: "core_inv (coPool p) (coSet p) (pending p) (dead p) (current p)"
    using proc_reach_inv [OF assms(1)] by (simp add: proc_inv_def)
  note D = core_invD [OF C]
  have "c \<in> coSet p \<or> c \<in> set (pending p)" using D(3) assms(2) by auto
  then show ?thesis
    using D(4-7) D(8) [of c] D(9) [of c] D(10) [of c] assms(2) by (auto split: if_splits)
qed

text \<open>The started coroutines that have not finished, and the destroyed ones still on the list.\<close>

definition unfinished :: "processor \<Rightarrow> nat" where
  "unfinished p = card (coSet p - set (dead p))"

definition erased :: "processor \<Rightarrow> nat" where
  "erased p = length (removedCo p) - length (dead p)"

text \<open>
  \<open>getCoCnt\<close> counts the coroutines that have started and not finished, except while the
  loop destroys finished ones: then each that is already destroyed is subtracted a second time,
  and when there are more of those than unfinished ones the count wraps around 64 bits (to
  18446744073709551615 with one and no other, as the witness shows by a run).
\<close>

theorem getCoCnt_counts:
  assumes "proc_reach n tid p"
  shows "getCoCnt p = u64 (int (unfinished p) - int (erased p)) \<and>
    ((\<forall>rest. pr_pc p \<noteq> AtRemove rest) \<longrightarrow> erased p = 0)"
  using getCoCnt_formula [OF proc_reach_inv [OF assms]]
  by (auto simp: unfinished_def erased_def dead_def dead_of_def split: loop_pc.split)



section \<open>Witnesses\<close>

definition demo_io :: io where
  "demo_io = \<lparr>io_events = None, io_errno = 0, io_ctl = 0, io_now = 5, io_now' = 5, io_ret = 0,
     io_base = 1000\<rparr>"

text \<open>A processor whose loop has started, and one coroutine created on it.\<close>

definition demo_start :: processor where
  "demo_start = fst (pr_loop 3 4 0 (processor_new 16 0))"

lemma demo_start_simps [simp]:
  "pr_status demo_start = PRO_RUNNING" "newCoroutines demo_start = (\<lambda>_. [])"
  "runningNewQue demo_start = False" "coSet demo_start = {}" "blockedCo demo_start = (\<lambda>_. [])"
  "blockingCoIdx demo_start = False" "removedCo demo_start = []" "coPool demo_start = obj_pool_new 16"
  "pr_pc demo_start = AtHead" "pr_running demo_start = None" "pr_idCounter demo_start = 0"
  "timerCoHeap (pr_timer demo_start) = []"
  by (simp_all add: demo_start_def pr_loop_def processor_new_def epoller_init_def epoller_new_def
      isEpollFdUseful_def timer_init_def timer_new_def isTimeFdUseful_def addEv_def Let_def)

lemma demo_start_reach: "proc_reach 16 0 demo_start"
proof -
  have "proc_step (processor_new 16 0) demo_start"
    by (rule ps_loop [of _ 3 4 0 _ "snd (pr_loop 3 4 0 (processor_new 16 0))"])
      (simp_all add: processor_new_def demo_start_def)
  with pr_new show ?thesis by (rule pr_next)
qed

lemma demo_start_io: "io_ok demo_io demo_start"
  by (simp add: io_ok_def malloc_ok_def demo_io_def obj_pool_new_def mempool_new_def)

lemma demo_wakeUp: "\<exists>t'. wakeUp 5 5 0 t = Inr t' \<and> timerCoHeap t' = timerCoHeap t"
  by (simp add: wakeUp_def resetTimeOfTimefd_def timeIntervalFromNow_def chk64_def in64_def)

lemma demo_spawn:
  "\<exists>p r. goNewCo demo_io st code demo_start = Inr p \<and> proc_reach 16 0 p \<and> r \<noteq> 0 \<and>
     co_objs p = [r \<mapsto> coroutine_new st code 0] \<and> pr_status p = PRO_RUNNING \<and>
     newCoroutines p = (\<lambda>_. [])(True := [r]) \<and> runningNewQue p = False \<and> coSet p = {} \<and>
     blockedCo p = (\<lambda>_. []) \<and> blockingCoIdx p = False \<and> removedCo p = [] \<and> pr_pc p = AtHead \<and>
     pr_running p = None \<and> timerCoHeap (pr_timer p) = []"
proof -
  have m: "malloc_ok (io_base demo_io) (op_memPool (coPool demo_start))"
    using demo_start_io by (simp add: io_ok_def)
  have "obj_pool_ok (coPool demo_start)" "op_objs (coPool demo_start) = (\<lambda>_. None)"
    by (simp_all) (simp add: obj_pool_new_def)
  with opool.new_ok [OF _ m, of "coroutine_new st code 0"] obtain pool r where
    n: "new_obj False (io_base demo_io) (coroutine_new st code 0) (coPool demo_start) = Inr (pool, r)"
    "r \<noteq> 0" "op_objs pool = [r \<mapsto> coroutine_new st code 0]"
    by auto
  obtain t where t: "wakeUp 5 5 0 (pr_timer demo_start) = Inr t" "timerCoHeap t = []"
    using demo_wakeUp [of "pr_timer demo_start"] by auto
  let ?p = "demo_start\<lparr>coPool := pool, pr_idCounter := 1, newCoroutines := (\<lambda>_. [])(True := [r]), pr_timer := t\<rparr>"
  have g: "goNewCo demo_io st code demo_start = Inr ?p"
    using n(1) t(1) by (simp add: goNewCo_def goCo_def wakeUpEpoller_def Let_def demo_io_def)
  have "proc_reach 16 0 ?p"
    using demo_start_reach ps_spawn [OF demo_start_io g] by (rule pr_next)
  with g n t show ?thesis by (intro exI [of _ ?p] exI [of _ r]) simp
qed

lemma demo_goes: "\<exists>p. goNewCo demo_io st code demo_start = Inr p"
  using demo_spawn [of st code] by blast

text \<open>A step that allocates nothing can be made whatever \<open>malloc\<close> would answer.\<close>

lemma malloc_exists: "\<exists>b. malloc_ok b mp"
proof -
  let ?b = "Suc (sum_list (map (\<lambda>c. fst c + snd c) (mp_mallocs mp)))"
  have "fst c + snd c \<le> ?b" if "c \<in> set (mp_mallocs mp)" for c
    using member_le_sum_list [of "fst c + snd c" "map (\<lambda>c. fst c + snd c) (mp_mallocs mp)"] that by force
  then have "malloc_ok ?b mp" by (auto simp: malloc_ok_def ranges_apart_def)
  then show ?thesis ..
qed

lemma io_base_unused:
  assumes "\<And>stack func code. pr_running p \<noteq> Some (GoNewA stack func # code)"
  shows "loop_step (i\<lparr>io_base := b\<rparr>) p = loop_step i p"
proof (cases "pr_running p")
  case None
  then show ?thesis
    by (cases "(i, pr_pc p, p)" rule: loop_body.cases)
      (auto simp: loop_step_def loop_head_def loop_timer_def)
next
  case (Some code)
  then show ?thesis
    using assms by (cases "(i, code, p)" rule: act_step.cases)
      (auto simp: loop_step_def pr_wait_def waitEvent_add_def waitEvent_remove_def)
qed

lemma quiet_step:
  assumes "proc_reach n tid p" "\<And>stack func code. pr_running p \<noteq> Some (GoNewA stack func # code)"
    and "loop_step i p = Inr p'"
  shows "proc_reach n tid p'"
proof -
  obtain b where "malloc_ok b (op_memPool (coPool p))" using malloc_exists by blast
  then have "proc_step p p'"
    using ps_step [of "i\<lparr>io_base := b\<rparr>" p p'] assms(3) io_base_unused [OF assms(2)]
    by (simp add: io_ok_def)
  with assms(1) show ?thesis by (rule pr_next)
qed

text \<open>The life of a coroutine: created, polled for, started, finished, destroyed.\<close>

definition demo_at ::
  "co_ptr \<Rightarrow> co_ptr list \<Rightarrow> bool \<Rightarrow> co_ptr set \<Rightarrow> co_ptr list \<Rightarrow> loop_pc \<Rightarrow> co_act list option \<Rightarrow> processor \<Rightarrow> bool" where
  "demo_at r q rn S rm pc run p \<longleftrightarrow>
     proc_reach 16 0 p \<and> pr_status p = PRO_RUNNING \<and> newCoroutines p True = q \<and>
     newCoroutines p False = [] \<and> runningNewQue p = rn \<and> coSet p = S \<and> blockedCo p = (\<lambda>_. []) \<and> removedCo p = rm \<and>
     pr_pc p = pc \<and> pr_running p = run \<and> timerCoHeap (pr_timer p) = [] \<and> r \<noteq> 0"

lemma demo_started:
  "\<exists>p r x. demo_at r [] True {r} [] AtNew (Some code) p \<and> actCoroutines p = [] \<and>
     co_objs p = [r \<mapsto> x] \<and> pCurCoroutine p = r"
proof -
  obtain p0 r where s0: "proc_reach 16 0 p0" "r \<noteq> 0" "co_objs p0 = [r \<mapsto> coroutine_new 131072 code 0]"
    "pr_status p0 = PRO_RUNNING" "newCoroutines p0 = (\<lambda>_. [])(True := [r])" "runningNewQue p0 = False"
    "coSet p0 = {}" "blockedCo p0 = (\<lambda>_. [])" "removedCo p0 = []" "pr_pc p0 = AtHead"
    "pr_running p0 = None" "timerCoHeap (pr_timer p0) = []"
    using demo_spawn [of 131072 code] by blast
  then have p0: "demo_at r [r] False {} [] AtHead None p0"
    "co_objs p0 = [r \<mapsto> coroutine_new 131072 code 0]" by (simp_all add: demo_at_def)
  note sims = demo_at_def loop_step_def
  obtain p1 where s1: "loop_step demo_io p0 = Inr p1" and
    p1: "actCoroutines p1 = []" "coPool p1 = coPool p0" "demo_at r [r] False {} [] (AtBlocked []) None p1"
  proof -
    obtain e act n where g: "getActEvServ None 0 [] (pr_epoller p0) = (e, act, n)"
      by (cases "getActEvServ None 0 [] (pr_epoller p0)")
    then have "act = []" by (auto simp: getActEvServ_def split: if_splits)
    with g p0(1) that quiet_step [of 16 0 p0 demo_io] show ?thesis
      by (simp add: sims loop_head_def demo_io_def)
  qed
  obtain p2 where "loop_step demo_io p1 = Inr p2" and
    p2: "actCoroutines p2 = []" "coPool p2 = coPool p0" "demo_at r [r] False {} [] (AtTimer []) None p2"
  proof -
    have "timerExpiredCo p1 = []"
      using s1 p0(1) by (auto simp: sims loop_head_def split: prod.splits)
    with p1 that quiet_step [of 16 0 p1 demo_io] show ?thesis
      by (simp add: sims loop_timer_def getExpiredCoroutines_def)
  qed
  let ?p3 = "loop_swap p2"
  have p3: "actCoroutines ?p3 = []" "coPool ?p3 = coPool p0" "demo_at r [r] True {} [] AtNew None ?p3"
    using p2 quiet_step [of 16 0 p2 demo_io] by (simp_all add: sims loop_swap_def)
  obtain x where x: "co_resume (coroutine_new 131072 code 0) = Inr (x, Some code)"
    using co_resume_ready [of "coroutine_new 131072 code 0"] by auto
  let ?q3 = "?p3\<lparr>newCoroutines := (newCoroutines ?p3)(True := []), coSet := {r}\<rparr>"
  let ?p4 = "entered r x (Some code) ?q3"
  have "loop_step demo_io ?p3 = Inr ?p4"
    using p3 p0(2) x
    by (simp add: sims loop_new_def pr_resume_def cur_co_def Let_def entered_def set_co_def)
  then have "proc_reach 16 0 ?p4" using p3(3) quiet_step [of 16 0 ?p3 demo_io] by (simp add: demo_at_def)
  then have p4: "actCoroutines ?p4 = []" "co_objs ?p4 = [r \<mapsto> x]" "pCurCoroutine ?p4 = r"
    "demo_at r [] True {r} [] AtNew (Some code) ?p4"
    using p3 p0(2) by (simp_all add: demo_at_def entered_def set_co_def obj_put_def)
  then show ?thesis by blast
qed

lemma demo_life: "\<exists>p r. demo_at r [] True {} [r] (AtRemove []) None p"
proof -
  obtain p4 r x where p4: "actCoroutines p4 = []" "co_objs p4 = [r \<mapsto> x]" "pCurCoroutine p4 = r"
    "demo_at r [] True {r} [] AtNew (Some []) p4"
    using demo_started [of "[]"] by blast
  note sims = demo_at_def loop_step_def
  let ?p5 = "co_wrap_end p4"
  have p5: "actCoroutines ?p5 = []" "co_objs ?p5 r = Some x" "demo_at r [] True {r} [r] AtNew None ?p5"
    using p4 quiet_step [of 16 0 p4 demo_io] by (simp_all add: sims co_wrap_end_def killCurCo_def)
  let ?p6 = "?p5\<lparr>pr_pc := AtAct []\<rparr>"
  have p6: "co_objs ?p6 r = Some x" "demo_at r [] True {r} [r] (AtAct []) None ?p6"
    using p5 quiet_step [of 16 0 ?p5 demo_io] by (simp_all add: sims loop_new_def)
  let ?p7 = "?p6\<lparr>pr_pc := AtRemove [r]\<rparr>"
  have p7: "co_objs ?p7 r = Some x" "demo_at r [] True {r} [r] (AtRemove [r]) None ?p7"
    using p6 quiet_step [of 16 0 ?p6 demo_io] by (simp_all add: sims)
  let ?p8 = "?p7\<lparr>coSet := {}, coPool := coPool ?p7\<lparr>op_objs := (co_objs ?p7)(r := None),
      op_memPool := FreeAMemBlock r (op_memPool (coPool ?p7))\<rparr>, pr_pc := AtRemove []\<rparr>"
  have "demo_at r [] True {} [r] (AtRemove []) None ?p8"
    using p7 quiet_step [of 16 0 ?p7 demo_io]
    by (simp add: sims loop_remove_def delete_obj_def delete_aux_def)
  then show ?thesis by blast
qed

lemma getCoCnt_counts_witness:
  "\<exists>p. proc_reach 16 0 p \<and> coSet p = {} \<and> getCoCnt p = 18446744073709551615"
proof -
  obtain p r where p: "demo_at r [] True {} [r] (AtRemove []) None p" using demo_life by blast
  then have r: "proc_reach 16 0 p" by (simp add: demo_at_def)
  have "unfinished p = 0" "erased p = 1"
    using p by (simp_all add: demo_at_def unfinished_def erased_def dead_def)
  with getCoCnt_counts [OF r] p r show ?thesis by (auto simp: demo_at_def u64_def)
qed

lemma processor_refines_witness:
  "proc_reach 16 0 demo_start \<and>
   (\<exists>p'. goNewCo demo_io 131072 [YieldA] demo_start = Inr p' \<and> rt_step (rt_abs demo_start) (rt_abs p'))"
  using processor_refines [OF demo_start_reach demo_start_io] demo_spawn [of 131072 "[YieldA]"] demo_start_reach
  by blast

lemma coroutine_places_witness:
  "\<exists>p r. proc_reach 16 0 p \<and> r \<in> set (pending p)"
proof -
  obtain p r where p: "proc_reach 16 0 p" "co_objs p r = Some (coroutine_new 131072 [] 0)"
    using demo_spawn [of 131072 "[]"] by auto
  from coroutine_places [OF this] p(1) show ?thesis by auto
qed

lemma demo_blocked: "\<exists>p r b. proc_reach 16 0 p \<and> r \<in> set (blockedCo p b)"
proof -
  obtain p r x where p: "demo_at r [] True {r} [] AtNew (Some [BlockedYieldA]) p"
    "co_objs p = [r \<mapsto> x]" "pCurCoroutine p = r"
    using demo_started [of "[BlockedYieldA]"] by blast
  let ?q = "p\<lparr>blockedCo := (blockedCo p)(blockingCoIdx p := blockedCo p (blockingCoIdx p) @ [r])\<rparr>"
  have "loop_step demo_io p = Inr (switched [] x ?q)"
    using p pr_yield_run [of ?q x "[]"]
    by (simp add: loop_step_def demo_at_def blocked_yield_def Let_def cur_co_def)
  then have "proc_reach 16 0 (switched [] x ?q)"
    using p(1) quiet_step [of 16 0 p demo_io] by (simp add: demo_at_def)
  moreover have "r \<in> set (blockedCo (switched [] x ?q) (blockingCoIdx p))"
    by (simp add: switched_def Let_def)
  ultimately show ?thesis by blast
qed


end
