(* ===== verification/Scheduler.thy ===== *)
theory Scheduler
  imports ProcessorProps
begin

text \<open>
  \<open>ProcessorSelector\<close>, \<open>Scheduler\<close> and the functions of \<open>netco_api\<close>
  (\<open>src/processor_selector.cc\<close>, \<open>src/scheduler.cc\<close>, \<open>src/netco_api.cc\<close>): choosing the processor
  of a new coroutine and handing it over. A processor is its index in \<open>processors_\<close>; the
  selector refers to that vector. The single instance and its double-checked lock are the
  option in \<open>getScheduler\<close>.
\<close>

section \<open>State and operations\<close>

datatype schedule_strategy = MIN_EVENT_FIRST | ROUND_ROBIN

record selector =
  curPro :: int
  strategy :: schedule_strategy

definition selector_new :: selector where
  "selector_new = \<lparr>curPro = -1, strategy = ROUND_ROBIN\<rparr>"

definition setStrategy :: "schedule_strategy \<Rightarrow> selector \<Rightarrow> selector" where
  "setStrategy st s = s\<lparr>strategy := st\<rparr>"

text \<open>The loop for the least count: index and count of the best so far, from index \<open>i\<close> on.\<close>

fun min_loop :: "int list \<Rightarrow> nat \<Rightarrow> nat \<Rightarrow> int \<Rightarrow> nat" where
  "min_loop [] i minCoProIdx minCoCnt = minCoProIdx"
| "min_loop (coCnt # cnts) i minCoProIdx minCoCnt =
     (if coCnt < minCoCnt then min_loop cnts (i + 1) i coCnt
      else min_loop cnts (i + 1) minCoProIdx minCoCnt)"

definition next_pro :: "processor list \<Rightarrow> selector \<Rightarrow> selector \<times> nat option" where
  "next_pro processors s =
     (let n = length processors in
      if n = 0 then (s, None)
      else case strategy s of
          MIN_EVENT_FIRST \<Rightarrow>
            let cnts = map getCoCnt processors; s = s\<lparr>curPro := int (min_loop (tl cnts) 1 0 (hd cnts))\<rparr>
            in (s, Some (nat (curPro s)))
        | ROUND_ROBIN \<Rightarrow>
            let s = s\<lparr>curPro := curPro s + 1\<rparr>; s = (if curPro s \<ge> int n then s\<lparr>curPro := 0\<rparr> else s)
            in (s, Some (nat (curPro s))))"

record scheduler =
  processors :: "processor list"
  proSelector :: selector

definition scheduler_new :: scheduler where
  "scheduler_new = \<lparr>processors = [], proSelector = selector_new\<rparr>"

text \<open>
  \<open>startScheduler\<close>: \<open>sys i\<close> are the two file descriptors and the result of \<open>epoll_ctl\<close> that
  processor \<open>i\<close> gets. \<open>wait_thread_ready\<close> returns only if the thread has been started.
\<close>

fun start_loop :: "nat \<Rightarrow> (nat \<Rightarrow> int \<times> int \<times> int) \<Rightarrow> nat \<Rightarrow> processor list \<Rightarrow> processor list res" where
  "start_loop coSize sys 0 ps = Inr ps"
| "start_loop coSize sys (Suc k) ps =
     (let i = length ps; (efd, tfd, ctl) = sys i;
          (p, started) = pr_loop efd tfd ctl (processor_new coSize (int i))
      in if started then start_loop coSize sys k (ps @ [p]) else Inl Diverge)"

definition startScheduler ::
  "nat \<Rightarrow> (nat \<Rightarrow> int \<times> int \<times> int) \<Rightarrow> nat \<Rightarrow> scheduler \<Rightarrow> scheduler res" where
  "startScheduler coSize sys threadCnt sc =
     ubind (start_loop coSize sys threadCnt (processors sc)) (\<lambda>ps. Inr (sc\<lparr>processors := ps\<rparr>))"

definition getScheduler ::
  "nat \<Rightarrow> (nat \<Rightarrow> int \<times> int \<times> int) \<Rightarrow> nat \<Rightarrow> scheduler option \<Rightarrow> scheduler res" where
  "getScheduler coSize sys defaultThreadNum pScher =
     (case pScher of
        Some sc \<Rightarrow> Inr sc
      | None \<Rightarrow> startScheduler coSize sys defaultThreadNum scheduler_new)"

definition getProCnt :: "scheduler \<Rightarrow> int" where
  "getProCnt sc = int (length (processors sc))"

text \<open>A call on the processor at an index of the vector, which is not checked.\<close>

definition on_processor :: "int \<Rightarrow> (processor \<Rightarrow> processor res) \<Rightarrow> scheduler \<Rightarrow> scheduler res" where
  "on_processor k f sc =
     (if 0 \<le> k \<and> k < getProCnt sc
      then ubind (f (processors sc ! nat k)) (\<lambda>p. Inr (sc\<lparr>processors := (processors sc)[nat k := p]\<rparr>))
      else Inl OutOfBounds)"

definition createNewCo :: "io \<Rightarrow> co_act list \<Rightarrow> nat \<Rightarrow> scheduler \<Rightarrow> scheduler res" where
  "createNewCo i func stack sc =
     (let (s, k) = next_pro (processors sc) (proSelector sc); sc = sc\<lparr>proSelector := s\<rparr> in
      case k of
        None \<Rightarrow> Inl NullDeref
      | Some k \<Rightarrow> on_processor (int k) (goNewCo i stack func) sc)"

definition co_go :: "io \<Rightarrow> co_act list \<Rightarrow> nat \<Rightarrow> int \<Rightarrow> scheduler \<Rightarrow> scheduler res" where
  "co_go i func stack tid sc =
     (if tid < 0 then createNewCo i func stack sc
      else if getProCnt sc = 0 then Inl DivByZero
      else on_processor (tid mod getProCnt sc) (goNewCo i stack func) sc)"

text \<open>The calls of a running coroutine, on the processor of its thread.\<close>

definition co_sleep :: "io \<Rightarrow> ms_time \<Rightarrow> co_act list \<Rightarrow> int \<Rightarrow> scheduler \<Rightarrow> scheduler res" where
  "co_sleep i time code threadIdx sc = on_processor threadIdx (pr_wait i time code) sc"

definition co_blocked_yield :: "co_act list \<Rightarrow> int \<Rightarrow> scheduler \<Rightarrow> scheduler res" where
  "co_blocked_yield code threadIdx sc = on_processor threadIdx (blocked_yield code) sc"

definition getThisCoId :: "int \<Rightarrow> scheduler \<Rightarrow> int res" where
  "getThisCoId threadIdx sc =
     (if threadIdx \<ge> 0 then
        if threadIdx < getProCnt sc then
          let p = processors sc ! nat threadIdx in
          if getCurRunningCo p \<noteq> 0 then ubind (cur_co p) (\<lambda>c. Inr (coId c)) else Inr (-1)
        else Inl OutOfBounds
      else Inr (-1))"

fun join_all :: "processor list \<Rightarrow> processor list res" where
  "join_all [] = Inr []"
| "join_all (p # ps) = ubind (pr_join p) (\<lambda>p. ubind (join_all ps) (\<lambda>ps. Inr (p # ps)))"

definition sche_join :: "scheduler \<Rightarrow> scheduler res" where
  "sche_join sc = ubind (join_all (processors sc)) (\<lambda>ps. Inr (sc\<lparr>processors := ps\<rparr>))"

text \<open>
  The destructor. Between the calls of \<open>stop\<close> and of \<open>join\<close> the threads run on; \<open>run\<close> is the
  state in which each leaves its processor.
\<close>

fun destroy_all :: "processor list \<Rightarrow> unit res" where
  "destroy_all [] = Inr ()"
| "destroy_all (p # ps) = ubind (pr_join p) (\<lambda>p. ubind (pr_destroy p) (\<lambda>_. destroy_all ps))"

definition sche_destroy :: "(processor \<Rightarrow> processor) \<Rightarrow> scheduler \<Rightarrow> unit res" where
  "sche_destroy run sc = destroy_all (map (run \<circ> pr_stop) (processors sc))"

section \<open>Choosing a processor\<close>

lemma min_loop_spec:
  "min_loop cnts i b m = k \<Longrightarrow> b < i \<Longrightarrow>
   (k = b \<and> (\<forall>x \<in> set cnts. m \<le> x)) \<or>
   (i \<le> k \<and> k < i + length cnts \<and> cnts ! (k - i) < m \<and>
    (\<forall>x \<in> set cnts. cnts ! (k - i) \<le> x) \<and> (\<forall>j < k - i. cnts ! (k - i) < cnts ! j))"
proof (induction cnts arbitrary: i b m)
  case Nil
  then show ?case by simp
next
  case (Cons c cnts)
  show ?case
  proof (cases "c < m")
    case True
    then have "min_loop cnts (i + 1) i c = k" using Cons.prems by simp
    from Cons.IH [OF this] have d: "k = i \<and> (\<forall>x \<in> set cnts. c \<le> x) \<or>
        i + 1 \<le> k \<and> k < i + 1 + length cnts \<and> cnts ! (k - (i + 1)) < c \<and>
        (\<forall>x \<in> set cnts. cnts ! (k - (i + 1)) \<le> x) \<and>
        (\<forall>j < k - (i + 1). cnts ! (k - (i + 1)) < cnts ! j)" by simp
    then show ?thesis
    proof
      assume "k = i \<and> (\<forall>x \<in> set cnts. c \<le> x)"
      then show ?thesis using True by simp
    next
      assume a: "i + 1 \<le> k \<and> k < i + 1 + length cnts \<and> cnts ! (k - (i + 1)) < c \<and>
        (\<forall>x \<in> set cnts. cnts ! (k - (i + 1)) \<le> x) \<and>
        (\<forall>j < k - (i + 1). cnts ! (k - (i + 1)) < cnts ! j)"
      then have "i + 1 \<le> k" by blast
      then have s: "k - i = Suc (k - (i + 1))" by simp
      show ?thesis using a True unfolding s by (auto simp: nth_Cons split: nat.split)
    qed
  next
    case False
    then have "min_loop cnts (i + 1) b m = k" "b < i + 1" using Cons.prems by simp_all
    from Cons.IH [OF this] False show ?thesis
    proof (elim disjE conjE)
      assume a: "i + 1 \<le> k" "k < i + 1 + length cnts" "cnts ! (k - (i + 1)) < m"
        "\<forall>x \<in> set cnts. cnts ! (k - (i + 1)) \<le> x" "\<forall>j < k - (i + 1). cnts ! (k - (i + 1)) < cnts ! j"
      then have s: "k - i = Suc (k - (i + 1))" by simp
      show ?thesis using a False unfolding s by (auto simp: nth_Cons split: nat.split)
    qed simp
  qed
qed

text \<open>The indices that \<open>m\<close> calls of \<open>next\<close> return, the counts as they are at each.\<close>

fun rr_run :: "processor list list \<Rightarrow> selector \<Rightarrow> nat option list" where
  "rr_run [] s = []"
| "rr_run (ps # pss) s = (let (s, k) = next_pro ps s in k # rr_run pss s)"

lemma next_pro_round_robin:
  assumes "strategy s = ROUND_ROBIN" "-1 \<le> curPro s" "curPro s < int n" "length ps = n" "0 < n"
  shows "next_pro ps s = (s\<lparr>curPro := (curPro s + 1) mod int n\<rparr>, Some (nat ((curPro s + 1) mod int n)))"
proof -
  have "(curPro s + 1) mod int n = (if curPro s + 1 \<ge> int n then 0 else curPro s + 1)"
  proof (cases "curPro s + 1 \<ge> int n")
    case True
    then have "curPro s + 1 = int n" using assms(3) by simp
    then show ?thesis by simp
  next
    case False
    then show ?thesis using assms(2) by simp
  qed
  moreover have "ps \<noteq> []" using assms(4,5) by auto
  ultimately show ?thesis using assms by (simp add: next_pro_def Let_def)
qed

lemma rr_run_indices:
  "strategy s = ROUND_ROBIN \<Longrightarrow> -1 \<le> curPro s \<Longrightarrow> curPro s < int n \<Longrightarrow> 0 < n \<Longrightarrow>
   \<forall>ps \<in> set pss. length ps = n \<Longrightarrow>
   rr_run pss s = map (\<lambda>i. Some (nat ((curPro s + 1 + int i) mod int n))) [0..<length pss]"
proof (induction pss arbitrary: s)
  case Nil
  then show ?case by simp
next
  case (Cons ps pss)
  let ?s = "s\<lparr>curPro := (curPro s + 1) mod int n\<rparr>"
  have "rr_run pss ?s = map (\<lambda>i. Some (nat ((curPro ?s + 1 + int i) mod int n))) [0..<length pss]"
    by (rule Cons.IH) (use Cons.prems pos_mod_bound [of "int n"] in \<open>auto simp: order.trans [of "-1" 0]\<close>)
  moreover have "((curPro s + 1) mod int n + 1 + int i) mod int n = (curPro s + 1 + int (Suc i)) mod int n" for i
  proof -
    have "((curPro s + 1) mod int n + 1 + int i) mod int n = ((curPro s + 1) mod int n + (1 + int i)) mod int n"
      by (simp only: add.assoc)
    also have "\<dots> = (curPro s + 1 + (1 + int i)) mod int n" by (rule mod_add_left_eq)
    finally show ?thesis by (simp add: ac_simps)
  qed
  moreover have "[0..<length (ps # pss)] = 0 # map Suc [0..<length pss]"
    by (simp add: upt_conv_Cons map_Suc_upt del: upt_Suc)
  ultimately show ?case
    using next_pro_round_robin [of s n ps] Cons.prems by (simp del: upt_Suc)
qed

lemma mod_window_inj:
  assumes "0 < n" "i < n" "j < n" "(c + int i) mod int n = (c + int j) mod int n"
  shows "i = j"
proof -
  have "int n dvd (c + int i) - (c + int j)" using assms(4) by (simp add: mod_eq_dvd_iff)
  then have d: "int n dvd int i - int j" by simp
  have "\<bar>int i - int j\<bar> < int n" using assms(2,3) by linarith
  moreover have "int i - int j \<noteq> 0 \<Longrightarrow> int n \<le> \<bar>int i - int j\<bar>"
    using dvd_imp_le_int [OF _ d] by simp
  ultimately show ?thesis by fastforce
qed

section \<open>The end of the scheduler\<close>

text \<open>
  It can be destroyed only when every thread has ended and no coroutine is left: the
  destructor of a processor deletes coroutines that live in its pool.
\<close>

lemma destroy_all_clean:
  "destroy_all ps = Inr () \<longleftrightarrow> (\<forall>p \<in> set ps. pr_pc p = AtEnd \<and> coSet p = {})"
  by (induction ps) (auto simp: pr_join_def pr_destroy_def pr_stop_def Let_def)

lemma sche_destroy_clean:
  "sche_destroy run sc = Inr () \<longleftrightarrow>
     (\<forall>p \<in> set (processors sc). pr_pc (run (pr_stop p)) = AtEnd \<and> coSet (run (pr_stop p)) = {})"
  by (simp add: sche_destroy_def destroy_all_clean)

section \<open>Handing over a coroutine\<close>

definition sched_ok :: "scheduler \<Rightarrow> bool" where
  "sched_ok sc \<longleftrightarrow> (\<forall>p \<in> set (processors sc). proc_inv p) \<and>
     -1 \<le> curPro (proSelector sc) \<and> curPro (proSelector sc) < max 1 (int (length (processors sc)))"

lemma next_pro_range:
  assumes "next_pro ps s = (s', k)" "ps \<noteq> []" "-1 \<le> curPro s"
  shows "\<exists>j. k = Some j \<and> j < length ps \<and> curPro s' = int j"
proof (cases "strategy s")
  case ROUND_ROBIN
  then show ?thesis using assms by (auto simp: next_pro_def Let_def)
next
  case MIN_EVENT_FIRST
  obtain p qs where p: "ps = p # qs" using assms(2) by (cases ps) auto
  from min_loop_spec [of "map getCoCnt qs" 1 0 "getCoCnt p"]
  have "min_loop (map getCoCnt qs) 1 0 (getCoCnt p) < length ps" using p by auto
  then show ?thesis using assms(1) MIN_EVENT_FIRST p by (auto simp: next_pro_def Let_def)
qed

text \<open>One more coroutine, queued last on processor \<open>k\<close>, and nothing else changed.\<close>

definition handed_over :: "nat \<Rightarrow> co_act list \<Rightarrow> nat \<Rightarrow> scheduler \<Rightarrow> scheduler \<Rightarrow> bool" where
  "handed_over stack func k sc sc' \<longleftrightarrow>
     k < length (processors sc) \<and> length (processors sc') = length (processors sc) \<and>
     (\<forall>j. j < length (processors sc) \<longrightarrow> j \<noteq> k \<longrightarrow> processors sc' ! j = processors sc ! j) \<and>
     (\<exists>r x. co_objs (processors sc ! k) r = None \<and>
        co_objs (processors sc' ! k) = (co_objs (processors sc ! k))(r \<mapsto> x) \<and>
        coFunc x = func \<and> stackSize (co_ctx x) = stack \<and>
        pending (processors sc' ! k) = pending (processors sc ! k) @ [r])"

lemma on_processor_go:
  assumes ok: "sched_ok sc" and k: "k < length (processors sc)"
    and io: "io_ok i (processors sc ! k)"
  shows "mostly (\<lambda>sc'. sched_ok sc' \<and> handed_over stack func k sc sc' \<and> proSelector sc' = proSelector sc)
    (on_processor (int k) (goNewCo i stack func) sc)"
proof -
  have inv: "proc_inv (processors sc ! k)" using ok k by (simp add: sched_ok_def)
  have "mostly (\<lambda>p. sched_ok (sc\<lparr>processors := (processors sc)[k := p]\<rparr>) \<and>
      handed_over stack func k sc (sc\<lparr>processors := (processors sc)[k := p]\<rparr>))
    (goNewCo i stack func (processors sc ! k))"
  proof (rule mostly_mono [OF goNewCo_run [OF inv io]], elim conjE exE, intro conjI)
    fix p r
    assume p: "proc_inv p" "co_objs (processors sc ! k) r = None"
      "co_objs p = (co_objs (processors sc ! k))(r \<mapsto> coroutine_new stack func (pr_idCounter (processors sc ! k)))"
      "pending p = pending (processors sc ! k) @ [r]"
    show "sched_ok (sc\<lparr>processors := (processors sc)[k := p]\<rparr>)"
      using ok p(1) by (auto simp: sched_ok_def dest!: set_update_subset_insert [THEN subsetD])
    show "handed_over stack func k sc (sc\<lparr>processors := (processors sc)[k := p]\<rparr>)"
      unfolding handed_over_def using k p(2-4)
      by (auto simp: context_new_def intro!: exI [of _ r]
          exI [of _ "coroutine_new stack func (pr_idCounter (processors sc ! k))"])
  qed
  then show ?thesis
    using k by (auto simp: on_processor_def getProCnt_def intro!: mostly_bind)
qed

section \<open>Properties\<close>

text \<open>
  With the round-robin strategy any \<open>n\<close> consecutive choices among \<open>n\<close> processors choose each
  of them exactly once, wherever the selector stands and whatever the processors do meanwhile.
\<close>

theorem round_robin_fair:
  assumes "strategy s = ROUND_ROBIN" "-1 \<le> curPro s" "curPro s < int n" "0 < n"
    and "length pss = n" "\<forall>ps \<in> set pss. length ps = n"
  shows "distinct (rr_run pss s) \<and> set (rr_run pss s) = Some ` {0..<n}"
proof -
  let ?f = "\<lambda>i. nat ((curPro s + 1 + int i) mod int n)"
  have r: "rr_run pss s = map (\<lambda>i. Some (?f i)) [0..<n]"
    using rr_run_indices [OF assms(1-4,6)] assms(5) by simp
  have lt: "?f i < n" for i using assms(4) by (simp add: nat_less_iff)
  have inj: "inj_on ?f {0..<n}"
  proof (rule inj_onI)
    fix i j assume ij: "i \<in> {0..<n}" "j \<in> {0..<n}" "?f i = ?f j"
    then have "(curPro s + 1 + int i) mod int n = (curPro s + 1 + int j) mod int n"
      using assms(4) by (simp add: nat_eq_iff)
    then show "i = j" using mod_window_inj [OF assms(4)] ij(1,2) by simp
  qed
  have "?f ` {0..<n} \<subseteq> {0..<n}" using lt by auto
  then have im: "?f ` {0..<n} = {0..<n}" using inj by (intro endo_inj_surj) auto
  have "inj_on (\<lambda>i. Some (?f i)) {0..<n}" using inj by (simp add: inj_on_def)
  moreover have "(\<lambda>i. Some (?f i)) ` {0..<n} = Some ` (?f ` {0..<n})" by (simp only: image_image)
  then have "(\<lambda>i. Some (?f i)) ` {0..<n} = Some ` {0..<n}" by (simp only: im)
  ultimately show ?thesis unfolding r by (simp add: distinct_map)
qed

text \<open>
  With the other strategy the choice is the first processor with the least count of
  coroutines, as \<open>getCoCnt\<close> gives it.
\<close>

theorem min_event_first_least:
  assumes "strategy s = MIN_EVENT_FIRST" "ps \<noteq> []"
  shows "\<exists>s' k. next_pro ps s = (s', Some k) \<and> k < length ps \<and>
    (\<forall>j < length ps. getCoCnt (ps ! k) \<le> getCoCnt (ps ! j)) \<and>
    (\<forall>j < k. getCoCnt (ps ! k) < getCoCnt (ps ! j))"
proof -
  obtain p qs where p: "ps = p # qs" using assms(2) by (cases ps) auto
  define k where "k = min_loop (map getCoCnt qs) 1 0 (getCoCnt p)"
  have n: "next_pro ps s = (s\<lparr>curPro := int k\<rparr>, Some k)"
    using assms(1) p by (simp add: next_pro_def Let_def k_def)
  from min_loop_spec [OF k_def [symmetric]] have
    "k = 0 \<and> (\<forall>x \<in> set qs. getCoCnt p \<le> getCoCnt x) \<or>
     (1 \<le> k \<and> k < 1 + length qs \<and> map getCoCnt qs ! (k - 1) < getCoCnt p \<and>
      (\<forall>x \<in> set qs. map getCoCnt qs ! (k - 1) \<le> getCoCnt x) \<and>
      (\<forall>j < k - 1. map getCoCnt qs ! (k - 1) < map getCoCnt qs ! j))" by simp
  then have "k < length ps \<and> (\<forall>j < length ps. getCoCnt (ps ! k) \<le> getCoCnt (ps ! j)) \<and>
    (\<forall>j < k. getCoCnt (ps ! k) < getCoCnt (ps ! j))"
  proof (elim disjE conjE)
    assume "k = 0" "\<forall>x \<in> set qs. getCoCnt p \<le> getCoCnt x"
    then show ?thesis using p by (auto simp: nth_Cons split: nat.split)
  next
    assume a: "1 \<le> k" "k < 1 + length qs" "map getCoCnt qs ! (k - 1) < getCoCnt p"
      "\<forall>x \<in> set qs. map getCoCnt qs ! (k - 1) \<le> getCoCnt x"
      "\<forall>j < k - 1. map getCoCnt qs ! (k - 1) < map getCoCnt qs ! j"
    then obtain m where m: "k = Suc m" "m < length qs" by (cases k) auto
    then show ?thesis using a p by (auto simp: nth_Cons split: nat.split)
  qed
  with n show ?thesis by blast
qed

text \<open>
  C38: \<open>co_go\<close> queues exactly one new coroutine, with the function and the stack size it is
  given, last in line on one processor (the one of index \<open>tid\<close> modulo their number, if \<open>tid\<close> is
  given), changes no other processor and keeps every invariant.
\<close>

theorem co_go_hands_over:
  assumes "sched_ok sc" "processors sc \<noteq> []" "\<forall>p \<in> set (processors sc). io_ok i p"
  shows "mostly (\<lambda>sc'. sched_ok sc' \<and>
      (\<exists>k. handed_over stack func k sc sc' \<and>
           (0 \<le> tid \<longrightarrow> k = nat (tid mod int (length (processors sc))))))
    (co_go i func stack tid sc)"
proof (cases "tid < 0")
  case False
  let ?k = "nat (tid mod int (length (processors sc)))"
  have k: "?k < length (processors sc)" using assms(2) by (simp add: nat_less_iff)
  have "int ?k = tid mod int (length (processors sc))" using assms(2) by simp
  then have "co_go i func stack tid sc = on_processor (int ?k) (goNewCo i stack func) sc"
    using False assms(2) by (simp add: co_go_def getProCnt_def)
  moreover have "io_ok i (processors sc ! ?k)" using assms(3) k by simp
  from on_processor_go [OF assms(1) k this, of stack func] have
    "mostly (\<lambda>sc'. sched_ok sc' \<and> (\<exists>k. handed_over stack func k sc sc' \<and>
        (0 \<le> tid \<longrightarrow> k = ?k))) (on_processor (int ?k) (goNewCo i stack func) sc)"
    by (rule mostly_mono) blast
  ultimately show ?thesis by simp
next
  case True
  obtain s k where n: "next_pro (processors sc) (proSelector sc) = (s, k)"
    by (cases "next_pro (processors sc) (proSelector sc)")
  from next_pro_range [OF this assms(2)] assms(1) obtain j where
    j: "k = Some j" "j < length (processors sc)" "curPro s = int j" by (auto simp: sched_ok_def)
  let ?sc = "sc\<lparr>proSelector := s\<rparr>"
  have ok: "sched_ok ?sc" using assms(1) j by (auto simp: sched_ok_def)
  have io: "io_ok i (processors ?sc ! j)" using assms(3) j(2) by simp
  have "co_go i func stack tid sc = on_processor (int j) (goNewCo i stack func) ?sc"
    using True n j(1) by (simp add: co_go_def createNewCo_def)
  moreover have "handed_over stack func k ?sc sc' = handed_over stack func k sc sc'" for k sc'
    by (simp add: handed_over_def)
  moreover have "j < length (processors ?sc)" using j(2) by simp
  from on_processor_go [OF ok this io, of stack func] have
    "mostly (\<lambda>sc'. sched_ok sc' \<and> (\<exists>k. handed_over stack func k ?sc sc' \<and>
        (0 \<le> tid \<longrightarrow> k = nat (tid mod int (length (processors sc))))))
      (on_processor (int j) (goNewCo i stack func) ?sc)"
    by (rule mostly_mono) (use True in auto)
  ultimately show ?thesis by simp
qed

text \<open>A scheduler without processors: \<open>next\<close> returns a null pointer, and \<open>tid\<close> is divided by 0.\<close>

lemma co_go_no_processor:
  "processors sc = [] \<Longrightarrow>
   co_go i func stack tid sc = (if tid < 0 then Inl NullDeref else Inl DivByZero)"
  by (simp add: co_go_def createNewCo_def next_pro_def getProCnt_def)

section \<open>Witnesses\<close>

lemma round_robin_fair_witness:
  "set (rr_run (replicate 3 (replicate 3 demo_start)) selector_new) = {Some 0, Some 1, Some 2}"
proof -
  have "Some ` {0..<3 :: nat} = {Some 0, Some 1, Some 2}" by (auto simp: image_iff)
  then show ?thesis
    using round_robin_fair [of selector_new 3 "replicate 3 (replicate 3 demo_start)"]
    by (simp add: selector_new_def)
qed

lemma min_event_first_least_witness:
  "\<exists>s' k. next_pro [demo_start] (setStrategy MIN_EVENT_FIRST selector_new) = (s', Some k) \<and> k < 1"
  using min_event_first_least [of "setStrategy MIN_EVENT_FIRST selector_new" "[demo_start]"]
  by (auto simp: setStrategy_def)

lemma co_go_hands_over_witness:
  "\<exists>sc'. sched_ok sc' \<and> handed_over 4096 [YieldA] 0 (scheduler_new\<lparr>processors := [demo_start]\<rparr>) sc' \<and>
     co_go demo_io [YieldA] 4096 5 (scheduler_new\<lparr>processors := [demo_start]\<rparr>) = Inr sc'"
proof -
  let ?sc = "scheduler_new\<lparr>processors := [demo_start]\<rparr>"
  have ok: "sched_ok ?sc"
    using proc_reach_inv [OF demo_start_reach]
    by (simp add: sched_ok_def scheduler_new_def selector_new_def)
  have "\<forall>p \<in> set (processors ?sc). io_ok demo_io p" using demo_start_io by simp
  from co_go_hands_over [OF ok _ this, of 4096 "[YieldA]" 5]
  have m: "mostly (\<lambda>sc'. sched_ok sc' \<and> handed_over 4096 [YieldA] 0 ?sc sc')
      (co_go demo_io [YieldA] 4096 5 ?sc)" by simp
  have "\<exists>p. goNewCo demo_io 4096 [YieldA] demo_start = Inr p"
    using demo_goes by blast
  then have "\<exists>sc'. co_go demo_io [YieldA] 4096 5 ?sc = Inr sc'"
    by (auto simp: co_go_def on_processor_def getProCnt_def)
  with m show ?thesis by auto
qed

end
