(* ===== verification/Socket.thy ===== *)
theory Socket
  imports Prelude
begin

text \<open>
  The hooked socket (\<open>src/socket.cc\<close>, \<open>include/socket.h\<close>): operations that would block park the
  coroutine on the poller and try again when it is resumed. What the system calls of one
  operation return, one after the other, is a list; an operation that has used up its list is
  still waiting and has the value \<open>None\<close>, otherwise the value holds the rest of the list. The
  calls of \<open>waitEvent\<close> are kept in order, so that it can be seen when an operation waits.
\<close>

section \<open>Sockets and their options\<close>

record socket =
  sk_fd :: int
  sk_port :: int
  sk_ip :: string

text \<open>What the kernel keeps for a file descriptor, as far as the code sets it.\<close>

record fd_opts =
  fo_nonblock :: bool
  fo_nodelay :: bool
  fo_reuseaddr :: bool
  fo_reuseport :: bool
  fo_keepalive :: bool
  fo_wr_shut :: bool
  fo_closed :: bool

definition fresh_fd :: "bool \<Rightarrow> fd_opts" where
  "fresh_fd nonblock = \<lparr>fo_nonblock = nonblock, fo_nodelay = False, fo_reuseaddr = False,
     fo_reuseport = False, fo_keepalive = False, fo_wr_shut = False, fo_closed = False\<rparr>"

type_synonym fds = "int \<Rightarrow> fd_opts"

definition isUseful :: "socket \<Rightarrow> bool" where
  "isUseful s \<longleftrightarrow> 0 \<le> sk_fd s"

text \<open>
  An option call returns \<open>ret\<close>, which the code passes on; the option is set when it is 0.
\<close>

definition set_opt :: "(fd_opts \<Rightarrow> fd_opts) \<Rightarrow> int \<Rightarrow> socket \<Rightarrow> fds \<Rightarrow> fds \<times> int" where
  "set_opt f ret s k = (if ret = 0 then k(sk_fd s := f (k (sk_fd s))) else k, ret)"

definition setTcpNoDelay :: "bool \<Rightarrow> int \<Rightarrow> socket \<Rightarrow> fds \<Rightarrow> fds \<times> int" where
  "setTcpNoDelay on = set_opt (fo_nodelay_update (\<lambda>_. on))"

definition setReuseAddr :: "bool \<Rightarrow> int \<Rightarrow> socket \<Rightarrow> fds \<Rightarrow> fds \<times> int" where
  "setReuseAddr on = set_opt (fo_reuseaddr_update (\<lambda>_. on))"

definition setReusePort :: "bool \<Rightarrow> int \<Rightarrow> socket \<Rightarrow> fds \<Rightarrow> fds \<times> int" where
  "setReusePort on = set_opt (fo_reuseport_update (\<lambda>_. on))"

definition setKeepAlive :: "bool \<Rightarrow> int \<Rightarrow> socket \<Rightarrow> fds \<Rightarrow> fds \<times> int" where
  "setKeepAlive on = set_opt (fo_keepalive_update (\<lambda>_. on))"

definition setNonBolckSocket :: "int \<Rightarrow> socket \<Rightarrow> fds \<Rightarrow> fds \<times> int" where
  "setNonBolckSocket = set_opt (fo_nonblock_update (\<lambda>_. True))"

definition setBlockSocket :: "int \<Rightarrow> socket \<Rightarrow> fds \<Rightarrow> fds \<times> int" where
  "setBlockSocket = set_opt (fo_nonblock_update (\<lambda>_. False))"

definition shutdownWrite :: "int \<Rightarrow> socket \<Rightarrow> fds \<Rightarrow> fds \<times> int" where
  "shutdownWrite = set_opt (fo_wr_shut_update (\<lambda>_. True))"

text \<open>The two constructors and the destructor. Descriptor 0 is useful, but left blocking.\<close>

definition socket_of_fd :: "int \<Rightarrow> string \<Rightarrow> int \<Rightarrow> int \<Rightarrow> fds \<Rightarrow> socket \<times> fds" where
  "socket_of_fd sockfd ip port ret k =
     (let s = \<lparr>sk_fd = sockfd, sk_port = port, sk_ip = ip\<rparr>
      in (s, if sockfd > 0 then fst (setNonBolckSocket ret s k) else k))"

text \<open>\<open>fd\<close> is what \<open>::socket\<close> returns; a stream socket unless the type is UDP.\<close>

definition socket_new :: "string \<Rightarrow> int \<Rightarrow> fds \<Rightarrow> socket \<times> bool \<times> fds" where
  "socket_new type fd k =
     (let stream = (if type = ''UDP'' \<or> type = ''udp'' then False
                    else if type = ''TCP'' \<or> type = ''tcp'' then True else True)
      in (\<lparr>sk_fd = fd, sk_port = -1, sk_ip = ''''\<rparr>, stream,
          if 0 \<le> fd then k(fd := fresh_fd True) else k))"

definition socket_destroy :: "socket \<Rightarrow> fds \<Rightarrow> fds" where
  "socket_destroy s k =
     (if isUseful s then k(sk_fd s := (k (sk_fd s))\<lparr>fo_closed := True\<rparr>) else k)"

text \<open>
  The address given to \<open>::bind\<close>: the port in network order and the bytes of the address, which
  \<open>inet_addr\<close>, an argument, computes; \<open>None\<close> is \<open>INADDR_ANY\<close>.
\<close>

definition htons :: "int \<Rightarrow> int" where
  "htons port = (let x = port mod 2 ^ 16 in (x mod 256) * 256 + x div 256)"

abbreviation ntohs :: "int \<Rightarrow> int" where
  "ntohs \<equiv> htons"

definition socket_bind ::
  "(string \<Rightarrow> int) \<Rightarrow> (int \<Rightarrow> int \<times> int \<Rightarrow> int) \<Rightarrow> string option \<Rightarrow> int \<Rightarrow> socket \<Rightarrow> socket \<times> int" where
  "socket_bind inet_addr sys_bind ip port s =
     (let addr = (case ip of None \<Rightarrow> 0 | Some a \<Rightarrow> inet_addr a)
      in (s\<lparr>sk_port := port\<rparr>, sys_bind (sk_fd s) (addr, htons port)))"

definition backLog :: int where
  "backLog = 4096"

definition socket_listen :: "(int \<Rightarrow> int \<Rightarrow> int) \<Rightarrow> socket \<Rightarrow> int" where
  "socket_listen sys_listen s = sys_listen (sk_fd s) backLog"

section \<open>Waiting\<close>

text \<open>The events a descriptor is registered for in \<open>waitEvent\<close>.\<close>

datatype waits = ForInput | ForOutput

datatype errno = EINTR | EAGAIN | EINPROGRESS | ENETUNREACH | OtherErrno nat

section \<open>Accepting\<close>

text \<open>
  What \<open>::accept\<close> gives: a descriptor or -1, the address of the client as the text
  \<open>inet_ntop\<close> writes, and its port in network order. The call also consumes the result of the
  \<open>fcntl\<close> of the constructor.
\<close>

record accepted =
  ac_fd :: int
  ac_ip :: string
  ac_port :: int
  ac_fcntl :: int

definition accept_raw :: "accepted \<Rightarrow> fds \<Rightarrow> socket \<times> fds" where
  "accept_raw r k =
     (if ac_fd r < 0 then socket_of_fd (ac_fd r) '''' (-1) (ac_fcntl r) k
      else socket_of_fd (ac_fd r) (ac_ip r) (ntohs (ac_port r)) (ac_fcntl r)
             (k(ac_fd r := fresh_fd False)))"

fun accept ::
  "socket \<Rightarrow> accepted list \<Rightarrow> (int \<times> waits) list \<Rightarrow> fds \<Rightarrow>
   (socket \<times> accepted list \<times> (int \<times> waits) list \<times> fds) option" where
  "accept s [] ws k = None"
| "accept s (r # rs) ws k =
     (let (ret, k) = accept_raw r k in
      if isUseful ret then Some (ret, rs, ws, k)
      else let ws = ws @ [(sk_fd s, ForInput)] in
      case rs of
        [] \<Rightarrow> None
      | r # rs \<Rightarrow>
          let (con, k) = accept_raw r k in
          if isUseful con then Some (con, rs, ws, k)
          else accept s rs ws k)"

section \<open>Reading\<close>

text \<open>A read gives bytes (none at the end of the stream) or fails.\<close>

datatype read_ret = Got string | ReadFailed errno

fun socket_read ::
  "int \<Rightarrow> read_ret list \<Rightarrow> (int \<times> waits) list \<Rightarrow>
   (string \<times> read_ret list \<times> (int \<times> waits) list) option" where
  "socket_read fd [] ws = None"
| "socket_read fd (r # rs) ws =
     (case r of
        Got bytes \<Rightarrow> Some (bytes, rs, ws)
      | ReadFailed e \<Rightarrow>
          if e = EINTR then socket_read fd rs ws
          else socket_read fd rs (ws @ [(fd, ForInput)]))"

definition socket_recvfrom ::
  "socket \<Rightarrow> int \<Rightarrow> read_ret list \<Rightarrow> (int \<times> waits) list \<Rightarrow>
   (string option \<times> read_ret list \<times> (int \<times> waits) list) option" where
  "socket_recvfrom s sockfd rs ws =
     (if sockfd \<noteq> sk_fd s then Some (None, rs, ws)
      else map_option (\<lambda>(bytes, rest). (Some bytes, rest)) (socket_read sockfd rs ws))"

section \<open>Connecting\<close>

datatype connect_ret = Connected | ConnectFailed errno

fun socket_connect ::
  "string \<Rightarrow> int \<Rightarrow> connect_ret list \<Rightarrow> (int \<times> waits) list \<Rightarrow> socket \<Rightarrow>
   (int \<times> socket \<times> connect_ret list \<times> (int \<times> waits) list) option" where
  "socket_connect ip port [] ws s = None"
| "socket_connect ip port (r # rs) ws s =
     (let s = s\<lparr>sk_ip := ip, sk_port := port\<rparr> in
      case r of
        Connected \<Rightarrow> Some (0, s, rs, ws)
      | ConnectFailed e \<Rightarrow>
          if e = EINTR then socket_connect ip port rs ws s
          else if e = ENETUNREACH then Some (-1, s, rs, ws)
          else socket_connect ip port rs (ws @ [(sk_fd s, ForOutput)]) s)"

section \<open>Sending\<close>

text \<open>
  The result of \<open>::send\<close> goes into a \<open>size_t\<close>, so a failure is a huge number. \<open>out\<close> is what the
  kernel has taken.
\<close>

fun socket_send ::
  "int \<Rightarrow> string \<Rightarrow> int list \<Rightarrow> (int \<times> waits) list \<Rightarrow> string \<Rightarrow>
   (int \<times> string \<times> int list \<times> (int \<times> waits) list) option" where
  "socket_send fd buf [] ws out = None"
| "socket_send fd buf (r # rs) ws out =
     (let sendIdx = u64 r; count = int (length buf);
          out = out @ take (nat r) buf
      in if sendIdx \<ge> count then Some (count, out, rs, ws)
         else socket_send fd (drop (nat sendIdx) buf) rs (ws @ [(fd, ForOutput)]) out)"

definition socket_sendto ::
  "socket \<Rightarrow> int \<Rightarrow> string \<Rightarrow> int list \<Rightarrow> (int \<times> waits) list \<Rightarrow>
   (int \<times> string \<times> int list \<times> (int \<times> waits) list) option" where
  "socket_sendto s sockfd buf rs ws =
     (if sockfd \<noteq> sk_fd s then Some (-1, '''', rs, ws) else socket_send sockfd buf rs ws '''')"

section \<open>Lemmas\<close>

fun interrupted :: "read_ret \<Rightarrow> bool" where
  "interrupted (Got _) = False"
| "interrupted (ReadFailed e) = (e = EINTR)"

fun failed :: "read_ret \<Rightarrow> bool" where
  "failed (Got _) = False"
| "failed (ReadFailed e) = True"

lemma socket_read_skip:
  "list_all failed es \<Longrightarrow>
   socket_read fd (es @ rs) ws =
     socket_read fd rs (ws @ replicate (length (filter (Not \<circ> interrupted) es)) (fd, ForInput))"
proof (induction es arbitrary: ws)
  case (Cons e es)
  then show ?case by (cases e) (auto simp: replicate_append_same [symmetric])
qed simp

lemma accept_first_useful:
  assumes "\<forall>r \<in> set bad. ac_fd r < 0" "0 \<le> ac_fd r"
  shows "accept s (bad @ r # rs) ws k =
    Some (fst (accept_raw r k), rs, ws @ replicate ((length bad + 1) div 2) (sk_fd s, ForInput),
      snd (accept_raw r k))"
  using assms
proof (induction s bad ws k rule: accept.induct)
  case (1 s ws k)
  then show ?case
    by (auto simp: accept_raw_def socket_of_fd_def isUseful_def Let_def split: prod.splits)
next
  case (2 s b bs ws k)
  have b: "accept_raw b k = (\<lparr>sk_fd = ac_fd b, sk_port = -1, sk_ip = ''''\<rparr>, k)" for k
    using 2 by (auto simp: accept_raw_def socket_of_fd_def Let_def)
  have u: "\<not> isUseful \<lparr>sk_fd = ac_fd b, sk_port = -1, sk_ip = ''''\<rparr>"
    using 2 by (simp add: isUseful_def)
  show ?case
  proof (cases bs)
    case Nil
    then show ?thesis using b u 2(3)
      by (auto simp: accept_raw_def socket_of_fd_def isUseful_def Let_def split: prod.splits)
  next
    case (Cons c cs)
    have c: "accept_raw c k = (\<lparr>sk_fd = ac_fd c, sk_port = -1, sk_ip = ''''\<rparr>, k)" for k
      using 2 Cons by (auto simp: accept_raw_def socket_of_fd_def Let_def)
    have v: "\<not> isUseful \<lparr>sk_fd = ac_fd c, sk_port = -1, sk_ip = ''''\<rparr>"
      using 2 Cons by (simp add: isUseful_def)
    show ?thesis using Cons b c u v "2.IH" "2.prems"
      by (simp add: Let_def replicate_append_same [symmetric])
  qed
qed

lemma send_partial:
  "\<forall>r \<in> set rs. 0 \<le> r \<Longrightarrow> sum_list rs < int (length buf) \<Longrightarrow> length buf < 2 ^ 63 \<Longrightarrow>
   socket_send fd buf (rs @ rest) ws out =
     socket_send fd (drop (nat (sum_list rs)) buf) rest (ws @ replicate (length rs) (fd, ForOutput))
       (out @ take (nat (sum_list rs)) buf)"
proof (induction rs arbitrary: buf ws out)
  case (Cons r rs)
  have s: "0 \<le> sum_list rs" using Cons.prems(1) by (intro sum_list_nonneg) auto
  with Cons.prems have r: "0 \<le> r" "r < int (length buf)" "u64 r = r"
    by (auto intro!: u64_id)
  have "nat (r + sum_list rs) = nat (sum_list rs) + nat r"
    using r s by simp
  moreover have "take (nat r) buf @ take (nat (sum_list rs)) (drop (nat r) buf) =
      take (nat (sum_list rs) + nat r) buf"
    by (simp add: take_add add.commute)
  ultimately show ?case
    using Cons.IH [of "drop (nat r) buf" "ws @ [(fd, ForOutput)]" "out @ take (nat r) buf"] r Cons.prems
    by (simp add: Let_def replicate_append_same [symmetric])
qed simp

section \<open>Properties\<close>

text \<open>
  C40: a send whose writes succeed delivers the bytes of the buffer in order and exactly once,
  waiting once between two writes, but returns the size of its last piece only; when the last
  write fails instead (for instance because the connection is gone) the same value is returned
  although the rest of the bytes is lost.
\<close>

theorem send_delivers:
  assumes "\<forall>r \<in> set rs. 0 \<le> r" "sum_list rs < int (length buf)" "length buf < 2 ^ 63"
  shows "socket_send fd buf (rs @ (int (length buf) - sum_list rs) # rest) [] '''' =
      Some (int (length buf) - sum_list rs, buf, rest, replicate (length rs) (fd, ForOutput)) \<and>
    socket_send fd buf (rs @ (-1) # rest) [] '''' =
      Some (int (length buf) - sum_list rs, take (nat (sum_list rs)) buf, rest,
        replicate (length rs) (fd, ForOutput))"
proof -
  have s: "0 \<le> sum_list rs" using assms(1) by (intro sum_list_nonneg) auto
  have u: "u64 (int (length buf) - sum_list rs) = int (length buf) - sum_list rs"
    using assms s by (intro u64_id) auto
  have m: "u64 (-1) = 2 ^ 64 - 1" by (simp add: u64_def)
  show ?thesis using assms s u m
    by (simp add: send_partial Let_def of_nat_diff nat_diff_distrib')
qed

text \<open>
  An accept, a read and a connect leave their loop only when the kernel gives what they
  wait for (for a connect, also when the network is unreachable). After any number of other
  failures, refused connections and errors that will never go away among them, they are
  waiting again, so that the caller never learns of the failure.
\<close>

theorem failures_are_retried:
  assumes "\<forall>r \<in> set bad. ac_fd r < 0" "list_all failed es"
    and "\<forall>c \<in> set cs. c \<noteq> Connected \<and> c \<noteq> ConnectFailed ENETUNREACH"
  shows "accept s bad ws k = None \<and> socket_read fd es ws = None \<and>
    socket_connect ip port cs ws s = None \<and>
    (\<exists>ws'. socket_read fd (es @ Got bytes # rs) ws = Some (bytes, rs, ws')) \<and>
    (0 \<le> ac_fd r \<longrightarrow> (\<exists>ws'. accept s (bad @ r # left) ws k =
       Some (fst (accept_raw r k), left, ws', snd (accept_raw r k))))"
proof -
  have "socket_connect ip port cs ws s = None" using assms(3)
    by (induction cs arbitrary: ws s) (auto simp: Let_def split: connect_ret.split)
  moreover have "accept s bad ws k = None" using assms(1)
    by (induction s bad ws k rule: accept.induct)
      (auto simp: accept_raw_def socket_of_fd_def isUseful_def Let_def split: list.split)
  moreover have "socket_read fd es ws = None"
    using socket_read_skip [OF assms(2), of fd "[]" ws] by simp
  ultimately show ?thesis
    using assms by (auto simp: socket_read_skip accept_first_useful)
qed

section \<open>Witnesses\<close>

lemma send_delivers_witness:
  "socket_send 7 ''abcde'' [2, 1, 2] [] '''' = Some (2, ''abcde'', [], [(7, ForOutput), (7, ForOutput)])"
  using send_delivers [of "[2, 1]" "''abcde''" 7 "[]"] by simp

lemma failures_are_retried_witness:
  "socket_connect ''10.0.0.1'' 80 (replicate 3 (ConnectFailed (OtherErrno 111))) [] \<lparr>sk_fd = 5, sk_port = -1, sk_ip = ''''\<rparr>
     = None"
  using failures_are_retried [of "[]" "[]" "replicate 3 (ConnectFailed (OtherErrno 111))"
      "\<lparr>sk_fd = 5, sk_port = -1, sk_ip = ''''\<rparr>" "[]" "\<lambda>_. fresh_fd True" 5 "''10.0.0.1''" 80]
  by simp

end
