(* ===== verification/SocketInfo.thy ===== *)
theory SocketInfo
  imports Socket Decimal
begin

text \<open>
  The TCP statistics of a socket, as text (\<open>getSocketOpt\<close> and the two \<open>getSocketOptString\<close> of
  \<open>src/socket.cc\<close>). The kernel's \<open>struct tcp_info\<close> is the record of the fields the code
  prints, all \<open>__u32\<close> or \<open>__u8\<close>; what \<open>getsockopt\<close> fills in is an argument.
\<close>

record tcp_info =
  tcpi_retransmits :: nat
  tcpi_rto :: nat
  tcpi_ato :: nat
  tcpi_snd_mss :: nat
  tcpi_rcv_mss :: nat
  tcpi_lost :: nat
  tcpi_retrans :: nat
  tcpi_rtt :: nat
  tcpi_rttvar :: nat
  tcpi_snd_ssthresh :: nat
  tcpi_snd_cwnd :: nat
  tcpi_total_retrans :: nat

definition tcp_info_zero :: tcp_info where
  "tcp_info_zero = \<lparr>tcpi_retransmits = 0, tcpi_rto = 0, tcpi_ato = 0, tcpi_snd_mss = 0, tcpi_rcv_mss = 0,
     tcpi_lost = 0, tcpi_retrans = 0, tcpi_rtt = 0, tcpi_rttvar = 0, tcpi_snd_ssthresh = 0,
     tcpi_snd_cwnd = 0, tcpi_total_retrans = 0\<rparr>"

definition getSocketOpt :: "(int \<Rightarrow> tcp_info option) \<Rightarrow> socket \<Rightarrow> bool \<times> tcp_info" where
  "getSocketOpt getsockopt s =
     (case getsockopt (sk_fd s) of None \<Rightarrow> (False, tcp_info_zero) | Some tcpi \<Rightarrow> (True, tcpi))"

definition tcp_info_text :: "tcp_info \<Rightarrow> string" where
  "tcp_info_text i = concat (map (\<lambda>(label, value). label @ dec_nat value)
     [(''unrecovered='', tcpi_retransmits i), ('' rto='', tcpi_rto i), ('' ato='', tcpi_ato i),
      ('' snd_mss='', tcpi_snd_mss i), ('' rcv_mss='', tcpi_rcv_mss i), ('' lost='', tcpi_lost i),
      ('' retrans='', tcpi_retrans i), ('' rtt='', tcpi_rtt i), ('' rttvar='', tcpi_rttvar i),
      ('' sshthresh='', tcpi_snd_ssthresh i), ('' cwnd='', tcpi_snd_cwnd i),
      ('' total_retrans='', tcpi_total_retrans i)])"

text \<open>
  \<open>buf\<close> is the C string in the caller's buffer of \<open>len\<close> bytes; \<open>snprintf\<close> keeps the last byte
  for the terminator, and writes nothing to a buffer of length 0.
\<close>

definition getSocketOptString_buf ::
  "(int \<Rightarrow> tcp_info option) \<Rightarrow> nat \<Rightarrow> string \<Rightarrow> socket \<Rightarrow> bool \<times> string" where
  "getSocketOptString_buf getsockopt len buf s =
     (let (ok, tcpi) = getSocketOpt getsockopt s
      in (ok, if ok \<and> 0 < len then take (len - 1) (tcp_info_text tcpi) else buf))"

definition getSocketOptString :: "(int \<Rightarrow> tcp_info option) \<Rightarrow> socket \<Rightarrow> string" where
  "getSocketOptString getsockopt s = snd (getSocketOptString_buf getsockopt 1024 '''' s)"

definition tcp_info_ok :: "tcp_info \<Rightarrow> bool" where
  "tcp_info_ok i \<longleftrightarrow> (\<forall>v \<in> set [tcpi_retransmits i, tcpi_rto i, tcpi_ato i, tcpi_snd_mss i, tcpi_rcv_mss i,
     tcpi_lost i, tcpi_retrans i, tcpi_rtt i, tcpi_rttvar i, tcpi_snd_ssthresh i, tcpi_snd_cwnd i,
     tcpi_total_retrans i]. v < 2 ^ 32)"

text \<open>The buffer of the string variant is large enough for every value of the fields.\<close>

lemma tcp_info_text_fits:
  assumes "tcp_info_ok i"
  shows "length (tcp_info_text i) \<le> 220"
proof -
  have "length (dec_nat v) \<le> 10" if "v < 2 ^ 32" for v
    using that by (intro length_dec_nat) auto
  then have "\<forall>v \<in> set [tcpi_retransmits i, tcpi_rto i, tcpi_ato i, tcpi_snd_mss i, tcpi_rcv_mss i,
     tcpi_lost i, tcpi_retrans i, tcpi_rtt i, tcpi_rttvar i, tcpi_snd_ssthresh i, tcpi_snd_cwnd i,
     tcpi_total_retrans i]. length (dec_nat v) \<le> 10"
    using assms unfolding tcp_info_ok_def by blast
  then show ?thesis by (simp add: tcp_info_text_def)
qed

lemma getSocketOptString_whole:
  assumes "\<forall>fd i. getsockopt fd = Some i \<longrightarrow> tcp_info_ok i"
  shows "getSocketOptString getsockopt s =
    (case getsockopt (sk_fd s) of None \<Rightarrow> '''' | Some i \<Rightarrow> tcp_info_text i)"
proof (cases "getsockopt (sk_fd s)")
  case (Some i)
  then have "length (tcp_info_text i) \<le> 220" using assms tcp_info_text_fits by blast
  with Some show ?thesis by (simp add: getSocketOptString_def getSocketOptString_buf_def getSocketOpt_def)
qed (simp add: getSocketOptString_def getSocketOptString_buf_def getSocketOpt_def)

end
