(* ===== verification/OrderedMap.thy ===== *)
theory OrderedMap
  imports Prelude "HOL-Library.List_Lexorder" "HOL-Library.Char_ord" "HOL-Library.Multiset"
begin

text \<open>
  The containers of the standard library that the RPC layer uses: \<open>std::map\<close> as an association
  list in ascending order of its keys (its iteration order is the order of the list, a lookup
  is \<open>map_of\<close>), \<open>std::sort\<close> and \<open>std::set_difference\<close> on vectors, \<open>std::string::substr\<close> and
  the reading of a C string. Strings are ordered by their bytes, as \<open>std::string\<close> orders them.
\<close>

section \<open>Maps in the order of their keys\<close>

fun map_put :: "'k :: linorder \<Rightarrow> 'v \<Rightarrow> ('k \<times> 'v) list \<Rightarrow> ('k \<times> 'v) list" where
  "map_put k v [] = [(k, v)]"
| "map_put k v ((l, w) # xs) =
     (if k < l then (k, v) # (l, w) # xs
      else if k = l then (k, v) # xs
      else (l, w) # map_put k v xs)"

abbreviation ascending :: "('k :: linorder \<times> 'v) list \<Rightarrow> bool" where
  "ascending xs \<equiv> sorted_wrt (<) (map fst xs)"

lemma map_of_map_put [simp]: "map_of (map_put k v xs) = (map_of xs)(k \<mapsto> v)"
  by (induction xs) (auto simp: fun_eq_iff)

lemma fst_set_map_put [simp]: "fst ` set (map_put k v xs) = insert k (fst ` set xs)"
  by (induction k v xs rule: map_put.induct) (auto simp: image_iff)

lemma ascending_map_put: "ascending xs \<Longrightarrow> ascending (map_put k v xs)"
  by (induction k v xs rule: map_put.induct) (auto simp: image_iff)

lemma ascending_distinct: "ascending xs \<Longrightarrow> distinct (map fst xs)"
  using strict_sorted_iff [of "map fst xs"] by simp

section \<open>Sorted vectors\<close>

fun set_difference :: "'a :: linorder list \<Rightarrow> 'a list \<Rightarrow> 'a list" where
  "set_difference [] ys = []"
| "set_difference (x # xs) [] = x # xs"
| "set_difference (x # xs) (y # ys) =
     (if x < y then x # set_difference xs (y # ys)
      else if y < x then set_difference (x # xs) ys
      else set_difference xs ys)"

lemma mset_set_difference:
  "sorted xs \<Longrightarrow> sorted ys \<Longrightarrow> mset (set_difference xs ys) = mset xs - mset ys"
proof (induction xs ys rule: set_difference.induct)
  case (3 x xs y ys)
  consider "x < y" | "y < x" | "x = y" by fastforce
  then show ?case
  proof cases
    case 1
    with 3 have "x \<notin># mset (y # ys)" by auto
    with 1 3 show ?thesis by (simp add: add_mset_diff_bothsides diff_add_mset_swap)
  next
    case 2
    with 3 have "y \<notin># mset (x # xs)" by auto
    with 2 3 show ?thesis by simp
  next
    case 3
    with "3.IH" "3.prems" show ?thesis by simp
  qed
qed simp_all

section \<open>Strings\<close>

text \<open>\<open>substr\<close> throws past the end; \<open>c_str\<close> is what a reader of the C string sees.\<close>

definition substr :: "string \<Rightarrow> nat \<Rightarrow> nat \<Rightarrow> string res" where
  "substr s pos n = (if pos \<le> length s then Inr (take n (drop pos s)) else Inl Thrown)"

definition c_str :: "string \<Rightarrow> string" where
  "c_str s = takeWhile (\<lambda>c. c \<noteq> CHR 0x00) s"

lemma c_str_id: "CHR 0x00 \<notin> set s \<Longrightarrow> c_str s = s"
  by (auto simp: c_str_def takeWhile_eq_all_conv)

lemma substr_at [simp]: "substr (a @ b) (length a) n = Inr (take n b)"
  by (simp add: substr_def)

end
