(* ===== verification/Tcp.thy ===== *)
theory Tcp
  imports Socket
begin

text \<open>
  The TCP server and client (\<open>src/tcp/tcp_server.cc\<close>, \<open>src/tcp/tcp_client.cc\<close> and their headers).
  A server listens on one socket, or on one per processor, and starts a coroutine for every
  connection it accepts; the model collects what is given to \<open>co_go\<close>, in order. Callbacks are
  values of any type, with the built-in one beside them. What \<open>::socket\<close>, \<open>setsockopt\<close>,
  \<open>::bind\<close> and \<open>::listen\<close> return are arguments.
\<close>

section \<open>The server\<close>

datatype 'cb conn_callback = DefaultConnection | Registered 'cb

record 'cb tcp_server =
  ts_on_connection :: "'cb conn_callback option"
  ts_listen_fd :: "socket option"
  ts_multi :: "socket list"
  ts_ip :: "string option"
  ts_port :: int

definition tcp_server_new :: "'cb tcp_server" where
  "tcp_server_new = \<lparr>ts_on_connection = None, ts_listen_fd = None, ts_multi = [], ts_ip = None, ts_port = -1\<rparr>"

text \<open>
  The destructor deletes \<open>server_ip\<close>, which points to the argument of \<open>start\<close> or to a string
  literal, never to an object made with \<open>new\<close>; \<open>delete\<close> of the null pointer does nothing.
\<close>

definition tcp_server_destroy :: "'cb tcp_server \<Rightarrow> 'cb tcp_server res" where
  "tcp_server_destroy t =
     (if ts_ip t = None then Inr (t\<lparr>ts_listen_fd := None\<rparr>) else Inl BadFree)"

definition register_connection :: "'cb conn_callback \<Rightarrow> 'cb tcp_server \<Rightarrow> 'cb tcp_server" where
  "register_connection func t = t\<lparr>ts_on_connection := Some func\<rparr>"

definition with_callback :: "'cb tcp_server \<Rightarrow> 'cb tcp_server" where
  "with_callback t =
     (if ts_on_connection t = None then register_connection DefaultConnection t else t)"

text \<open>What the system calls of a start return: \<open>ns_opt\<close> is for the three options.\<close>

record net_sys =
  ns_socket :: "nat \<Rightarrow> int"
  ns_opt :: "nat \<Rightarrow> int"
  ns_inet_addr :: "string \<Rightarrow> int"
  ns_bind :: "int \<Rightarrow> int \<times> int \<Rightarrow> int"
  ns_listen :: "int \<Rightarrow> int \<Rightarrow> int"

definition set_listen_opts :: "net_sys \<Rightarrow> socket \<Rightarrow> fds \<Rightarrow> fds" where
  "set_listen_opts sys s k =
     fst (setReusePort True (ns_opt sys 2) s
       (fst (setReuseAddr True (ns_opt sys 1) s
          (fst (setTcpNoDelay True (ns_opt sys 0) s k)))))"

text \<open>\<open>start\<close>; the Boolean is whether the coroutine of the server loop was started.\<close>

definition tcp_start ::
  "net_sys \<Rightarrow> string option \<Rightarrow> int \<Rightarrow> 'cb tcp_server \<Rightarrow> fds \<Rightarrow> 'cb tcp_server \<times> fds \<times> bool" where
  "tcp_start sys ip port t k =
     (let t = with_callback t;
          (s, stream, k) = socket_new ''TCP'' (ns_socket sys 0) k
      in if isUseful s then
           let k = set_listen_opts sys s k;
               (s, r) = socket_bind (ns_inet_addr sys) (ns_bind sys) ip port s;
               t = t\<lparr>ts_listen_fd := Some s\<rparr>
           in if r < 0 then (t, k, False)
              else (t\<lparr>ts_ip := Some (case ip of None \<Rightarrow> ''any address'' | Some a \<Rightarrow> a), ts_port := port\<rparr>,
                    k, True)
         else (t\<lparr>ts_listen_fd := Some s\<rparr>, k, True))"

text \<open>The sockets of \<open>start_multi\<close>, and its loop over them: the loops started so far.\<close>

fun open_sockets :: "net_sys \<Rightarrow> nat \<Rightarrow> nat \<Rightarrow> fds \<Rightarrow> socket list \<times> fds" where
  "open_sockets sys i 0 k = ([], k)"
| "open_sockets sys i (Suc n) k =
     (let (s, stream, k) = socket_new ''TCP'' (ns_socket sys i) k;
          (ss, k) = open_sockets sys (Suc i) n k
      in (s # ss, k))"

fun multi_loop ::
  "net_sys \<Rightarrow> string option \<Rightarrow> int \<Rightarrow> nat \<Rightarrow> socket list \<Rightarrow> nat list \<Rightarrow> fds \<Rightarrow>
   socket list \<times> nat list \<times> fds" where
  "multi_loop sys ip port i [] started k = ([], started, k)"
| "multi_loop sys ip port i (s # ss) started k =
     (if isUseful s then
        let k = set_listen_opts sys s k;
            (s, r) = socket_bind (ns_inet_addr sys) (ns_bind sys) ip port s
        in if r < 0 then (s # ss, started, k)
           else let (ss, started, k) = multi_loop sys ip port (i + 1) ss (started @ [i]) k
                in (s # ss, started, k)
      else let (ss, started, k) = multi_loop sys ip port (i + 1) ss (started @ [i]) k
           in (s # ss, started, k))"

definition tcp_start_multi ::
  "net_sys \<Rightarrow> nat \<Rightarrow> string option \<Rightarrow> int \<Rightarrow> 'cb tcp_server \<Rightarrow> fds \<Rightarrow> 'cb tcp_server \<times> fds \<times> nat list" where
  "tcp_start_multi sys tCnt ip port t k =
     (let t = with_callback t;
          (ss, k) = open_sockets sys 0 tCnt k;
          (ss, started, k) = multi_loop sys ip port 0 ss [] k
      in (t\<lparr>ts_multi := ss\<rparr>, k, started))"

text \<open>
  The loop on a listening socket \<open>s\<close>: every connection gets a coroutine of its own. \<open>nd\<close> is
  what \<open>setTcpNoDelay\<close> returns for it.
\<close>

lemma accept_shorter [termination_simp]:
  "accept s rs ws k = Some (c, rest, ws', k') \<Longrightarrow> length rest < length rs"
proof (induction s rs ws k rule: accept.induct)
  case (2 s r rs ws k)
  then show ?case
    by (fastforce simp: Let_def split: prod.splits if_splits list.splits)
qed simp

function server_loop ::
  "(socket \<Rightarrow> int) \<Rightarrow> 'cb \<Rightarrow> socket \<Rightarrow> accepted list \<Rightarrow> ('cb \<times> socket) list \<Rightarrow> fds \<Rightarrow>
   ('cb \<times> socket) list \<times> fds" where
  "server_loop nd cb s rs spawned k =
     (case accept s rs [] k of
        None \<Rightarrow> (spawned, k)
      | Some (conn, rest, ws, k) \<Rightarrow>
          server_loop nd cb s rest (spawned @ [(cb, conn)]) (fst (setTcpNoDelay True (nd conn) conn k)))"
  by pat_completeness auto
termination by (relation "measure (\<lambda>(nd, cb, s, rs, _). length rs)") (auto intro: accept_shorter)

declare server_loop.simps [simp del]

definition tcp_server_loop ::
  "(socket \<Rightarrow> int) \<Rightarrow> accepted list \<Rightarrow> 'cb tcp_server \<Rightarrow> fds \<Rightarrow>
   (('cb conn_callback \<times> socket) list \<times> fds) res" where
  "tcp_server_loop nd rs t k =
     ubind (of_opt NullDeref (ts_listen_fd t)) (\<lambda>s.
     ubind (of_opt NullDeref (ts_on_connection t)) (\<lambda>cb.
     Inr (server_loop nd cb s rs [] k)))"

definition multi_server_loop ::
  "(socket \<Rightarrow> int) \<Rightarrow> nat \<Rightarrow> accepted list \<Rightarrow> 'cb tcp_server \<Rightarrow> fds \<Rightarrow>
   (('cb conn_callback \<times> socket) list \<times> fds) res" where
  "multi_server_loop nd thread_number rs t k =
     (if thread_number < length (ts_multi t) then
        ubind (of_opt NullDeref (ts_on_connection t)) (\<lambda>cb.
        Inr (server_loop nd cb (ts_multi t ! thread_number) rs [] k))
      else Inl OutOfBounds)"

text \<open>The built-in callback answers the first piece it reads with the same bytes.\<close>

definition default_connection ::
  "int \<Rightarrow> read_ret list \<Rightarrow> int list \<Rightarrow> (string \<times> (int \<times> waits) list) option" where
  "default_connection fd reads sends =
     (case socket_read fd reads [] of
        None \<Rightarrow> None
      | Some (bytes, rest, ws) \<Rightarrow>
          if bytes = '''' then Some ('''', ws)
          else map_option (\<lambda>(r, out, _, ws). (out, ws)) (socket_send fd bytes sends ws ''''))"

section \<open>The client\<close>

record tcp_client =
  tc_socket :: "socket option"

definition tcp_client_new :: "int \<Rightarrow> fds \<Rightarrow> tcp_client \<times> fds" where
  "tcp_client_new fd k = (let (s, _, k) = socket_new ''TCP'' fd k in (\<lparr>tc_socket = Some s\<rparr>, k))"

definition tcp_client_destroy :: "tcp_client \<Rightarrow> fds \<Rightarrow> tcp_client \<times> fds" where
  "tcp_client_destroy c k =
     (c\<lparr>tc_socket := None\<rparr>, case tc_socket c of None \<Rightarrow> k | Some s \<Rightarrow> socket_destroy s k)"

text \<open>The socket that was there is neither closed nor deleted.\<close>

definition reset_socket :: "int \<Rightarrow> tcp_client \<Rightarrow> fds \<Rightarrow> tcp_client \<times> fds" where
  "reset_socket fd c k = (let (s, _, k) = socket_new ''TCP'' fd k in (c\<lparr>tc_socket := Some s\<rparr>, k))"

definition tcp_connect ::
  "string \<Rightarrow> int \<Rightarrow> connect_ret list \<Rightarrow> tcp_client \<Rightarrow> (int \<times> tcp_client) option res" where
  "tcp_connect ip port rs c =
     ubind (of_opt NullDeref (tc_socket c)) (\<lambda>s.
     Inr (map_option (\<lambda>(r, s, _). (r, c\<lparr>tc_socket := Some s\<rparr>)) (socket_connect ip port rs [] s)))"

definition tcp_disconnect :: "int \<Rightarrow> tcp_client \<Rightarrow> fds \<Rightarrow> (fds \<times> int) res" where
  "tcp_disconnect ret c k = ubind (of_opt NullDeref (tc_socket c)) (\<lambda>s. Inr (shutdownWrite ret s k))"

definition tcp_recv :: "read_ret list \<Rightarrow> tcp_client \<Rightarrow> string option res" where
  "tcp_recv rs c =
     ubind (of_opt NullDeref (tc_socket c)) (\<lambda>s. Inr (map_option fst (socket_read (sk_fd s) rs [])))"

definition tcp_send :: "string \<Rightarrow> int list \<Rightarrow> tcp_client \<Rightarrow> (int \<times> string) option res" where
  "tcp_send buf rs c =
     ubind (of_opt NullDeref (tc_socket c)) (\<lambda>s.
     Inr (map_option (\<lambda>(r, out, _). (r, out)) (socket_send (sk_fd s) buf rs [] '''')))"

section \<open>Lemmas\<close>

definition conn_of :: "accepted \<Rightarrow> socket" where
  "conn_of r = \<lparr>sk_fd = ac_fd r, sk_port = ntohs (ac_port r), sk_ip = ac_ip r\<rparr>"

lemma accept_raw_socket: "0 \<le> ac_fd r \<Longrightarrow> fst (accept_raw r k) = conn_of r"
  by (simp add: accept_raw_def socket_of_fd_def conn_of_def Let_def)

lemma accept_none: "\<forall>r \<in> set rs. ac_fd r < 0 \<Longrightarrow> accept s rs ws k = None"
  by (induction s rs ws k rule: accept.induct)
    (auto simp: accept_raw_def socket_of_fd_def isUseful_def Let_def split: list.split)

lemma server_loop_none:
  "\<forall>r \<in> set rs. ac_fd r < 0 \<Longrightarrow> server_loop nd cb s rs spawned k = (spawned, k)"
  by (simp add: server_loop.simps accept_none)

lemma server_loop_conn:
  "\<forall>r \<in> set bad. ac_fd r < 0 \<Longrightarrow> 0 \<le> ac_fd r \<Longrightarrow>
   server_loop nd cb s (bad @ r # rs) spawned k =
     server_loop nd cb s rs (spawned @ [(cb, conn_of r)])
       (fst (setTcpNoDelay True (nd (conn_of r)) (conn_of r) (snd (accept_raw r k))))"
  by (subst server_loop.simps) (simp add: accept_first_useful accept_raw_socket)

text \<open>The list of results, cut at the first connection.\<close>

lemma accepted_cases:
  obtains (none) "\<forall>r \<in> set rs. ac_fd r < 0"
  | (conn) bad r rest where "rs = bad @ r # rest" "\<forall>r \<in> set bad. ac_fd r < 0" "0 \<le> ac_fd r"
proof (cases "\<exists>r \<in> set rs. 0 \<le> ac_fd r")
  case True
  from split_list_first_prop [OF this] show ?thesis by (auto intro!: conn simp: not_le)
next
  case False
  then show ?thesis by (intro none) auto
qed

lemma server_loop_spec:
  "fst (server_loop nd cb s rs spawned k) =
     spawned @ map (\<lambda>r. (cb, conn_of r)) (filter (\<lambda>r. 0 \<le> ac_fd r) rs)"
proof (induction "length rs" arbitrary: rs spawned k rule: less_induct)
  case less
  show ?case
  proof (cases rs rule: accepted_cases)
    case none
    then have "filter (\<lambda>r. 0 \<le> ac_fd r) rs = []" by (auto simp: filter_empty_conv not_le)
    with none show ?thesis by (simp add: server_loop_none)
  next
    case (conn bad r rest)
    then have "filter (\<lambda>r. 0 \<le> ac_fd r) bad = []" by (auto simp: filter_empty_conv not_le)
    with conn less show ?thesis by (simp add: server_loop_conn)
  qed
qed

lemma server_loop_nodelay:
  assumes "\<forall>c. nd c = 0"
  shows "fo_nodelay (k fd) \<or> fd \<in> ac_fd ` {r \<in> set rs. 0 \<le> ac_fd r} \<Longrightarrow>
    fo_nodelay (snd (server_loop nd cb s rs spawned k) fd)"
proof (induction "length rs" arbitrary: rs spawned k rule: less_induct)
  case less
  show ?case
  proof (cases rs rule: accepted_cases)
    case none
    with less(2) show ?thesis by (auto simp: server_loop_none)
  next
    case (conn bad r rest)
    let ?k = "fst (setTcpNoDelay True (nd (conn_of r)) (conn_of r) (snd (accept_raw r k)))"
    have k: "fo_nodelay (?k fd')" if "fo_nodelay (k fd') \<or> fd' = ac_fd r" for fd'
      using that assms conn
      by (auto simp: setTcpNoDelay_def set_opt_def conn_of_def accept_raw_def socket_of_fd_def
          setNonBolckSocket_def fresh_fd_def Let_def)
    have "fo_nodelay (?k fd) \<or> fd \<in> ac_fd ` {r \<in> set rest. 0 \<le> ac_fd r}"
      using less(2) conn k [of fd] by auto
    with less(1) [of rest ?k] conn show ?thesis by (simp add: server_loop_conn)
  qed
qed

text \<open>\<open>start_multi\<close> stops at the first socket that cannot be bound.\<close>

definition binds :: "net_sys \<Rightarrow> string option \<Rightarrow> int \<Rightarrow> socket \<Rightarrow> bool" where
  "binds sys ip port s \<longleftrightarrow>
     \<not> (isUseful s \<and> snd (socket_bind (ns_inet_addr sys) (ns_bind sys) ip port s) < 0)"

lemma multi_loop_started:
  "fst (snd (multi_loop sys ip port i ss started k)) =
     started @ [i..<i + length (takeWhile (binds sys ip port) ss)]"
proof (induction sys ip port i ss started k rule: multi_loop.induct)
  case (2 sys ip port i s ss started k)
  have "[i..<Suc (i + n)] = i # [Suc i..<Suc (i + n)]" for n by (simp add: upt_rec)
  then show ?case using 2
    by (auto simp: binds_def Let_def split: prod.splits if_splits)
qed simp

section \<open>Properties\<close>

text \<open>
  C39: every connection the listening socket accepts, and nothing else, gets one coroutine that
  runs the registered callback on it, in the order of arrival, whatever failures come in
  between; and Nagle's algorithm is off on each of them.
\<close>

theorem server_loop_serves:
  assumes "ts_listen_fd t = Some s" "ts_on_connection t = Some cb" "\<forall>c. nd c = 0"
  shows "\<exists>k'. tcp_server_loop nd rs t k =
      Inr (map (\<lambda>r. (cb, \<lparr>sk_fd = ac_fd r, sk_port = ntohs (ac_port r), sk_ip = ac_ip r\<rparr>))
             (filter (\<lambda>r. 0 \<le> ac_fd r) rs), k') \<and>
    (\<forall>r \<in> set rs. 0 \<le> ac_fd r \<longrightarrow> fo_nodelay (k' (ac_fd r)))"
proof -
  have "(\<lambda>r. (cb, conn_of r)) = (\<lambda>r. (cb, \<lparr>sk_fd = ac_fd r, sk_port = ntohs (ac_port r), sk_ip = ac_ip r\<rparr>))"
    by (simp add: conn_of_def)
  with server_loop_spec [of nd cb s rs "[]" k] assms show ?thesis
    by (auto simp: tcp_server_loop_def intro!: exI [of _ "snd (server_loop nd cb s rs [] k)"]
        server_loop_nodelay prod_eqI)
qed

text \<open>
  A server that was started on an address and could bind it cannot be destroyed: the
  destructor deletes the address, which it does not own.
\<close>

theorem started_server_not_destroyable:
  assumes "0 \<le> ns_socket sys 0" "\<forall>fd a. 0 \<le> ns_bind sys fd a"
  shows "tcp_server_destroy (fst (tcp_start sys ip port t k)) = Inl BadFree"
  using assms
  by (auto simp: tcp_start_def socket_new_def isUseful_def socket_bind_def tcp_server_destroy_def
      Let_def not_le [symmetric])

lemma default_connection_echoes:
  "bytes \<noteq> '''' \<Longrightarrow> length bytes < 2 ^ 63 \<Longrightarrow>
   default_connection fd [Got bytes] [int (length bytes)] = Some (bytes, [])"
  by (simp add: default_connection_def Let_def u64_id)

section \<open>Witnesses\<close>

lemma server_loop_serves_witness:
  "\<exists>k'. tcp_server_loop (\<lambda>_. 0)
      [\<lparr>ac_fd = -1, ac_ip = '''', ac_port = 0, ac_fcntl = 0\<rparr>,
       \<lparr>ac_fd = 9, ac_ip = ''10.0.0.2'', ac_port = 0x1F90, ac_fcntl = 0\<rparr>]
      (tcp_server_new\<lparr>ts_listen_fd := Some \<lparr>sk_fd = 4, sk_port = 80, sk_ip = ''''\<rparr>,
         ts_on_connection := Some (Registered (7 :: nat))\<rparr>) (\<lambda>_. fresh_fd True) =
    Inr ([(Registered 7, \<lparr>sk_fd = 9, sk_port = 36895, sk_ip = ''10.0.0.2''\<rparr>)], k') \<and>
    fo_nodelay (k' 9)"
  using server_loop_serves [of "tcp_server_new\<lparr>ts_listen_fd := Some \<lparr>sk_fd = 4, sk_port = 80, sk_ip = ''''\<rparr>,
      ts_on_connection := Some (Registered (7 :: nat))\<rparr>" _ _ "\<lambda>_. 0"
      "[\<lparr>ac_fd = -1, ac_ip = '''', ac_port = 0, ac_fcntl = 0\<rparr>,
        \<lparr>ac_fd = 9, ac_ip = ''10.0.0.2'', ac_port = 0x1F90, ac_fcntl = 0\<rparr>]" "\<lambda>_. fresh_fd True"]
  by (simp add: htons_def Let_def)

lemma started_server_not_destroyable_witness:
  "tcp_server_destroy (fst (tcp_start
     \<lparr>ns_socket = (\<lambda>_. 3), ns_opt = (\<lambda>_. 0), ns_inet_addr = (\<lambda>_. 0), ns_bind = (\<lambda>_ _. 0), ns_listen = (\<lambda>_ _. 0)\<rparr>
     None 80 (tcp_server_new :: nat tcp_server) (\<lambda>_. fresh_fd False))) = Inl BadFree"
  using started_server_not_destroyable [of "\<lparr>ns_socket = (\<lambda>_. 3), ns_opt = (\<lambda>_. 0),
      ns_inet_addr = (\<lambda>_. 0), ns_bind = (\<lambda>_ _. 0), ns_listen = (\<lambda>_ _. 0)\<rparr>" None 80
      "tcp_server_new :: nat tcp_server" "\<lambda>_. fresh_fd False"] by simp

end
