(* ===== verification/RpcServer.thy ===== *)
theory RpcServer
  imports OrderedMap Tcp Decimal
begin

text \<open>
  The server side of an RPC: methods and services (\<open>include/rpc_proto/rpc_method.h\<close>,
  \<open>rpc_service.h\<close>), the stub that dispatches requests (\<open>src/rpc_proto/rpc_server_stub.cc\<close>) and
  the loop of a connection (\<open>src/rpc_proto/rpc_server.cc\<close>).

  A callback is a function of its argument and of a state of the user, which it may change.
  \<open>codec\<close> holds the two serialisers and the two parsers of the headers, and the theorems say what
  they need of them (that a parser reads back what the serialiser wrote); the codec of the
  generated classes is in \<open>Messages\<close>. What a parser leaves in the header after a failure is its value too, since
  the code ignores the result of the parse. Lengths on the wire are the four bytes of a
  \<open>uint32_t\<close> of the host, least significant first. Log lines are left out, for they change
  nothing here.
\<close>

section \<open>Messages\<close>

text \<open>A value of the enumeration that no enumerator names is possible after a parse.\<close>

datatype error_code =
    SUCCESS | UNKNOWN_ERROR | INVALID_REQUEST | AUTH_FAILED | PERMISSION_DENIED | Unnamed int

fun error_val :: "error_code \<Rightarrow> int" where
  "error_val SUCCESS = 0"
| "error_val UNKNOWN_ERROR = 1"
| "error_val INVALID_REQUEST = 2"
| "error_val AUTH_FAILED = 3"
| "error_val PERMISSION_DENIED = 4"
| "error_val (Unnamed n) = n"

record rpc_header =
  rh_service_name :: string
  rh_method_name :: string
  rh_args_size :: nat

record rpc_response_header =
  rr_status :: error_code
  rr_message :: string
  rr_args_size :: int

record codec =
  cd_hser :: "rpc_header \<Rightarrow> string"
  cd_hparse :: "string \<Rightarrow> rpc_header"
  cd_rser :: "rpc_response_header \<Rightarrow> string"
  cd_rparse :: "string \<Rightarrow> rpc_response_header"

definition response_header_new :: rpc_response_header where
  "response_header_new = \<lparr>rr_status = SUCCESS, rr_message = '''', rr_args_size = 0\<rparr>"

definition u32_bytes :: "nat \<Rightarrow> string" where
  "u32_bytes n = map char_of [n mod 256, n div 256 mod 256, n div 65536 mod 256, n div 16777216 mod 256]"

text \<open>\<open>memcpy\<close> of four bytes; the terminating NUL of a string may be read, not what follows.\<close>

definition get_u32 :: "string \<Rightarrow> nat res" where
  "get_u32 s =
     (case take 4 (s @ [CHR 0x00]) of
        [a, b, c, d] \<Rightarrow> Inr (of_char a + 256 * of_char b + 65536 * of_char c + 16777216 * of_char d)
      | _ \<Rightarrow> Inl OutOfBounds)"

section \<open>Methods and services\<close>

type_synonym 's method_callback = "string \<Rightarrow> 's \<Rightarrow> string \<times> 's"

record 's rpc_method =
  rm_name :: string
  rm_callback :: "'s method_callback"

definition callMethod :: "'s rpc_method \<Rightarrow> string \<Rightarrow> 's \<Rightarrow> string \<times> 's" where
  "callMethod m arg = rm_callback m arg"

record 's rpc_service =
  rs_name :: string
  rs_methods :: "(string \<times> 's rpc_method) list"

definition rpc_service_new :: "string \<Rightarrow> 's rpc_service" where
  "rpc_service_new service_name = \<lparr>rs_name = service_name, rs_methods = []\<rparr>"

definition register_method_ptr :: "'s rpc_method \<Rightarrow> 's rpc_service \<Rightarrow> 's rpc_service \<times> bool" where
  "register_method_ptr m s =
     (if rm_name m = '''' then (s, False)
      else (s\<lparr>rs_methods := map_put (rm_name m) m (rs_methods s)\<rparr>, True))"

definition register_method ::
  "string \<Rightarrow> 's method_callback \<Rightarrow> 's rpc_service \<Rightarrow> 's rpc_service \<times> bool" where
  "register_method name callback = register_method_ptr \<lparr>rm_name = name, rm_callback = callback\<rparr>"

definition has_method :: "string \<Rightarrow> 's rpc_service \<Rightarrow> bool" where
  "has_method name s \<longleftrightarrow> map_of (rs_methods s) name \<noteq> None"

text \<open>For an unknown method it returns a string made from the null pointer.\<close>

definition call_method :: "string \<Rightarrow> string \<Rightarrow> 's rpc_service \<Rightarrow> 's \<Rightarrow> (string \<times> 's) res" where
  "call_method name arg s st =
     ubind (of_opt NullDeref (map_of (rs_methods s) name)) (\<lambda>m. Inr (callMethod m arg st))"

text \<open>
  The name service register is an interface: a function that changes its state \<open>'z\<close>, from the
  C strings of service, method and address; \<open>None\<close> is the null pointer.
\<close>

type_synonym 'z registrar = "string \<Rightarrow> string \<Rightarrow> string \<Rightarrow> 'z \<Rightarrow> 'z res"

definition registerAllMethod ::
  "'z registrar option \<Rightarrow> string \<Rightarrow> 's rpc_service \<Rightarrow> 'z \<Rightarrow> 'z res" where
  "registerAllMethod ns_register ipPortAddr s z =
     (case ns_register of
        None \<Rightarrow> Inl Exited
      | Some reg \<Rightarrow>
          run_res (\<lambda>method. reg (c_str (rs_name s)) (c_str (fst method)) (c_str ipPortAddr)) (rs_methods s) z)"

definition UnregisterAllMethod ::
  "'z registrar option \<Rightarrow> string \<Rightarrow> 's rpc_service \<Rightarrow> 'z \<Rightarrow> 'z res" where
  "UnregisterAllMethod ns_unregister ipPortAddr s z =
     (case ns_unregister of
        None \<Rightarrow> Inl Exited
      | Some unreg \<Rightarrow>
          run_res (\<lambda>method. unreg (c_str (rs_name s)) (c_str (fst method)) (c_str ipPortAddr)) (rs_methods s) z)"

section \<open>The server stub\<close>

record 's server_stub =
  ss_services :: "(string \<times> 's rpc_service) list"
  ss_ipPortAddr :: string

definition server_stub_new :: "'s server_stub" where
  "server_stub_new = \<lparr>ss_services = [], ss_ipPortAddr = ''''\<rparr>"

definition RegisterService ::
  "string \<Rightarrow> string \<Rightarrow> 's method_callback \<Rightarrow> 's server_stub \<Rightarrow> 's server_stub" where
  "RegisterService service_name method_name callback st =
     (case map_of (ss_services st) service_name of
        None \<Rightarrow>
          st\<lparr>ss_services := map_put service_name
               (fst (register_method method_name callback (rpc_service_new service_name))) (ss_services st)\<rparr>
      | Some s \<Rightarrow>
          st\<lparr>ss_services := map_put service_name (fst (register_method method_name callback s))
               (ss_services st)\<rparr>)"

text \<open>The response header and the response for a parsed request.\<close>

definition dispatch ::
  "'s server_stub \<Rightarrow> rpc_header \<Rightarrow> nat \<Rightarrow> string \<Rightarrow> 's \<Rightarrow> (rpc_response_header \<times> string \<times> 's) res" where
  "dispatch st header head_size read_buffer u =
     (case map_of (ss_services st) (rh_service_name header) of
        None \<Rightarrow> Inr (\<lparr>rr_status = INVALID_REQUEST, rr_message = ''service not found'', rr_args_size = 0\<rparr>, '''', u)
      | Some service \<Rightarrow>
          if has_method (rh_method_name header) service then
            ubind (substr read_buffer (4 + head_size) (rh_args_size header)) (\<lambda>args.
            ubind (call_method (rh_method_name header) args service u) (\<lambda>(response, u).
            Inr (\<lparr>rr_status = SUCCESS, rr_message = ''success'', rr_args_size = s32 (int (length response))\<rparr>,
                 response, u)))
          else Inr (\<lparr>rr_status = INVALID_REQUEST, rr_message = ''method not found'', rr_args_size = 0\<rparr>, '''', u))"

definition process_request ::
  "codec \<Rightarrow> 's server_stub \<Rightarrow> string \<Rightarrow> 's \<Rightarrow> (string \<times> 's) res" where
  "process_request cd st read_buffer u =
     ubind (get_u32 read_buffer) (\<lambda>head_size.
     ubind (substr read_buffer 4 head_size) (\<lambda>head.
     ubind (dispatch st (cd_hparse cd head) head_size read_buffer u) (\<lambda>(response_header, response, u).
     let response_header_str = cd_rser cd response_header
     in Inr (u32_bytes (length response_header_str) @ response_header_str @ response, u))))"

definition registerAllService ::
  "'z registrar option \<Rightarrow> string \<Rightarrow> 's server_stub \<Rightarrow> 'z \<Rightarrow> ('s server_stub \<times> 'z) res" where
  "registerAllService ns_register ipPortAddr st z =
     ubind (run_res (\<lambda>p. registerAllMethod ns_register ipPortAddr (snd p)) (ss_services st) z) (\<lambda>z.
     Inr (st\<lparr>ss_ipPortAddr := ipPortAddr\<rparr>, z))"

definition UnregisterAll :: "'z registrar option \<Rightarrow> 's server_stub \<Rightarrow> 'z \<Rightarrow> 'z res" where
  "UnregisterAll ns_unregister st z =
     run_res (\<lambda>p. UnregisterAllMethod ns_unregister (ss_ipPortAddr st) (snd p)) (ss_services st) z"

text \<open>The address a server is registered under.\<close>

definition addr_str :: "string option \<Rightarrow> int \<Rightarrow> string" where
  "addr_str ip port = (case ip of None \<Rightarrow> ''127.0.0.1'' | Some a \<Rightarrow> a) @ '':'' @ dec port"

definition stub_start ::
  "'z registrar option \<Rightarrow> net_sys \<Rightarrow> string option \<Rightarrow> int \<Rightarrow> 's server_stub \<times> 'cb tcp_server \<Rightarrow>
   'z \<Rightarrow> fds \<Rightarrow> (('s server_stub \<times> 'cb tcp_server) \<times> 'z \<times> fds \<times> bool) res" where
  "stub_start ns_register sys ip port p z k =
     ubind (registerAllService ns_register (addr_str ip port) (fst p) z) (\<lambda>(st, z).
     let (t, k, started) = tcp_start sys ip port (snd p) k
     in Inr ((st, t), z, k, started))"

definition stub_start_multi ::
  "'z registrar option \<Rightarrow> net_sys \<Rightarrow> nat \<Rightarrow> string option \<Rightarrow> int \<Rightarrow> 's server_stub \<times> 'cb tcp_server \<Rightarrow>
   'z \<Rightarrow> fds \<Rightarrow> (('s server_stub \<times> 'cb tcp_server) \<times> 'z \<times> fds \<times> nat list) res" where
  "stub_start_multi ns_register sys tCnt ip port p z k =
     ubind (registerAllService ns_register (addr_str ip port) (fst p) z) (\<lambda>(st, z).
     let (t, k, started) = tcp_start_multi sys tCnt ip port (snd p) k
     in Inr ((st, t), z, k, started))"

section \<open>The server\<close>

text \<open>
  \<open>start\<close> registers \<open>on_connection\<close>, the only callback there is, so its type is \<open>unit\<close>.
\<close>

definition rpc_start ::
  "'z registrar option \<Rightarrow> net_sys \<Rightarrow> string option \<Rightarrow> int \<Rightarrow> 's server_stub \<times> unit tcp_server \<Rightarrow>
   'z \<Rightarrow> fds \<Rightarrow> (('s server_stub \<times> unit tcp_server) \<times> 'z \<times> fds \<times> bool) res" where
  "rpc_start ns_register sys ip port p =
     stub_start ns_register sys ip port (fst p, register_connection (Registered ()) (snd p))"

definition rpc_start_multi ::
  "'z registrar option \<Rightarrow> net_sys \<Rightarrow> nat \<Rightarrow> string option \<Rightarrow> int \<Rightarrow> 's server_stub \<times> unit tcp_server \<Rightarrow>
   'z \<Rightarrow> fds \<Rightarrow> (('s server_stub \<times> unit tcp_server) \<times> 'z \<times> fds \<times> nat list) res" where
  "rpc_start_multi ns_register sys tCnt ip port p =
     stub_start_multi ns_register sys tCnt ip port (fst p, register_connection (Registered ()) (snd p))"

definition add_service ::
  "string \<Rightarrow> string \<Rightarrow> 's method_callback \<Rightarrow> 's server_stub \<Rightarrow> 's server_stub" where
  "add_service service_name method_name callback = RegisterService service_name method_name callback"

text \<open>
  The loop of a connection. \<open>reads\<close> are the results of \<open>read\<close>, of up to 4096 bytes each; every
  one is taken for a whole request. The value holds the responses that were given to \<open>send\<close>
  and whether the client has disconnected. Nobody catches an exception of a request.
\<close>

fun on_connection ::
  "codec \<Rightarrow> 's server_stub \<Rightarrow> string list \<Rightarrow> 's \<Rightarrow> string list \<Rightarrow> (string list \<times> 's \<times> bool) res" where
  "on_connection cd st [] u sent = Inr (sent, u, False)"
| "on_connection cd st (r # reads) u sent =
     (if r = '''' then Inr (sent, u, True)
      else ubind (process_request cd st r u) (\<lambda>(write_buf, u).
             on_connection cd st reads u (sent @ [write_buf])))"

section \<open>The wire format\<close>

text \<open>A message: the length of the header, the header, the body.\<close>

definition frame :: "string \<Rightarrow> string \<Rightarrow> string" where
  "frame head body = u32_bytes (length head) @ head @ body"

lemma length_u32_bytes [simp]: "length (u32_bytes n) = 4"
  by (simp add: u32_bytes_def)

lemma get_u32_bytes:
  assumes "n < 2 ^ 32"
  shows "get_u32 (u32_bytes n @ rest) = Inr n"
proof -
  let ?a = "n div 256" let ?b = "n div 65536" let ?c = "n div 16777216"
  have b: "?b = ?a div 256" and c: "?c = ?b div 256"
    by (simp_all flip: div_mult2_eq)
  have "n mod 256 + 256 * ?a = n" "?a mod 256 + 256 * ?b = ?a" "?b mod 256 + 256 * ?c = ?b"
    unfolding c unfolding b by simp_all
  then have "n mod 256 + 256 * (?a mod 256) + 65536 * (?b mod 256) + 16777216 * ?c = n"
    by linarith
  moreover have "?c mod 256 = ?c" using assms by simp
  ultimately show ?thesis by (simp add: u32_bytes_def get_u32_def)
qed

lemma get_u32_frame: "length head < 2 ^ 32 \<Longrightarrow> get_u32 (frame head body) = Inr (length head)"
  by (simp add: frame_def get_u32_bytes)

lemma substr_frame_head: "substr (frame head body) 4 (length head) = Inr head"
  by (simp add: substr_def frame_def)

lemma substr_frame_body: "substr (frame head body) (4 + length head) n = Inr (take n body)"
  by (simp add: substr_def frame_def)

section \<open>The services as a map\<close>

definition stub_lookup :: "'s server_stub \<Rightarrow> string \<Rightarrow> string \<Rightarrow> 's method_callback option" where
  "stub_lookup st service_name method_name =
     (case map_of (ss_services st) service_name of
        None \<Rightarrow> None
      | Some s \<Rightarrow> map_option rm_callback (map_of (rs_methods s) method_name))"

text \<open>Every map is in ascending order and files its values under their names.\<close>

definition service_ok :: "'s rpc_service \<Rightarrow> bool" where
  "service_ok s \<longleftrightarrow> ascending (rs_methods s) \<and>
     (\<forall>(k, m) \<in> set (rs_methods s). rm_name m = k \<and> k \<noteq> '''')"

definition stub_ok :: "'s server_stub \<Rightarrow> bool" where
  "stub_ok st \<longleftrightarrow> ascending (ss_services st) \<and>
     (\<forall>(k, s) \<in> set (ss_services st). rs_name s = k \<and> service_ok s)"

text \<open>What a request is answered with, in terms of the map.\<close>

definition answer ::
  "'s server_stub \<Rightarrow> string \<Rightarrow> string \<Rightarrow> string \<Rightarrow> 's \<Rightarrow> rpc_response_header \<times> string \<times> 's" where
  "answer st service_name method_name args u =
     (case stub_lookup st service_name method_name of
        Some callback \<Rightarrow>
          let (response, u) = callback args u
          in (\<lparr>rr_status = SUCCESS, rr_message = ''success'', rr_args_size = s32 (int (length response))\<rparr>,
              response, u)
      | None \<Rightarrow>
          (\<lparr>rr_status = INVALID_REQUEST,
             rr_message = (if map_of (ss_services st) service_name = None then ''service not found''
                           else ''method not found''),
             rr_args_size = 0\<rparr>, '''', u))"

lemma dispatch_frame:
  "dispatch st hdr (length head) (frame head body) u =
     Inr (answer st (rh_service_name hdr) (rh_method_name hdr) (take (rh_args_size hdr) body) u)"
  by (auto simp: dispatch_def answer_def stub_lookup_def has_method_def substr_frame_body call_method_def
      callMethod_def split: option.split prod.split)

lemma process_frame:
  assumes "cd_hparse cd head = hdr" "length head < 2 ^ 32"
    and "answer st (rh_service_name hdr) (rh_method_name hdr) (take (rh_args_size hdr) body) u =
      (rhdr, response, u')"
  shows "process_request cd st (frame head body) u = Inr (frame (cd_rser cd rhdr) response, u')"
  using assms
  by (simp add: process_request_def get_u32_frame substr_frame_head dispatch_frame Let_def)
    (simp add: frame_def)

section \<open>Lemmas on registration\<close>

lemma set_map_put: "set (map_put k v xs) \<subseteq> insert (k, v) (set xs)"
  by (induction k v xs rule: map_put.induct) auto

lemma register_method_ok: "service_ok s \<Longrightarrow> service_ok (fst (register_method name cb s))"
  using set_map_put [of name "\<lparr>rm_name = name, rm_callback = cb\<rparr>" "rs_methods s"]
  by (auto simp: register_method_def register_method_ptr_def service_ok_def ascending_map_put)

lemma register_method_frame [simp]: "rs_name (fst (register_method name cb s)) = rs_name s"
  by (simp add: register_method_def register_method_ptr_def)

lemma service_ok_new: "service_ok (rpc_service_new name)"
  by (simp add: service_ok_def rpc_service_new_def)

lemma stub_ok_service: "stub_ok st \<Longrightarrow> map_of (ss_services st) name = Some s \<Longrightarrow> rs_name s = name \<and> service_ok s"
  by (auto simp: stub_ok_def dest: map_of_SomeD)

lemma RegisterService_refines:
  assumes "stub_ok st"
  shows "stub_ok (RegisterService service_name method_name callback st) \<and>
    stub_lookup (RegisterService service_name method_name callback st) s m =
      (if method_name \<noteq> '''' \<and> s = service_name \<and> m = method_name then Some callback
       else stub_lookup st s m)"
proof -
  let ?s = "case map_of (ss_services st) service_name of None \<Rightarrow> rpc_service_new service_name | Some s \<Rightarrow> s"
  have r: "RegisterService service_name method_name callback st =
      st\<lparr>ss_services := map_put service_name (fst (register_method method_name callback ?s)) (ss_services st)\<rparr>"
    by (simp add: RegisterService_def split: option.split)
  have "rs_name ?s = service_name \<and> service_ok ?s"
    using stub_ok_service [OF assms] service_ok_new
    by (auto simp: rpc_service_new_def split: option.split)
  then have "stub_ok (RegisterService service_name method_name callback st)"
    using assms set_map_put [of service_name "fst (register_method method_name callback ?s)" "ss_services st"]
    unfolding r by (auto simp: stub_ok_def ascending_map_put register_method_ok)
  moreover have "stub_lookup (RegisterService service_name method_name callback st) s m =
      (if method_name \<noteq> '''' \<and> s = service_name \<and> m = method_name then Some callback
       else stub_lookup st s m)"
    unfolding r
    by (auto simp: stub_lookup_def register_method_def register_method_ptr_def rpc_service_new_def
        split: option.split)
  ultimately show ?thesis by blast
qed

lemma stub_ok_new: "stub_ok server_stub_new"
  by (simp add: stub_ok_def server_stub_new_def)

lemma stub_lookup_new: "stub_lookup server_stub_new s m = None"
  by (simp add: stub_lookup_def server_stub_new_def)

text \<open>
  The contract: a table of callbacks under pairs of names, of which a registration changes one
  entry. Its client is the sequence of registrations before a server is started.
\<close>

locale callback_table =
  fixes ok :: "'t \<Rightarrow> bool"
    and lookup :: "'t \<Rightarrow> string \<Rightarrow> string \<Rightarrow> 'cb option"
    and register :: "string \<Rightarrow> string \<Rightarrow> 'cb \<Rightarrow> 't \<Rightarrow> 't"
  assumes register_ok: "ok t \<Longrightarrow> ok (register s m cb t)"
    and lookup_register: "ok t \<Longrightarrow> lookup (register s m cb t) s' m' =
      (if m \<noteq> '''' \<and> s' = s \<and> m' = m then Some cb else lookup t s' m')"
begin

lemma run_ok: "ok t \<Longrightarrow> ok (fold (\<lambda>(s, m, cb). register s m cb) rs t)"
  by (induction rs arbitrary: t) (auto simp: register_ok)

lemma run_lookup:
  "ok t \<Longrightarrow> lookup (fold (\<lambda>(s, m, cb). register s m cb) rs t) sn mn =
     (case map_of (rev (map (\<lambda>(s, m, cb). ((s, m), cb)) (filter (\<lambda>(s, m, cb). m \<noteq> '''') rs))) (sn, mn) of
        None \<Rightarrow> lookup t sn mn | Some cb \<Rightarrow> Some cb)"
  by (induction rs arbitrary: t)
    (auto simp: register_ok lookup_register map_add_def split: option.split)

end

interpretation stub: callback_table stub_ok stub_lookup RegisterService
  by unfold_locales (use RegisterService_refines in blast)+

text \<open>The calls of the register, in order.\<close>

definition stub_pairs :: "'s server_stub \<Rightarrow> (string \<times> string) list" where
  "stub_pairs st = concat (map (\<lambda>(k, s). map (\<lambda>(n, m). (rs_name s, n)) (rs_methods s)) (ss_services st))"

lemma run_res_map: "run_res f (map g xs) z = run_res (f \<circ> g) xs z"
  by (induction xs arbitrary: z) (auto simp: ubind_def split: sum.splits)

lemma run_res_concat: "run_res f (concat xss) z = run_res (run_res f) xss z"
  by (induction xss arbitrary: z) (auto simp: run_res_append ubind_def split: sum.splits)

lemma run_res_cong: "(\<And>x z. x \<in> set xs \<Longrightarrow> f x z = g x z) \<Longrightarrow> run_res f xs z = run_res g xs z"
  by (induction xs arbitrary: z) (auto intro!: ubind_cong)

lemma stub_lookup_Some:
  "stub_lookup st s m = Some cb \<longleftrightarrow>
     (\<exists>sv me. map_of (ss_services st) s = Some sv \<and> map_of (rs_methods sv) m = Some me \<and> rm_callback me = cb)"
  by (auto simp: stub_lookup_def split: option.split)

lemma stub_pairs_set:
  assumes "stub_ok st"
  shows "set (stub_pairs st) = {(s, m). stub_lookup st s m \<noteq> None}"
proof -
  have d: "distinct (map fst (ss_services st))" using assms by (simp add: stub_ok_def ascending_distinct)
  have names: "(k, sv) \<in> set (ss_services st) \<Longrightarrow> rs_name sv = k" for k sv
    using assms by (auto simp: stub_ok_def)
  have "(s, m) \<in> set (stub_pairs st) \<longleftrightarrow>
      (\<exists>p \<in> set (ss_services st). rs_name (snd p) = s \<and> m \<in> fst ` set (rs_methods (snd p)))" for s m
    by (simp add: stub_pairs_def split_beta) blast
  also have "\<dots> s m \<longleftrightarrow> (\<exists>sv. (s, sv) \<in> set (ss_services st) \<and> m \<in> fst ` set (rs_methods sv))" for s m
    using names by (metis prod.collapse snd_conv)
  also have "\<dots> s m \<longleftrightarrow> (\<exists>sv. map_of (ss_services st) s = Some sv \<and> map_of (rs_methods sv) m \<noteq> None)" for s m
    using d by (simp add: map_of_eq_None_iff)
  also have "\<dots> s m \<longleftrightarrow> stub_lookup st s m \<noteq> None" for s m
    by (auto simp: stub_lookup_def split: option.split)
  finally show ?thesis by auto
qed

lemma stub_pairs_distinct:
  assumes "stub_ok st"
  shows "distinct (stub_pairs st)"
proof -
  have *: "ascending xs \<Longrightarrow> \<forall>(k, s) \<in> set xs. rs_name s = k \<and> service_ok s \<Longrightarrow>
    distinct (concat (map (\<lambda>(k, s). map (\<lambda>(n, m). (rs_name s, n)) (rs_methods s)) xs))"
    for xs :: "(string \<times> 's rpc_service) list"
  proof (induction xs)
    case (Cons x xs)
    obtain k s where x: "x = (k, s)" by (cases x)
    from Cons.prems x have s: "rs_name s = k" "distinct (map fst (rs_methods s))"
      by (auto simp: service_ok_def ascending_distinct)
    have "distinct (map (\<lambda>(n, m). (rs_name s, n)) (rs_methods s))"
      using s(2) by (simp add: distinct_map inj_on_def split_beta)
    with Cons x s show ?case by fastforce
  qed simp
  show ?thesis using * [of "ss_services st"] assms by (simp add: stub_pairs_def stub_ok_def)
qed

lemma run_services:
  "run_res (\<lambda>p. registerAllMethod (Some reg) addr (snd p)) (ss_services st) z =
     run_res (\<lambda>(s, m). reg (c_str s) (c_str m) (c_str addr)) (stub_pairs st) z"
  "run_res (\<lambda>p. UnregisterAllMethod (Some reg) addr (snd p)) (ss_services st) z =
     run_res (\<lambda>(s, m). reg (c_str s) (c_str m) (c_str addr)) (stub_pairs st) z"
  unfolding stub_pairs_def run_res_concat run_res_map comp_def
  by (rule run_res_cong, simp add: registerAllMethod_def UnregisterAllMethod_def run_res_map comp_def
      split_beta split: prod.split)+

section \<open>Properties\<close>

text \<open>
  C9: a whole request is answered by the callback registered for its service and method, run
  once on its arguments, with status SUCCESS and the length of the response; a request for
  anything else runs no callback and is answered with INVALID_REQUEST.
\<close>

theorem process_request_answers:
  assumes "cd_hparse cd head = hdr" "length head < 2 ^ 32" "rh_args_size hdr = length args"
  shows "process_request cd st (frame head args) u =
    (case stub_lookup st (rh_service_name hdr) (rh_method_name hdr) of
       Some callback \<Rightarrow>
         let (response, u') = callback args u
         in Inr (frame (cd_rser cd \<lparr>rr_status = SUCCESS, rr_message = ''success'',
                   rr_args_size = s32 (int (length response))\<rparr>) response, u')
     | None \<Rightarrow>
         Inr (frame (cd_rser cd \<lparr>rr_status = INVALID_REQUEST,
               rr_message = (if map_of (ss_services st) (rh_service_name hdr) = None
                 then ''service not found'' else ''method not found''), rr_args_size = 0\<rparr>) '''', u))"
  using process_frame [OF assms(1,2), of st args u] assms(3)
  by (auto simp: answer_def split: option.split prod.split)

text \<open>
  C14: whatever sequence of \<open>add_service\<close> a server was given, its two levels of maps are
  well-formed, and a service and method are answered by the callback that was registered for
  them last; an empty method name registers nothing.
\<close>

theorem registered_last_answers:
  "stub_ok (fold (\<lambda>(s, m, cb). add_service s m cb) rs server_stub_new) \<and>
   stub_lookup (fold (\<lambda>(s, m, cb). add_service s m cb) rs server_stub_new) sn mn =
     map_of (rev (map (\<lambda>(s, m, cb). ((s, m), cb)) (filter (\<lambda>(s, m, cb). m \<noteq> '''') rs))) (sn, mn)"
  using stub.run_ok [OF stub_ok_new, of rs] stub.run_lookup [OF stub_ok_new, of rs sn mn]
  by (simp add: add_service_def stub_lookup_new split: option.split)

text \<open>
  C15: the start of a server registers, and its end unregisters, exactly the pairs of a service
  and a method that it serves, each once, under its address; without a register the process
  exits as soon as there is a service with a method, in the destructor too.
\<close>

theorem every_method_is_registered:
  assumes "stub_ok st"
  shows "registerAllService (Some reg) addr st z =
      ubind (run_res (\<lambda>(s, m). reg (c_str s) (c_str m) (c_str addr)) (stub_pairs st) z)
        (\<lambda>z. Inr (st\<lparr>ss_ipPortAddr := addr\<rparr>, z)) \<and>
    UnregisterAll (Some reg) st z =
      run_res (\<lambda>(s, m). reg (c_str s) (c_str m) (c_str (ss_ipPortAddr st))) (stub_pairs st) z \<and>
    distinct (stub_pairs st) \<and> set (stub_pairs st) = {(s, m). stub_lookup st s m \<noteq> None} \<and>
    (ss_services st \<noteq> [] \<longrightarrow>
       registerAllService None addr st z = Inl Exited \<and> UnregisterAll None st z = Inl Exited)"
proof -
  have "registerAllService None addr st z = Inl Exited \<and> UnregisterAll None st z = Inl Exited"
    if "ss_services st \<noteq> []"
    using that by (cases "ss_services st")
      (auto simp: registerAllService_def UnregisterAll_def registerAllMethod_def UnregisterAllMethod_def)
  then show ?thesis
    using stub_pairs_set [OF assms] stub_pairs_distinct [OF assms]
    by (simp add: registerAllService_def UnregisterAll_def run_services)
qed

text \<open>
  Of a request longer than the buffer of the connection, the first read is taken for the
  whole: the callback runs on the arguments that fitted and the answer says SUCCESS.
\<close>

theorem long_request_truncated:
  assumes "cd_hparse cd head = hdr" "length head \<le> 4092"
    and "rh_args_size hdr = length args" "4096 < length (frame head args)"
    and "stub_lookup st (rh_service_name hdr) (rh_method_name hdr) = Some callback"
    and "callback (take (4092 - length head) args) u = (response, u')"
  shows "on_connection cd st (take 4096 (frame head args) # reads) u sent =
    on_connection cd st reads u' (sent @ [frame (cd_rser cd \<lparr>rr_status = SUCCESS, rr_message = ''success'',
      rr_args_size = s32 (int (length response))\<rparr>) response])"
proof -
  let ?args = "take (4092 - length head) args"
  have t: "take 4096 (frame head args) = frame head ?args" and ne: "frame head ?args \<noteq> ''''"
    using assms(2) by (simp_all add: frame_def u32_bytes_def)
  have "take (rh_args_size hdr) ?args = ?args" using assms(3) by (simp add: min_def)
  then have "process_request cd st (frame head ?args) u =
      Inr (frame (cd_rser cd \<lparr>rr_status = SUCCESS, rr_message = ''success'',
        rr_args_size = s32 (int (length response))\<rparr>) response, u')"
    using assms by (intro process_frame) (auto simp: answer_def)
  with ne show ?thesis by (simp add: t)
qed

section \<open>Witnesses\<close>

text \<open>A small text codec, which reads back every header whose names have no slash.\<close>

definition upto_slash :: "string \<Rightarrow> string \<times> string" where
  "upto_slash s = (takeWhile (\<lambda>c. c \<noteq> CHR ''/'') s, tl (dropWhile (\<lambda>c. c \<noteq> CHR ''/'') s))"

definition demo_codec :: codec where
  "demo_codec =
     \<lparr>cd_hser = (\<lambda>h. rh_service_name h @ ''/'' @ rh_method_name h @ ''/'' @ replicate (rh_args_size h) CHR ''i''),
      cd_hparse = (\<lambda>s. let (a, r) = upto_slash s; (b, r) = upto_slash r
        in \<lparr>rh_service_name = a, rh_method_name = b, rh_args_size = length r\<rparr>),
      cd_rser = (\<lambda>h. (case rr_status h of SUCCESS \<Rightarrow> ''S'' | INVALID_REQUEST \<Rightarrow> ''I'' | _ \<Rightarrow> ''U'') @
        rr_message h @ ''/'' @ replicate (nat (rr_args_size h)) CHR ''i''),
      cd_rparse = (\<lambda>s. let (a, r) = upto_slash s
        in \<lparr>rr_status = (if take 1 a = ''S'' then SUCCESS else if take 1 a = ''I'' then INVALID_REQUEST
              else UNKNOWN_ERROR),
            rr_message = drop 1 a, rr_args_size = int (length r)\<rparr>)\<rparr>"

definition demo_stub :: "nat server_stub" where
  "demo_stub = RegisterService ''math'' ''twice'' (\<lambda>args u. (args @ args, u + 1)) server_stub_new"

lemma demo_stub_simps [simp]:
  "ss_services demo_stub = [(''math'', \<lparr>rs_name = ''math'', rs_methods =
     [(''twice'', \<lparr>rm_name = ''twice'', rm_callback = \<lambda>args u. (args @ args, u + 1)\<rparr>)]\<rparr>)]"
  "stub_lookup demo_stub ''math'' ''twice'' = Some (\<lambda>args u. (args @ args, u + 1))"
  by (simp_all add: demo_stub_def stub_lookup_def RegisterService_def server_stub_new_def register_method_def
      register_method_ptr_def rpc_service_new_def)

lemma demo_codec_simps [simp]:
  "cd_hparse demo_codec ''math/twice/iii'' =
     \<lparr>rh_service_name = ''math'', rh_method_name = ''twice'', rh_args_size = 3\<rparr>"
  "cd_hser demo_codec \<lparr>rh_service_name = ''math'', rh_method_name = ''twice'', rh_args_size = 3\<rparr> = ''math/twice/iii''"
  "cd_rser demo_codec \<lparr>rr_status = SUCCESS, rr_message = ''success'', rr_args_size = 6\<rparr> = ''Ssuccess/iiiiii''"
  "cd_rparse demo_codec ''Ssuccess/iiiiii'' = \<lparr>rr_status = SUCCESS, rr_message = ''success'', rr_args_size = 6\<rparr>"
  by (simp_all add: demo_codec_def upto_slash_def eval_nat_numeral)

lemma process_request_answers_witness:
  "process_request demo_codec demo_stub (frame ''math/twice/iii'' ''abc'') 0 =
     Inr (frame ''Ssuccess/iiiiii'' ''abcabc'', 1)"
  using process_request_answers [of demo_codec "''math/twice/iii''" _ "''abc''" demo_stub 0]
  by (simp add: s32_def)

lemma every_method_is_registered_witness:
  "registerAllService (Some (\<lambda>s m a z. Inr ((s, m, a) # z))) ''10.0.0.1:80'' demo_stub [] =
     Inr (demo_stub\<lparr>ss_ipPortAddr := ''10.0.0.1:80''\<rparr>, [(''math'', ''twice'', ''10.0.0.1:80'')])"
proof -
  have "stub_ok demo_stub" by (simp add: stub_ok_def service_ok_def)
  from every_method_is_registered [OF this, of "\<lambda>s m a z. Inr ((s, m, a) # z)" "''10.0.0.1:80''" "[]"]
  show ?thesis by (simp add: stub_pairs_def c_str_def)
qed

lemma long_request_truncated_witness:
  "on_connection
     (demo_codec\<lparr>cd_hparse := \<lambda>_. \<lparr>rh_service_name = ''math'', rh_method_name = ''twice'', rh_args_size = 5000\<rparr>\<rparr>)
     demo_stub [take 4096 (frame ''h'' (replicate 5000 CHR ''x''))] 0 [] =
   Inr ([frame (cd_rser demo_codec \<lparr>rr_status = SUCCESS, rr_message = ''success'', rr_args_size = 8182\<rparr>)
     (replicate 4091 CHR ''x'' @ replicate 4091 CHR ''x'')], 1, False)"
  using long_request_truncated [of
      "demo_codec\<lparr>cd_hparse := \<lambda>_. \<lparr>rh_service_name = ''math'', rh_method_name = ''twice'', rh_args_size = 5000\<rparr>\<rparr>"
      "''h''" _ "replicate 5000 CHR ''x''" demo_stub _ 0 "replicate 4091 CHR ''x'' @ replicate 4091 CHR ''x''" 1 "[]" "[]"]
  by (simp add: s32_def frame_def)

end
