(* ===== verification/ZooKeeper.thy ===== *)
theory ZooKeeper
  imports OrderedMap
begin

text \<open>
  The client of ZooKeeper (\<open>src/zk_client.cc\<close>) and the name service register that a server uses
  (\<open>include/rpc_proto/zk_name_service_register.h\<close>). The ZooKeeper library and its server are not
  part of the program: \<open>zoo\<close> holds the calls the code makes, as functions of the server's state
  \<open>'z\<close>. \<open>zoo_tree\<close> is what the theorems need of them, as the documentation states it for a
  session that is connected: the nodes decide the answers, a node can be created under any
  node that is not ephemeral, and the children of a node are listed by their last names. It
  speaks of printable names and of nodes that are not numbered.
\<close>

section \<open>The calls\<close>

datatype create_mode = ZOO_PERSISTENT | ZOO_EPHEMERAL | ZOO_PERSISTENT_SEQUENTIAL |
  ZOO_EPHEMERAL_SEQUENTIAL | ZOO_PERSISTENT_SEQUENTIAL_WITH_TTL | ZOO_CONTAINER

abbreviation (input) ZOK :: int where "ZOK \<equiv> 0"
abbreviation (input) ZNONODE :: int where "ZNONODE \<equiv> -101"

text \<open>\<open>zoo_get\<close> gives the bytes it wrote to the buffer.\<close>

record 'z zoo =
  zoo_exists :: "string \<Rightarrow> 'z \<Rightarrow> int"
  zoo_create :: "string \<Rightarrow> string option \<Rightarrow> create_mode \<Rightarrow> 'z \<Rightarrow> 'z \<times> int"
  zoo_get :: "string \<Rightarrow> 'z \<Rightarrow> int \<times> string"
  zoo_set :: "string \<Rightarrow> string \<Rightarrow> int \<Rightarrow> 'z \<Rightarrow> 'z \<times> int"
  zoo_delete :: "string \<Rightarrow> int \<Rightarrow> 'z \<Rightarrow> 'z \<times> int"
  zoo_wget_children :: "string \<Rightarrow> 'z \<Rightarrow> 'z \<times> int \<times> string list"

section \<open>The session\<close>

text \<open>
  The library calls \<open>watcher\<close> when the state of the session changes. Its context is the
  semaphore of the constructor, here the number of its tokens, or \<open>None\<close> once the constructor
  has destroyed it.
\<close>

datatype session_state = ZOO_CONNECTED_STATE | OtherState

definition zk_watcher :: "session_state \<Rightarrow> nat option \<Rightarrow> nat option res" where
  "zk_watcher state sem =
     (if state = ZOO_CONNECTED_STATE
      then case sem of None \<Rightarrow> Inl UseAfterFree | Some n \<Rightarrow> Inr (Some (n + 1))
      else Inr sem)"

text \<open>\<open>sem_wait\<close> while the states in the list come in; \<open>Inr None\<close> is still waiting.\<close>

fun sem_wait_events :: "session_state list \<Rightarrow> nat option \<Rightarrow> (session_state list \<times> nat option) option res" where
  "sem_wait_events es None = Inl UseAfterFree"
| "sem_wait_events es (Some (Suc n)) = Inr (Some (es, Some n))"
| "sem_wait_events [] (Some 0) = Inr None"
| "sem_wait_events (e # es) (Some 0) = ubind (zk_watcher e (Some 0)) (sem_wait_events es)"

record zk_client =
  zh_open :: bool

text \<open>
  The constructor; \<open>zh\<close> says whether \<open>zookeeper_init\<close> gave a handle. The value holds the states
  that come in later and the semaphore, which is then destroyed.
\<close>

definition zk_client_new ::
  "bool \<Rightarrow> session_state list \<Rightarrow> (zk_client \<times> session_state list \<times> nat option) option res" where
  "zk_client_new zh events =
     ubind (sem_wait_events (if zh then events else []) (Some 0)) (\<lambda>r.
     Inr (map_option (\<lambda>(es, sem). (\<lparr>zh_open = zh\<rparr>, es, None)) r))"

definition zk_client_destroy :: "zk_client \<Rightarrow> zk_client" where
  "zk_client_destroy c = (if zh_open c then c\<lparr>zh_open := False\<rparr> else c)"

lemma sem_wait_connected:
  "sem_wait_events es (Some 0) =
     Inr (case dropWhile (\<lambda>e. e \<noteq> ZOO_CONNECTED_STATE) es of [] \<Rightarrow> None | e # es \<Rightarrow> Some (es, Some 0))"
proof (induction es)
  case (Cons e es)
  then show ?case by (cases e) (cases es; simp add: zk_watcher_def)+
qed simp

text \<open>
  The constructor returns when the session is connected for the first time, and never when no
  handle was given; a later connection of the same session uses the destroyed semaphore.
\<close>

lemma zk_client_new_waits:
  "zk_client_new True (replicate n OtherState @ ZOO_CONNECTED_STATE # es) = Inr (Some (\<lparr>zh_open = True\<rparr>, es, None))"
  "zk_client_new False es = Inr None"
  "zk_watcher ZOO_CONNECTED_STATE None = Inl UseAfterFree"
proof -
  have "dropWhile (\<lambda>e. e \<noteq> ZOO_CONNECTED_STATE) (replicate n OtherState @ ZOO_CONNECTED_STATE # es) =
      ZOO_CONNECTED_STATE # es" by (induction n) auto
  then show "zk_client_new True (replicate n OtherState @ ZOO_CONNECTED_STATE # es) =
      Inr (Some (\<lparr>zh_open = True\<rparr>, es, None))"
    by (simp add: zk_client_new_def sem_wait_connected)
qed (simp_all add: zk_client_new_def zk_watcher_def)

section \<open>\<open>ZkClient\<close>\<close>

definition sequential :: "create_mode \<Rightarrow> bool" where
  "sequential flags \<longleftrightarrow> flags = ZOO_EPHEMERAL_SEQUENTIAL \<or> flags = ZOO_PERSISTENT_SEQUENTIAL \<or>
     flags = ZOO_PERSISTENT_SEQUENTIAL_WITH_TTL"

definition zk_create ::
  "'z zoo \<Rightarrow> string \<Rightarrow> string option \<Rightarrow> create_mode \<Rightarrow> 'z \<Rightarrow> 'z \<times> int" where
  "zk_create zk path data flags z =
     (if take 1 path \<noteq> ''/'' then (z, -1)
      else if sequential flags \<or> zoo_exists zk path z = ZNONODE then
        let (z, rc) = zoo_create zk path data flags z
        in if rc = ZOK then (z, 0) else (z, -1)
      else (z, -1))"

text \<open>
  The buffer of \<open>get\<close> has 64 bytes that nobody initialises, \<open>junk\<close>; it is read up to the first
  NUL, and in the case of an error the result is made from the null pointer.
\<close>

definition zk_get :: "'z zoo \<Rightarrow> string \<Rightarrow> string \<Rightarrow> 'z \<Rightarrow> string res" where
  "zk_get zk junk path z =
     (let (rc, data) = zoo_get zk path z; buffer = data @ drop (length data) junk in
      if CHR 0x00 \<notin> set buffer then Inl OutOfBounds
      else if rc = ZOK then Inr (c_str buffer)
      else Inl NullDeref)"

definition zk_set :: "'z zoo \<Rightarrow> string \<Rightarrow> string \<Rightarrow> int \<Rightarrow> 'z \<Rightarrow> 'z \<times> int" where
  "zk_set zk path value version z =
     (let (z, rc) = zoo_set zk path value version z in if rc = ZOK then (z, 0) else (z, -1))"

definition delete_node_no_version_check :: "'z zoo \<Rightarrow> string \<Rightarrow> 'z \<Rightarrow> 'z \<times> int" where
  "delete_node_no_version_check zk path z = zoo_delete zk path (-1) z"

text \<open>The vector of children is written on success only.\<close>

definition list_children_and_watch :: "'z zoo \<Rightarrow> string \<Rightarrow> 'z \<Rightarrow> 'z \<times> string list option" where
  "list_children_and_watch zk path z =
     (let (z, rc, children) = zoo_wget_children zk path z
      in (z, if rc = ZOK then Some children else None))"

section \<open>The register\<close>

definition RegisterMethod :: "'z zoo \<Rightarrow> string \<Rightarrow> string \<Rightarrow> string \<Rightarrow> 'z \<Rightarrow> 'z res" where
  "RegisterMethod zk service_name method_name ipPort z =
     (let path = ''/'' @ service_name;
          (z, _) = zk_create zk path None ZOO_PERSISTENT z;
          path = path @ ''/'' @ method_name;
          (z, _) = zk_create zk path None ZOO_PERSISTENT z;
          path = path @ ''/'' @ ipPort;
          (z, _) = zk_create zk path None ZOO_EPHEMERAL z
      in Inr z)"

definition UnregisterMethod :: "'z zoo \<Rightarrow> string \<Rightarrow> string \<Rightarrow> string \<Rightarrow> 'z \<Rightarrow> 'z res" where
  "UnregisterMethod zk service_name method_name ipPort z =
     (let path = ''/'' @ service_name @ ''/'' @ method_name @ ''/'' @ ipPort;
          (z, _) = delete_node_no_version_check zk path z
      in Inr z)"

section \<open>The tree of nodes\<close>

text \<open>\<open>tree z\<close> maps the path of every node to its mode.\<close>

definition zname :: "string \<Rightarrow> bool" where
  "zname s \<longleftrightarrow> s \<noteq> '''' \<and> s \<noteq> ''.'' \<and> s \<noteq> ''..'' \<and> s \<noteq> ''zookeeper'' \<and>
     (\<forall>c \<in> set s. 32 < (of_char c :: nat) \<and> (of_char c :: nat) < 127 \<and> c \<noteq> CHR ''/'')"

definition children :: "(string \<rightharpoonup> create_mode) \<Rightarrow> string \<Rightarrow> string set" where
  "children T p = {c. CHR ''/'' \<notin> set c \<and> p @ ''/'' @ c \<in> dom T}"

definition zoo_tree :: "'z zoo \<Rightarrow> ('z \<Rightarrow> string \<rightharpoonup> create_mode) \<Rightarrow> bool" where
  "zoo_tree zk tree \<longleftrightarrow>
     (\<forall>p z. zoo_exists zk p z = (if p \<in> dom (tree z) then ZOK else ZNONODE)) \<and>
     (\<forall>p c d m z. zname c \<longrightarrow> p = '''' \<or> tree z p = Some ZOO_PERSISTENT \<longrightarrow>
        p @ ''/'' @ c \<notin> dom (tree z) \<longrightarrow> \<not> sequential m \<longrightarrow>
        snd (zoo_create zk (p @ ''/'' @ c) d m z) = ZOK \<and>
        tree (fst (zoo_create zk (p @ ''/'' @ c) d m z)) = (tree z)(p @ ''/'' @ c \<mapsto> m)) \<and>
     (\<forall>p z. children (tree z) p = {} \<longrightarrow> p \<in> dom (tree z) \<longrightarrow>
        snd (zoo_delete zk p (-1) z) = ZOK \<and> tree (fst (zoo_delete zk p (-1) z)) = (tree z)(p := None)) \<and>
     (\<forall>p z. p \<in> dom (tree z) \<longrightarrow>
        (\<exists>z' cs. zoo_wget_children zk p z = (z', ZOK, cs) \<and> tree z' = tree z \<and>
           distinct cs \<and> set cs = children (tree z) p)) \<and>
     (\<forall>p z. p \<in> dom (tree z) \<longrightarrow> (\<exists>d. zoo_get zk p z = (ZOK, d) \<and> length d \<le> 64))"

lemma zoo_treeD:
  assumes "zoo_tree zk tree"
  shows "zoo_exists zk p z = (if p \<in> dom (tree z) then ZOK else ZNONODE)"
    and "zname c \<Longrightarrow> p = '''' \<or> tree z p = Some ZOO_PERSISTENT \<Longrightarrow> p @ ''/'' @ c \<notin> dom (tree z) \<Longrightarrow>
      \<not> sequential m \<Longrightarrow>
      \<exists>z'. zoo_create zk (p @ ''/'' @ c) d m z = (z', ZOK) \<and> tree z' = (tree z)(p @ ''/'' @ c \<mapsto> m)"
    and "children (tree z) p = {} \<Longrightarrow> p \<in> dom (tree z) \<Longrightarrow>
      \<exists>z'. zoo_delete zk p (-1) z = (z', ZOK) \<and> tree z' = (tree z)(p := None)"
    and "p \<in> dom (tree z) \<Longrightarrow> \<exists>z' cs. zoo_wget_children zk p z = (z', ZOK, cs) \<and> tree z' = tree z \<and>
      distinct cs \<and> set cs = children (tree z) p"
    and "p \<in> dom (tree z) \<Longrightarrow> \<exists>d. zoo_get zk p z = (ZOK, d) \<and> length d \<le> 64"
  using assms unfolding zoo_tree_def by (metis prod.collapse)+

text \<open>Creating a node makes sure that it is there.\<close>

lemma zk_create_node:
  assumes "zoo_tree zk tree" "zname c" "p = '''' \<or> tree z p = Some ZOO_PERSISTENT"
    and "p = '''' \<or> take 1 p = ''/''" "\<not> sequential m"
  shows "tree (fst (zk_create zk (p @ ''/'' @ c) d m z)) = [p @ ''/'' @ c \<mapsto> m] ++ tree z"
proof -
  have s: "take 1 (p @ ''/'' @ c) = ''/''" using assms(4) by (cases p) auto
  show ?thesis
  proof (cases "p @ ''/'' @ c \<in> dom (tree z)")
    case True
    then show ?thesis using s assms zoo_treeD(1) [OF assms(1), of "p @ ''/'' @ c" z]
      by (auto simp: zk_create_def map_add_def fun_eq_iff split: option.split)
  next
    case False
    with zoo_treeD(2) [OF assms(1,2,3) False assms(5), of d] obtain z' where
      "zoo_create zk (p @ ''/'' @ c) d m z = (z', ZOK)" "tree z' = (tree z)(p @ ''/'' @ c \<mapsto> m)"
      by blast
    with s False zoo_treeD(1) [OF assms(1), of "p @ ''/'' @ c" z] show ?thesis
      by (auto simp: zk_create_def map_add_def fun_eq_iff split: option.split)
  qed
qed

text \<open>The directories of a method are nodes that can have children, or are not there yet.\<close>

definition method_path :: "string \<Rightarrow> string \<Rightarrow> string" where
  "method_path s m = ''/'' @ s @ ''/'' @ m"

definition dir_ok :: "(string \<rightharpoonup> create_mode) \<Rightarrow> string \<Rightarrow> bool" where
  "dir_ok T p \<longleftrightarrow> T p = None \<or> T p = Some ZOO_PERSISTENT"

definition method_dirs :: "(string \<rightharpoonup> create_mode) \<Rightarrow> string \<Rightarrow> string \<Rightarrow> bool" where
  "method_dirs T s m \<longleftrightarrow> dir_ok T (''/'' @ s) \<and> dir_ok T (method_path s m)"

lemma RegisterMethod_tree:
  assumes "zoo_tree zk tree" "zname s" "zname m" "zname a" "method_dirs (tree z) s m"
  shows "\<exists>z'. RegisterMethod zk s m a z = Inr z' \<and>
    tree z' = [''/'' @ s \<mapsto> ZOO_PERSISTENT, ''/'' @ s @ ''/'' @ m \<mapsto> ZOO_PERSISTENT,
               ''/'' @ s @ ''/'' @ m @ ''/'' @ a \<mapsto> ZOO_EPHEMERAL] ++ tree z"
proof -
  let ?z1 = "fst (zk_create zk (''/'' @ s) None ZOO_PERSISTENT z)"
  let ?z2 = "fst (zk_create zk ((''/'' @ s) @ ''/'' @ m) None ZOO_PERSISTENT ?z1)"
  let ?z3 = "fst (zk_create zk ((''/'' @ s @ ''/'' @ m) @ ''/'' @ a) None ZOO_EPHEMERAL ?z2)"
  have 1: "tree ?z1 = [''/'' @ s \<mapsto> ZOO_PERSISTENT] ++ tree z"
    using zk_create_node [OF assms(1,2), of "''''" z ZOO_PERSISTENT None] by (simp add: sequential_def)
  then have "tree ?z1 (''/'' @ s) = Some ZOO_PERSISTENT"
    using assms(5) by (auto simp: method_dirs_def dir_ok_def method_path_def map_add_def split: option.split)
  then have 2: "tree ?z2 = [(''/'' @ s) @ ''/'' @ m \<mapsto> ZOO_PERSISTENT] ++ tree ?z1"
    by (intro zk_create_node [OF assms(1,3)]) (simp_all add: sequential_def)
  then have "tree ?z2 (''/'' @ s @ ''/'' @ m) = Some ZOO_PERSISTENT"
    using 1 assms(5) by (auto simp: method_dirs_def dir_ok_def method_path_def map_add_def split: option.split)
  then have 3: "tree ?z3 = [(''/'' @ s @ ''/'' @ m) @ ''/'' @ a \<mapsto> ZOO_EPHEMERAL] ++ tree ?z2"
    by (intro zk_create_node [OF assms(1,4)]) (simp_all add: sequential_def)
  have "RegisterMethod zk s m a z = Inr ?z3"
    by (simp add: RegisterMethod_def Let_def split_beta)
  with 1 2 3 show ?thesis by (auto simp: fun_eq_iff map_add_def split: option.splits)
qed

section \<open>Children of a method\<close>

lemma zname_plain: "zname s \<Longrightarrow> CHR ''/'' \<notin> set s \<and> CHR 0x00 \<notin> set s"
  by (fastforce simp: zname_def)

lemma plain_append_eq:
  assumes "CHR ''/'' \<notin> set a" "CHR ''/'' \<notin> set b"
  shows "a @ ''/'' @ x = b @ ''/'' @ y \<longleftrightarrow> a = b \<and> x = y"
proof
  assume e: "a @ ''/'' @ x = b @ ''/'' @ y"
  have "takeWhile (\<lambda>c. c \<noteq> CHR ''/'') (a @ ''/'' @ x) = a" "takeWhile (\<lambda>c. c \<noteq> CHR ''/'') (b @ ''/'' @ y) = b"
    using assms by (auto simp: takeWhile_append2 takeWhile_tail)
  with e show "a = b \<and> x = y" by simp
qed simp

lemma method_path_eq:
  assumes "CHR ''/'' \<notin> set s" "CHR ''/'' \<notin> set m" "CHR ''/'' \<notin> set s'" "CHR ''/'' \<notin> set m'"
  shows "method_path s m @ ''/'' @ a = method_path s' m' @ ''/'' @ b \<longleftrightarrow> s = s' \<and> m = m' \<and> a = b"
  using plain_append_eq [OF assms(1,3), of "m @ ''/'' @ a" "m' @ ''/'' @ b"]
    plain_append_eq [OF assms(2,4), of a b]
  by (simp add: method_path_def)

lemma address_not_dir:
  assumes "CHR ''/'' \<notin> set s" "CHR ''/'' \<notin> set m" "CHR ''/'' \<notin> set s'" "CHR ''/'' \<notin> set m'"
  shows "method_path s m @ ''/'' @ a \<noteq> method_path s' m'" "method_path s m @ ''/'' @ a \<noteq> ''/'' @ s'"
proof -
  have c: "count_list (method_path s' m') (CHR ''/'') = 2" "count_list (''/'' @ s') (CHR ''/'') = 1"
    "count_list (method_path s m @ ''/'' @ a) (CHR ''/'') \<ge> 3"
    using assms by (simp_all add: method_path_def)
  show "method_path s m @ ''/'' @ a \<noteq> method_path s' m'"
  proof
    assume e: "method_path s m @ ''/'' @ a = method_path s' m'"
    from c(3) show False unfolding e c(1) by simp
  qed
  show "method_path s m @ ''/'' @ a \<noteq> ''/'' @ s'"
  proof
    assume e: "method_path s m @ ''/'' @ a = ''/'' @ s'"
    from c(3) show False unfolding e c(2) by simp
  qed
qed

lemma RegisterMethod_children:
  assumes "zoo_tree zk tree" "zname s" "zname m" "zname a" "method_dirs (tree z) s m"
  shows "\<exists>z'. RegisterMethod zk s m a z = Inr z' \<and>
    (\<forall>s' m'. zname s' \<longrightarrow> zname m' \<longrightarrow>
       children (tree z') (method_path s' m') =
         (if s' = s \<and> m' = m then {a} else {}) \<union> children (tree z) (method_path s' m') \<and>
       (method_dirs (tree z) s' m' \<longrightarrow> method_dirs (tree z') s' m')) \<and>
    tree z' (method_path s m) = Some ZOO_PERSISTENT \<and> (\<forall>p. tree z p \<noteq> None \<longrightarrow> tree z' p = tree z p)"
proof -
  obtain z' where r: "RegisterMethod zk s m a z = Inr z'" and
    t: "tree z' = [''/'' @ s \<mapsto> ZOO_PERSISTENT, method_path s m \<mapsto> ZOO_PERSISTENT,
          method_path s m @ ''/'' @ a \<mapsto> ZOO_EPHEMERAL] ++ tree z"
    using RegisterMethod_tree [OF assms] by (auto simp: method_path_def)
  have p: "CHR ''/'' \<notin> set s" "CHR ''/'' \<notin> set m" "CHR ''/'' \<notin> set a"
    using assms zname_plain by blast+
  have keep: "tree z p \<noteq> None \<Longrightarrow> tree z' p = tree z p" for p
    by (auto simp: t map_add_def split: option.split)
  have c: "children (tree z') (method_path s' m') =
      (if s' = s \<and> m' = m then {a} else {}) \<union> children (tree z) (method_path s' m')"
    and d: "method_dirs (tree z) s' m' \<Longrightarrow> method_dirs (tree z') s' m'"
    if "zname s'" "zname m'" for s' m'
  proof -
    have q: "CHR ''/'' \<notin> set s'" "CHR ''/'' \<notin> set m'" using that zname_plain by blast+
    have n: "method_path s' m' @ ''/'' @ x \<noteq> method_path s m" "method_path s' m' @ ''/'' @ x \<noteq> ''/'' @ s" for x
      using address_not_dir q p by blast+
    have "(''/'' @ s') \<noteq> method_path s m @ ''/'' @ a" "method_path s' m' \<noteq> method_path s m @ ''/'' @ a"
      using address_not_dir [OF p(1,2) q(1,2), of a] by metis+
    moreover have "p \<noteq> method_path s m @ ''/'' @ a \<Longrightarrow> dir_ok (tree z) p \<Longrightarrow> dir_ok (tree z') p" for p
      by (cases "tree z p") (simp_all add: t map_add_def dir_ok_def)
    ultimately show "method_dirs (tree z) s' m' \<Longrightarrow> method_dirs (tree z') s' m'"
      by (simp only: method_dirs_def) blast
    have "x \<in> children (tree z') (method_path s' m') \<longleftrightarrow>
        x \<in> (if s' = s \<and> m' = m then {a} else {}) \<union> children (tree z) (method_path s' m')" for x
      using n [of x] method_path_eq [OF q(1,2) p(1,2), of x a] p(3)
      by (auto simp: children_def t)
    then show "children (tree z') (method_path s' m') =
        (if s' = s \<and> m' = m then {a} else {}) \<union> children (tree z) (method_path s' m')" by blast
  qed
  have "tree z' (method_path s m) = Some ZOO_PERSISTENT"
    using assms(5) by (auto simp: t method_dirs_def dir_ok_def map_add_def split: option.split)
  with r c d keep show ?thesis by blast
qed

text \<open>Registering several methods under one address.\<close>

lemma run_RegisterMethod:
  assumes zk: "zoo_tree zk tree" "zname a"
  shows "\<forall>(s, m) \<in> set ps. zname s \<and> zname m \<and> method_dirs (tree z) s m \<Longrightarrow>
    \<exists>z'. run_res (\<lambda>(s, m). RegisterMethod zk s m a) ps z = Inr z' \<and>
      (\<forall>s m. zname s \<longrightarrow> zname m \<longrightarrow> children (tree z') (method_path s m) =
         (if (s, m) \<in> set ps then {a} else {}) \<union> children (tree z) (method_path s m)) \<and>
      (\<forall>(s, m) \<in> set ps. method_path s m \<in> dom (tree z')) \<and>
      (\<forall>p. tree z p \<noteq> None \<longrightarrow> tree z' p = tree z p)"
proof (induction ps arbitrary: z)
  case (Cons p ps)
  obtain s m where p: "p = (s, m)" by (cases p)
  have sm: "zname s" "zname m" "method_dirs (tree z) s m" using Cons.prems p by auto
  obtain z1 where z1: "RegisterMethod zk s m a z = Inr z1"
    "\<And>s' m'. zname s' \<Longrightarrow> zname m' \<Longrightarrow> children (tree z1) (method_path s' m') =
       (if s' = s \<and> m' = m then {a} else {}) \<union> children (tree z) (method_path s' m')"
    "\<And>s' m'. zname s' \<Longrightarrow> zname m' \<Longrightarrow> method_dirs (tree z) s' m' \<Longrightarrow> method_dirs (tree z1) s' m'"
    "tree z1 (method_path s m) = Some ZOO_PERSISTENT" "\<And>p. tree z p \<noteq> None \<Longrightarrow> tree z1 p = tree z p"
    using RegisterMethod_children [OF zk(1) sm(1,2) zk(2) sm(3)] by metis
  have "\<forall>(s, m) \<in> set ps. zname s \<and> zname m \<and> method_dirs (tree z1) s m"
    using Cons.prems z1(3) by fastforce
  from Cons.IH [OF this] obtain z' where z': "run_res (\<lambda>(s, m). RegisterMethod zk s m a) ps z1 = Inr z'"
    "\<And>s m. zname s \<Longrightarrow> zname m \<Longrightarrow> children (tree z') (method_path s m) =
       (if (s, m) \<in> set ps then {a} else {}) \<union> children (tree z1) (method_path s m)"
    "\<forall>(s, m) \<in> set ps. method_path s m \<in> dom (tree z')" "\<And>p. tree z1 p \<noteq> None \<Longrightarrow> tree z' p = tree z1 p"
    by blast
  have "method_path s m \<in> dom (tree z')" using z1(4) z'(4) [of "method_path s m"] by auto
  with z1 z' p show ?case by (intro exI [of _ z']) auto
qed simp

text \<open>Unregistering several methods from one address, whose nodes are there and have no children.\<close>

lemma children_subset: "dom T' \<subseteq> dom T \<Longrightarrow> children T' p \<subseteq> children T p"
  by (auto simp: children_def)

lemma run_UnregisterMethod:
  assumes zk: "zoo_tree zk tree" "zname a"
  shows "\<forall>(s, m) \<in> set ps. zname s \<and> zname m \<and> method_path s m @ ''/'' @ a \<in> dom (tree z) \<and>
      children (tree z) (method_path s m @ ''/'' @ a) = {} \<Longrightarrow> distinct ps \<Longrightarrow>
    \<exists>z'. run_res (\<lambda>(s, m). UnregisterMethod zk s m a) ps z = Inr z' \<and>
      dom (tree z') = dom (tree z) - {method_path s m @ ''/'' @ a | s m. (s, m) \<in> set ps}"
proof (induction ps arbitrary: z)
  case (Cons p ps)
  obtain s m where p: "p = (s, m)" by (cases p)
  let ?n = "\<lambda>s m. method_path s m @ ''/'' @ a"
  have sm: "zname s" "zname m" "?n s m \<in> dom (tree z)" "children (tree z) (?n s m) = {}"
    using Cons.prems(1) p by auto
  obtain z1 where z1: "zoo_delete zk (?n s m) (-1) z = (z1, ZOK)" "tree z1 = (tree z)(?n s m := None)"
    using zoo_treeD(3) [OF zk(1) sm(4,3)] by blast
  have r: "UnregisterMethod zk s m a z = Inr z1"
    using z1(1) by (simp add: UnregisterMethod_def delete_node_no_version_check_def method_path_def)
  have "zname s' \<and> zname m' \<and> ?n s' m' \<in> dom (tree z1) \<and> children (tree z1) (?n s' m') = {}"
    if "(s', m') \<in> set ps" for s' m'
  proof -
    have q: "zname s'" "zname m'" "?n s' m' \<in> dom (tree z)" "children (tree z) (?n s' m') = {}" "(s', m') \<noteq> (s, m)"
      using that Cons.prems p by auto
    then have "?n s' m' \<noteq> ?n s m"
      using method_path_eq [of s' m' s m] zname_plain sm(1,2) zk(2) by metis
    moreover have "children (tree z1) (?n s' m') \<subseteq> children (tree z) (?n s' m')"
      by (rule children_subset) (auto simp: z1(2))
    ultimately show ?thesis using q z1(2) by auto
  qed
  then obtain z' where "run_res (\<lambda>(s, m). UnregisterMethod zk s m a) ps z1 = Inr z'"
    "dom (tree z') = dom (tree z1) - {?n s m | s m. (s, m) \<in> set ps}"
    using Cons.IH [of z1] Cons.prems(2) by auto
  with r p z1(2) show ?case by (intro exI [of _ z']) auto
qed simp

section \<open>A tree kept as a list\<close>

text \<open>A small server for the witnesses: nodes are created under parents and deleted as leaves.\<close>

definition zparent :: "string \<Rightarrow> string" where
  "zparent p = rev (tl (dropWhile (\<lambda>c. c \<noteq> CHR ''/'') (rev p)))"

definition zlast :: "string \<Rightarrow> string" where
  "zlast p = rev (takeWhile (\<lambda>c. c \<noteq> CHR ''/'') (rev p))"

definition list_children :: "string \<Rightarrow> (string \<times> create_mode) list \<Rightarrow> string list" where
  "list_children p z =
     remdups (map zlast (filter (\<lambda>q. CHR ''/'' \<in> set q \<and> zparent q = p) (map fst z)))"

definition list_zoo :: "(string \<times> create_mode) list zoo" where
  "list_zoo =
     \<lparr>zoo_exists = (\<lambda>p z. if map_of z p = None then ZNONODE else ZOK),
      zoo_create = (\<lambda>p d m z. if map_of z p \<noteq> None then (z, -110)
        else if zparent p = '''' \<or> map_of z (zparent p) = Some ZOO_PERSISTENT then ((p, m) # z, ZOK)
        else (z, ZNONODE)),
      zoo_get = (\<lambda>p z. if map_of z p = None then (ZNONODE, '''') else (ZOK, '''')),
      zoo_set = (\<lambda>p v n z. if map_of z p = None then (z, ZNONODE) else (z, ZOK)),
      zoo_delete = (\<lambda>p n z. if map_of z p = None then (z, ZNONODE)
        else if list_children p z = [] then (filter (\<lambda>q. fst q \<noteq> p) z, ZOK) else (z, -111)),
      zoo_wget_children = (\<lambda>p z. if map_of z p = None then (z, ZNONODE, [])
        else (z, ZOK, list_children p z))\<rparr>"

lemma zparent_child: "CHR ''/'' \<notin> set c \<Longrightarrow> zparent (p @ ''/'' @ c) = p"
  and zlast_child: "CHR ''/'' \<notin> set c \<Longrightarrow> zlast (p @ ''/'' @ c) = c"
proof -
  assume c: "CHR ''/'' \<notin> set c"
  have "dropWhile (\<lambda>c. c \<noteq> CHR ''/'') (rev c @ CHR ''/'' # rev p) = CHR ''/'' # rev p"
    "takeWhile (\<lambda>c. c \<noteq> CHR ''/'') (rev c @ CHR ''/'' # rev p) = rev c"
    using c by (auto simp: dropWhile_append2 takeWhile_append2 takeWhile_tail dropWhile_append3)
  then show "zparent (p @ ''/'' @ c) = p" "zlast (p @ ''/'' @ c) = c"
    by (simp_all add: zparent_def zlast_def)
qed

lemma zpath_split:
  assumes "CHR ''/'' \<in> set q"
  shows "zparent q @ ''/'' @ zlast q = q" "CHR ''/'' \<notin> set (zlast q)"
proof -
  let ?P = "\<lambda>c. c \<noteq> CHR ''/''"
  have "dropWhile ?P (rev q) \<noteq> []" using assms by (auto simp: dropWhile_eq_Nil_conv)
  then have h: "hd (dropWhile ?P (rev q)) = CHR ''/''" using hd_dropWhile by blast
  have "rev q = takeWhile ?P (rev q) @ CHR ''/'' # tl (dropWhile ?P (rev q))"
    using \<open>dropWhile ?P (rev q) \<noteq> []\<close> h by (metis list.collapse takeWhile_dropWhile_id)
  then have "rev (rev q) = rev (takeWhile ?P (rev q) @ CHR ''/'' # tl (dropWhile ?P (rev q)))" by metis
  then show "zparent q @ ''/'' @ zlast q = q" by (simp add: zparent_def zlast_def)
  show "CHR ''/'' \<notin> set (zlast q)" by (auto simp: zlast_def dest: set_takeWhileD)
qed

lemma set_list_children: "set (list_children p z) = children (map_of z) p"
proof
  show "set (list_children p z) \<subseteq> children (map_of z) p"
    using zpath_split by (force simp: list_children_def children_def dom_map_of_conv_image_fst)
  show "children (map_of z) p \<subseteq> set (list_children p z)"
  proof
    fix c assume c: "c \<in> children (map_of z) p"
    then have "p @ ''/'' @ c \<in> set (map fst z)" "CHR ''/'' \<notin> set c"
      by (auto simp: children_def dom_map_of_conv_image_fst)
    then show "c \<in> set (list_children p z)"
      unfolding list_children_def using zparent_child [of c p] zlast_child [of c p]
      by (simp add: image_iff) (metis in_set_conv_decomp append_Cons)
  qed
qed

lemma map_of_filter_neq: "map_of (filter (\<lambda>q. fst q \<noteq> p) z) = (map_of z)(p := None)"
  by (induction z) (auto simp: fun_eq_iff)

lemma list_children_distinct: "distinct (list_children p z)"
  by (simp add: list_children_def)

lemma list_zoo_simps:
  "zoo_exists list_zoo p z = (if map_of z p = None then ZNONODE else ZOK)"
  "zoo_create list_zoo p d m z = (if map_of z p \<noteq> None then (z, -110)
     else if zparent p = '''' \<or> map_of z (zparent p) = Some ZOO_PERSISTENT then ((p, m) # z, ZOK)
     else (z, ZNONODE))"
  "zoo_get list_zoo p z = (if map_of z p = None then (ZNONODE, '''') else (ZOK, ''''))"
  "zoo_delete list_zoo p n z = (if map_of z p = None then (z, ZNONODE)
     else if list_children p z = [] then (filter (\<lambda>q. fst q \<noteq> p) z, ZOK) else (z, -111))"
  "zoo_wget_children list_zoo p z =
     (if map_of z p = None then (z, ZNONODE, []) else (z, ZOK, list_children p z))"
  by (simp_all add: list_zoo_def)

lemma list_zoo_tree: "zoo_tree list_zoo map_of"
  unfolding zoo_tree_def domIff list_zoo_simps
proof (intro conjI allI impI)
  fix p :: string and z :: "(string \<times> create_mode) list"
  assume "children (map_of z) p = {}" "map_of z p \<noteq> None"
  then have "list_children p z = []" "map_of z p \<noteq> None"
    by (simp_all only: set_list_children [symmetric] set_empty simp_thms)
  then show "snd (if map_of z p = None then (z, ZNONODE)
      else if list_children p z = [] then (filter (\<lambda>q. fst q \<noteq> p) z, ZOK) else (z, -111)) = ZOK"
    "map_of (fst (if map_of z p = None then (z, ZNONODE)
      else if list_children p z = [] then (filter (\<lambda>q. fst q \<noteq> p) z, ZOK) else (z, -111))) =
     (map_of z)(p := None)"
    by (auto simp: map_of_filter_neq)
next
  fix p :: string and z :: "(string \<times> create_mode) list"
  assume "map_of z p \<noteq> None"
  then show "\<exists>z' cs. (if map_of z p = None then (z, ZNONODE, []) else (z, ZOK, list_children p z)) = (z', ZOK, cs) \<and>
      map_of z' = map_of z \<and> distinct cs \<and> set cs = children (map_of z) p"
    by (simp add: set_list_children list_children_distinct)
qed (auto simp: zparent_child zname_plain simp del: append.simps)

lemma singleton_list: "distinct xs \<Longrightarrow> set xs = {x} \<Longrightarrow> xs = [x]"
  by (cases xs; cases "tl xs") auto

section \<open>Properties\<close>

text \<open>
  Registering a method makes its address one of the children of the method's node, creating
  the nodes above it where they are missing and changing nothing else; unregistering it then
  removes the address again and nothing else.
\<close>

theorem register_unregister:
  assumes "zoo_tree zk tree" "zname s" "zname m" "zname a" "method_dirs (tree z) s m"
    and "children (tree z) (method_path s m @ ''/'' @ a) = {}"
  shows "\<exists>z' z''. RegisterMethod zk s m a z = Inr z' \<and>
    children (tree z') (method_path s m) = insert a (children (tree z) (method_path s m)) \<and>
    (\<forall>p. tree z p \<noteq> None \<longrightarrow> tree z' p = tree z p) \<and>
    UnregisterMethod zk s m a z' = Inr z'' \<and>
    tree z'' = (tree z')(method_path s m @ ''/'' @ a := None)"
proof -
  obtain z' where r: "RegisterMethod zk s m a z = Inr z'" and
    t: "tree z' = [''/'' @ s \<mapsto> ZOO_PERSISTENT, method_path s m \<mapsto> ZOO_PERSISTENT,
          method_path s m @ ''/'' @ a \<mapsto> ZOO_EPHEMERAL] ++ tree z"
    using RegisterMethod_tree [OF assms(1-5)] by (auto simp: method_path_def)
  have p: "CHR ''/'' \<notin> set s" "CHR ''/'' \<notin> set m"
    using assms zname_plain by blast+
  have c: "children (tree z') (method_path s m) = insert a (children (tree z) (method_path s m))"
    "\<forall>p. tree z p \<noteq> None \<longrightarrow> tree z' p = tree z p"
    using RegisterMethod_children [OF assms(1-5)] assms(2,3) r by auto
  have "(method_path s m @ ''/'' @ a) @ ''/'' @ c \<notin> dom (tree z')" if "CHR ''/'' \<notin> set c" for c
    using address_not_dir [OF p p, of "a @ ''/'' @ c"] assms(6) that by (auto simp: t children_def)
  then have "children (tree z') (method_path s m @ ''/'' @ a) = {}" by (auto simp: children_def)
  moreover have "method_path s m @ ''/'' @ a \<in> dom (tree z')" by (simp add: t)
  ultimately obtain z'' where
    "zoo_delete zk (method_path s m @ ''/'' @ a) (-1) z' = (z'', ZOK)"
    "tree z'' = (tree z')(method_path s m @ ''/'' @ a := None)"
    using zoo_treeD(3) [OF assms(1)] by blast
  then show ?thesis using r c
    by (simp add: UnregisterMethod_def delete_node_no_version_check_def method_path_def)
qed

section \<open>Witnesses\<close>

lemma register_unregister_witness:
  "\<exists>z' z''. RegisterMethod list_zoo ''math'' ''twice'' ''10.0.0.1:80'' [] = Inr z' \<and>
    list_children ''/math/twice'' z' = [''10.0.0.1:80''] \<and>
    UnregisterMethod list_zoo ''math'' ''twice'' ''10.0.0.1:80'' z' = Inr z'' \<and>
    list_children ''/math/twice'' z'' = []"
proof -
  have n: "zname ''math''" "zname ''twice''" "zname ''10.0.0.1:80''" by (simp_all add: zname_def)
  have e: "method_dirs (map_of []) ''math'' ''twice''" "children (map_of []) p = {}" for p
    by (simp_all add: method_dirs_def dir_ok_def children_def)
  from register_unregister [OF list_zoo_tree n e] obtain z' z'' where
    z: "RegisterMethod list_zoo ''math'' ''twice'' ''10.0.0.1:80'' [] = Inr z'"
    "children (map_of z') (method_path ''math'' ''twice'') = {''10.0.0.1:80''}"
    "UnregisterMethod list_zoo ''math'' ''twice'' ''10.0.0.1:80'' z' = Inr z''"
    "map_of z'' = (map_of z')(method_path ''math'' ''twice'' @ ''/'' @ ''10.0.0.1:80'' := None)"
    using e(2) by auto
  have m: "method_path ''math'' ''twice'' = ''/math/twice''" by (simp add: method_path_def)
  have "set (list_children ''/math/twice'' z') = {''10.0.0.1:80''}"
    using z(2) by (simp add: set_list_children m)
  then have "list_children ''/math/twice'' z' = [''10.0.0.1:80'']"
    by (intro singleton_list list_children_distinct)
  moreover have "children (map_of z'') ''/math/twice'' = {}"
    using z(2,4) by (auto simp: children_def m split: if_splits)
  then have "list_children ''/math/twice'' z'' = []"
    by (simp only: set_list_children [symmetric] set_empty)
  ultimately show ?thesis using z(1,3) by blast
qed

end
