(* ===== verification/BoundedQueue.thy ===== *)
theory BoundedQueue
  imports Prelude
begin

text \<open>
  The ring buffer \<open>netco::BoundedQueue<T>\<close> of \<open>include/container/bounded_queue.h\<close>.

  A queue is the record of its five fields; the raw storage \<open>_items\<close> is a function from
  slot numbers to \<open>'a option\<close>, where \<open>None\<close> is memory that holds no constructed object, so
  placement new and the explicit destructor calls are visible. The counters are \<open>uint32_t\<close>:
  sums that the code forms in that type are read through \<open>u32\<close>. The subtraction loop
  \<open>_mod\<close> does not return when the capacity is 0; it is a partial function, and every
  operation that calls it returns an \<open>option\<close> in which \<open>None\<close> is "does not return".

  \<open>bq_list\<close> is the abstract value, the items from top to bottom, and \<open>bq_inv\<close> the
  representation invariant. The interface of a bounded FIFO and of a sliding window are the
  locales \<open>bounded_fifo\<close> and \<open>sliding_window\<close>, interpreted on the code's operations.
\<close>

section \<open>The structure and its operations\<close>

datatype storage_ownership = OWNS_STORAGE | NOT_OWN_STORAGE

record 'a bq =
  bq_count :: nat
  bq_cap :: nat
  bq_start :: nat
  bq_ownership :: storage_ownership
  bq_nonnull :: bool                    \<comment> \<open>\<open>_items != NULL\<close>\<close>
  bq_items :: "nat \<Rightarrow> 'a option"

partial_function (option) bq_mod :: "nat \<Rightarrow> nat \<Rightarrow> nat option" where
  "bq_mod off cap = (if cap \<le> off then bq_mod (off - cap) cap else Some off)"

definition bq_wrap :: "nat \<Rightarrow> nat \<Rightarrow> storage_ownership \<Rightarrow> bool \<Rightarrow> 'a bq" where
  "bq_wrap memsize sizeof_T own nonnull =
     \<lparr>bq_count = 0, bq_cap = u32 (memsize div sizeof_T), bq_start = 0,
      bq_ownership = own, bq_nonnull = nonnull, bq_items = (\<lambda>_. None)\<rparr>"

definition bq_alloc :: "nat \<Rightarrow> bool \<Rightarrow> 'a bq" where
  "bq_alloc capacity malloc_ok =
     \<lparr>bq_count = 0, bq_cap = u32 capacity, bq_start = 0,
      bq_ownership = OWNS_STORAGE, bq_nonnull = malloc_ok, bq_items = (\<lambda>_. None)\<rparr>"

definition bq_default :: "'a bq" where
  "bq_default =
     \<lparr>bq_count = 0, bq_cap = 0, bq_start = 0,
      bq_ownership = NOT_OWN_STORAGE, bq_nonnull = False, bq_items = (\<lambda>_. None)\<rparr>"

definition bq_push :: "'a bq \<Rightarrow> 'a \<Rightarrow> ('a bq \<times> bool) option" where
  "bq_push q x =
     (if bq_count q < bq_cap q
      then case bq_mod (u32 (bq_start q + bq_count q)) (bq_cap q) of
             None \<Rightarrow> None
           | Some i \<Rightarrow> Some (q\<lparr>bq_items := (bq_items q)(i := Some x),
                              bq_count := u32 (bq_count q + 1)\<rparr>, True)
      else Some (q, False))"

definition bq_elim_push :: "'a bq \<Rightarrow> 'a \<Rightarrow> 'a bq option" where
  "bq_elim_push q x =
     (if bq_count q < bq_cap q
      then case bq_mod (u32 (bq_start q + bq_count q)) (bq_cap q) of
             None \<Rightarrow> None
           | Some i \<Rightarrow> Some (q\<lparr>bq_items := (bq_items q)(i := Some x),
                              bq_count := u32 (bq_count q + 1)\<rparr>)
      else case bq_mod (u32 (bq_start q + 1)) (bq_cap q) of
             None \<Rightarrow> None
           | Some s \<Rightarrow> Some (q\<lparr>bq_items := (bq_items q)(bq_start q := Some x),
                              bq_start := s\<rparr>))"

text \<open>\<open>T* push()\<close>: a default-constructed item; the address returned is the slot number.\<close>

definition bq_push_default :: "'a \<Rightarrow> 'a bq \<Rightarrow> ('a bq \<times> nat option) option" where
  "bq_push_default T0 q =
     (if bq_count q < bq_cap q
      then case bq_mod (u32 (bq_start q + bq_count q)) (bq_cap q) of
             None \<Rightarrow> None
           | Some i \<Rightarrow> Some (q\<lparr>bq_items := (bq_items q)(i := Some T0),
                              bq_count := u32 (bq_count q + 1)\<rparr>, Some i)
      else Some (q, None))"

definition bq_push_top :: "'a bq \<Rightarrow> 'a \<Rightarrow> 'a bq \<times> bool" where
  "bq_push_top q x =
     (if bq_count q < bq_cap q
      then let s = (if bq_start q \<noteq> 0 then bq_start q - 1 else bq_cap q - 1)
           in (q\<lparr>bq_start := s, bq_count := u32 (bq_count q + 1),
                 bq_items := (bq_items q)(s := Some x)\<rparr>, True)
      else (q, False))"

definition bq_push_top_default :: "'a \<Rightarrow> 'a bq \<Rightarrow> 'a bq \<times> nat option" where
  "bq_push_top_default T0 q =
     (if bq_count q < bq_cap q
      then let s = (if bq_start q \<noteq> 0 then bq_start q - 1 else bq_cap q - 1)
           in (q\<lparr>bq_start := s, bq_count := u32 (bq_count q + 1),
                 bq_items := (bq_items q)(s := Some T0)\<rparr>, Some s)
      else (q, None))"

definition bq_pop :: "'a bq \<Rightarrow> ('a bq \<times> bool) option" where
  "bq_pop q =
     (if bq_count q \<noteq> 0
      then case bq_mod (u32 (bq_start q + 1)) (bq_cap q) of
             None \<Rightarrow> None
           | Some s \<Rightarrow> Some (q\<lparr>bq_count := bq_count q - 1,
                              bq_items := (bq_items q)(bq_start q := None),
                              bq_start := s\<rparr>, True)
      else Some (q, False))"

text \<open>\<open>bool pop(T* item)\<close>: the popped item is the second component, \<open>None\<close> for false.\<close>

definition bq_pop_item :: "'a bq \<Rightarrow> ('a bq \<times> 'a option) option" where
  "bq_pop_item q =
     (if bq_count q \<noteq> 0
      then case bq_mod (u32 (bq_start q + 1)) (bq_cap q) of
             None \<Rightarrow> None
           | Some s \<Rightarrow> Some (q\<lparr>bq_count := bq_count q - 1,
                              bq_items := (bq_items q)(bq_start q := None),
                              bq_start := s\<rparr>, bq_items q (bq_start q))
      else Some (q, None))"

definition bq_pop_bottom :: "'a bq \<Rightarrow> ('a bq \<times> bool) option" where
  "bq_pop_bottom q =
     (if bq_count q \<noteq> 0
      then case bq_mod (u32 (bq_start q + (bq_count q - 1))) (bq_cap q) of
             None \<Rightarrow> None
           | Some i \<Rightarrow> Some (q\<lparr>bq_count := bq_count q - 1,
                              bq_items := (bq_items q)(i := None)\<rparr>, True)
      else Some (q, False))"

definition bq_pop_bottom_item :: "'a bq \<Rightarrow> ('a bq \<times> 'a option) option" where
  "bq_pop_bottom_item q =
     (if bq_count q \<noteq> 0
      then case bq_mod (u32 (bq_start q + (bq_count q - 1))) (bq_cap q) of
             None \<Rightarrow> None
           | Some i \<Rightarrow> Some (q\<lparr>bq_count := bq_count q - 1,
                              bq_items := (bq_items q)(i := None)\<rparr>, bq_items q i)
      else Some (q, None))"

text \<open>The loop of \<open>clear\<close>: \<open>k\<close> more items from index \<open>i\<close> are destroyed.\<close>

fun bq_clear_loop :: "nat \<Rightarrow> nat \<Rightarrow> 'a bq \<Rightarrow> 'a bq option" where
  "bq_clear_loop 0 i q = Some q"
| "bq_clear_loop (Suc k) i q =
     (case bq_mod (u32 (bq_start q + i)) (bq_cap q) of
        None \<Rightarrow> None
      | Some j \<Rightarrow> bq_clear_loop k (Suc i) (q\<lparr>bq_items := (bq_items q)(j := None)\<rparr>))"

definition bq_clear :: "'a bq \<Rightarrow> 'a bq option" where
  "bq_clear q =
     map_option (\<lambda>q. q\<lparr>bq_count := 0, bq_start := 0\<rparr>) (bq_clear_loop (bq_count q) 0 q)"

text \<open>The destructor: \<open>clear\<close>, then \<open>free\<close> of owned storage (the second component).\<close>

definition bq_destroy :: "'a bq \<Rightarrow> ('a bq \<times> bool) option" where
  "bq_destroy q =
     map_option (\<lambda>q. if bq_ownership q = OWNS_STORAGE
                     then (q\<lparr>bq_nonnull := False\<rparr>, True) else (q, False)) (bq_clear q)"

text \<open>The accessors return the address of a slot, \<open>None\<close> for NULL.\<close>

definition bq_top :: "'a bq \<Rightarrow> nat option" where
  "bq_top q = (if bq_count q \<noteq> 0 then Some (bq_start q) else None)"

definition bq_top_at :: "'a bq \<Rightarrow> nat \<Rightarrow> nat option option" where
  "bq_top_at q index =
     (if index < bq_count q
      then map_option Some (bq_mod (u32 (bq_start q + index)) (bq_cap q))
      else Some None)"

definition bq_bottom :: "'a bq \<Rightarrow> nat option option" where
  "bq_bottom q =
     (if bq_count q \<noteq> 0
      then map_option Some (bq_mod (u32 (bq_start q + bq_count q - 1)) (bq_cap q))
      else Some None)"

definition bq_bottom_at :: "'a bq \<Rightarrow> nat \<Rightarrow> nat option option" where
  "bq_bottom_at q index =
     (if index < bq_count q
      then map_option Some
             (bq_mod (nat ((int (u32 (bq_start q + bq_count q)) - int index - 1) mod 2 ^ 32))
                (bq_cap q))
      else Some None)"

definition bq_empty :: "'a bq \<Rightarrow> bool" where
  "bq_empty q = (bq_count q = 0)"

definition bq_full :: "'a bq \<Rightarrow> bool" where
  "bq_full q = (bq_cap q = bq_count q)"

definition bq_size :: "'a bq \<Rightarrow> nat" where
  "bq_size q = bq_count q"

definition bq_capacity :: "'a bq \<Rightarrow> nat" where
  "bq_capacity q = bq_cap q"

definition bq_max_capacity :: "'a bq \<Rightarrow> nat" where
  "bq_max_capacity q = 2 ^ (4 * 8) - 1"

definition bq_initialized :: "'a bq \<Rightarrow> bool" where
  "bq_initialized q = bq_nonnull q"

definition bq_swap :: "'a bq \<Rightarrow> 'a bq \<Rightarrow> 'a bq \<times> 'a bq" where
  "bq_swap q rhs = (rhs, q)"

section \<open>The subtraction loop\<close>

lemma bq_mod_eq [simp]: "0 < cap \<Longrightarrow> bq_mod off cap = Some (off mod cap)"
proof (induction off rule: less_induct)
  case (less off)
  show ?case
  proof (cases "cap \<le> off")
    case True
    then have "bq_mod off cap = bq_mod (off - cap) cap"
      by (subst bq_mod.simps) simp
    also have "\<dots> = Some ((off - cap) mod cap)"
      using less True by simp
    finally show ?thesis using True by (simp add: le_mod_geq)
  next
    case False
    then show ?thesis by (subst bq_mod.simps) simp
  qed
qed

text \<open>With capacity 0 the loop subtracts nothing for ever.\<close>

lemma bq_mod_zero [simp]: "bq_mod off 0 = None"
proof (rule ccontr)
  assume "bq_mod off 0 \<noteq> None"
  then obtain r where r: "bq_mod off 0 = Some r" by blast
  have "0 < (0::nat)"
    by (rule bq_mod.raw_induct [where P = "\<lambda>off cap r. 0 < cap", OF _ r])
      (auto split: if_splits)
  then show False by simp
qed

section \<open>Representation invariant and abstract value\<close>

definition bq_slot :: "'a bq \<Rightarrow> nat \<Rightarrow> nat" where
  "bq_slot q j = (bq_start q + j) mod bq_cap q"

definition bq_inv :: "'a bq \<Rightarrow> bool" where
  "bq_inv q \<longleftrightarrow>
     bq_cap q \<le> 2 ^ 31 \<and> bq_count q \<le> bq_cap q \<and>
     bq_start q < max 1 (bq_cap q) \<and>
     (\<forall>j < bq_cap q. (bq_items q (bq_slot q j) \<noteq> None) = (j < bq_count q))"

definition bq_list :: "'a bq \<Rightarrow> 'a list" where
  "bq_list q = map (\<lambda>j. the (bq_items q (bq_slot q j))) [0..<bq_count q]"

lemma length_bq_list [simp]: "length (bq_list q) = bq_count q"
  by (simp add: bq_list_def)

lemma bq_list_nth: "j < bq_count q \<Longrightarrow> bq_list q ! j = the (bq_items q (bq_slot q j))"
  by (simp add: bq_list_def)

lemma bq_inv_cap: "bq_inv q \<Longrightarrow> bq_cap q \<le> 2 ^ 31"
  and bq_inv_count: "bq_inv q \<Longrightarrow> bq_count q \<le> bq_cap q"
  and bq_inv_start: "bq_inv q \<Longrightarrow> 0 < bq_cap q \<Longrightarrow> bq_start q < bq_cap q"
  by (auto simp: bq_inv_def)

lemma mod_inj_shift_le:
  fixes a :: nat
  assumes "k \<le> j" "j < n" "(a + j) mod n = (a + k) mod n"
  shows "j = k"
proof -
  have "n dvd (a + j) - (a + k)"
    using assms by (subst mod_eq_dvd_iff_nat [symmetric]) auto
  then have "n dvd j - k" by simp
  then show ?thesis using assms by (auto dest: dvd_imp_le)
qed

lemma mod_inj_shift:
  fixes a :: nat
  assumes "j < n" "k < n" "(a + j) mod n = (a + k) mod n"
  shows "j = k"
  using assms mod_inj_shift_le [of k j n a] mod_inj_shift_le [of j k n a]
  by (cases "k \<le> j") auto

lemma bq_slot_inj [simp]:
  "j < bq_cap q \<Longrightarrow> k < bq_cap q \<Longrightarrow> bq_slot q j = bq_slot q k \<longleftrightarrow> j = k"
  by (auto simp: bq_slot_def dest: mod_inj_shift)

lemma bq_slot_items [simp]: "bq_slot (q\<lparr>bq_items := m\<rparr>) = bq_slot q"
  and bq_slot_count [simp]: "bq_slot (q\<lparr>bq_count := n\<rparr>) = bq_slot q"
  by (simp_all add: bq_slot_def fun_eq_iff)

lemma bq_slot_0 [simp]: "bq_inv q \<Longrightarrow> 0 < bq_cap q \<Longrightarrow> bq_slot q 0 = bq_start q"
  by (simp add: bq_slot_def bq_inv_start)

lemma bq_slot_item: "bq_inv q \<Longrightarrow> j < bq_count q \<Longrightarrow>
    bq_items q (bq_slot q j) = Some (bq_list q ! j)"
proof -
  assume inv: "bq_inv q" and j: "j < bq_count q"
  then have "bq_items q (bq_slot q j) \<noteq> None" by (auto simp: bq_inv_def)
  with j show ?thesis by (auto simp: bq_list_nth)
qed

text \<open>No \<open>uint32_t\<close> sum of the code wraps while the invariant holds.\<close>

lemma bq_no_wrap [simp]:
  assumes "bq_inv q" "j \<le> bq_cap q"
  shows "u32 (bq_start q + j) = bq_start q + j"
  using assms by (intro u32_id) (auto simp: bq_inv_def)

text \<open>
  Two states that agree on the capacity: how the list changes when an item is written at a
  slot, when the window moves by one, and when it shrinks.
\<close>

lemma bq_listI:
  assumes "bq_count q = length xs"
    and "\<And>j. j < length xs \<Longrightarrow> bq_items q (bq_slot q j) = Some (xs ! j)"
  shows "bq_list q = xs"
  using assms by (intro nth_equalityI) (auto simp: bq_list_nth)

lemma bq_slot_cap: "bq_inv q \<Longrightarrow> 0 < bq_cap q \<Longrightarrow> bq_slot q (bq_cap q) = bq_start q"
  by (simp add: bq_slot_def bq_inv_start)

section \<open>What each operation does to the abstract value\<close>

lemma bq_inv_wrap: "u32 (m div sz) \<le> 2 ^ 31 \<Longrightarrow> bq_inv (bq_wrap m sz own nn)"
  and bq_list_wrap [simp]: "bq_list (bq_wrap m sz own nn) = []"
  by (auto simp: bq_inv_def bq_wrap_def bq_list_def bq_slot_def)

lemma bq_push_room:
  assumes inv: "bq_inv q" and room: "bq_count q < bq_cap q"
  shows "\<exists>q'. bq_push q x = Some (q', True) \<and> bq_inv q' \<and> bq_cap q' = bq_cap q \<and>
              bq_list q' = bq_list q @ [x]"
proof -
  let ?i = "bq_slot q (bq_count q)"
  let ?q = "q\<lparr>bq_items := (bq_items q)(?i := Some x), bq_count := Suc (bq_count q)\<rparr>"
  have cap: "bq_cap q \<le> 2 ^ 31" using inv by (rule bq_inv_cap)
  have "bq_push q x = Some (?q, True)"
    using assms cap by (simp add: bq_push_def bq_slot_def u32_id)
  moreover have "bq_inv ?q"
    using inv room by (auto simp: bq_inv_def)
  moreover have "bq_list ?q = bq_list q @ [x]"
    using inv room bq_slot_item [OF inv]
    by (intro bq_listI) (auto simp: nth_append less_Suc_eq)
  ultimately show ?thesis by simp
qed

lemma bq_push_full: "bq_inv q \<Longrightarrow> bq_count q = bq_cap q \<Longrightarrow> bq_push q x = Some (q, False)"
  by (simp add: bq_push_def)

lemma bq_pop_item_Cons:
  assumes inv: "bq_inv q" and ne: "bq_list q = y # ys"
  shows "\<exists>q'. bq_pop_item q = Some (q', Some y) \<and> bq_inv q' \<and> bq_cap q' = bq_cap q \<and>
              bq_list q' = ys"
proof -
  let ?s = "(bq_start q + 1) mod bq_cap q"
  let ?q = "q\<lparr>bq_count := bq_count q - 1, bq_items := (bq_items q)(bq_start q := None),
              bq_start := ?s\<rparr>"
  have len: "bq_count q = Suc (length ys)" using ne length_bq_list [of q] by simp
  then have cap: "0 < bq_cap q" "Suc (length ys) \<le> bq_cap q"
    using bq_inv_count [OF inv] by auto
  have sl: "bq_slot ?q j = bq_slot q (Suc j)" for j
    by (simp add: bq_slot_def mod_add_left_eq)
  have st: "bq_slot q 0 = bq_start q" using inv cap by simp
  have ne0: "bq_slot q (Suc j) \<noteq> bq_start q" if "Suc j < bq_cap q" for j
    using bq_slot_inj [of "Suc j" q 0] st that cap by simp
  have items: "bq_items ?q (bq_slot ?q j) = bq_items q (bq_slot q (Suc j))"
    if "Suc j < bq_cap q" for j
    using ne0 [OF that] by (simp only: sl) simp
  have top: "bq_items q (bq_start q) = Some y"
    using bq_slot_item [OF inv, of 0] len ne st by simp
  have "bq_pop_item q = Some (?q, Some y)"
    using inv cap len top bq_no_wrap [OF inv, of 1] by (simp add: bq_pop_item_def)
  moreover have "bq_inv ?q"
  proof -
    have "(bq_items ?q (bq_slot ?q j) \<noteq> None) = (j < bq_count ?q)" if j: "j < bq_cap q" for j
    proof (cases "Suc j < bq_cap q")
      case True
      then show ?thesis using inv len unfolding items [OF True] by (auto simp: bq_inv_def)
    next
      case False
      with j have "Suc j = bq_cap q" by simp
      then have "bq_slot ?q j = bq_start q"
        using bq_slot_cap [OF inv cap(1)] by (simp only: sl)
      then show ?thesis using False len cap by simp
    qed
    then show ?thesis using inv cap by (auto simp: bq_inv_def)
  qed
  moreover have "bq_list ?q = ys"
  proof (rule bq_listI)
    show "bq_count ?q = length ys" using len by simp
    fix j assume j: "j < length ys"
    then have "bq_items q (bq_slot q (Suc j)) = Some (ys ! j)"
      using bq_slot_item [OF inv, of "Suc j"] ne len by simp
    then show "bq_items ?q (bq_slot ?q j) = Some (ys ! j)"
      using j cap items [of j] by simp
  qed
  ultimately show ?thesis by simp
qed

lemma bq_pop_item_Nil: "bq_inv q \<Longrightarrow> bq_list q = [] \<Longrightarrow> bq_pop_item q = Some (q, None)"
  by (simp add: bq_pop_item_def flip: length_0_conv)

lemma bq_elim_push_full:
  assumes inv: "bq_inv q" and cap: "0 < bq_cap q" and full: "bq_count q = bq_cap q"
  shows "\<exists>q'. bq_elim_push q x = Some q' \<and> bq_inv q' \<and> bq_cap q' = bq_cap q \<and>
              bq_list q' = tl (bq_list q) @ [x]"
proof -
  let ?s = "(bq_start q + 1) mod bq_cap q"
  let ?q = "q\<lparr>bq_items := (bq_items q)(bq_start q := Some x), bq_start := ?s\<rparr>"
  have sl: "bq_slot ?q j = bq_slot q (Suc j)" for j
    by (simp add: bq_slot_def mod_add_left_eq)
  have st: "bq_slot q 0 = bq_start q" using inv cap by simp
  have ne0: "bq_slot q (Suc j) \<noteq> bq_start q" if "Suc j < bq_cap q" for j
    using bq_slot_inj [of "Suc j" q 0] st that cap by simp
  have items: "bq_items ?q (bq_slot ?q j) = bq_items q (bq_slot q (Suc j))"
    if "Suc j < bq_cap q" for j
    using ne0 [OF that] by (simp only: sl) simp
  have last: "bq_items ?q (bq_slot ?q j) = Some x" if "Suc j = bq_cap q" for j
    using bq_slot_cap [OF inv cap] that by (simp only: sl) simp
  have "bq_elim_push q x = Some ?q"
    using inv cap full bq_no_wrap [OF inv, of 1] by (simp add: bq_elim_push_def)
  moreover have "bq_inv ?q"
  proof -
    have "bq_items ?q (bq_slot ?q j) \<noteq> None" if j: "j < bq_cap q" for j
    proof (cases "Suc j < bq_cap q")
      case True
      then show ?thesis using inv full unfolding items [OF True] by (simp add: bq_inv_def)
    next
      case False
      with j show ?thesis using last [of j] by simp
    qed
    then show ?thesis using inv cap full by (auto simp: bq_inv_def)
  qed
  moreover have "bq_list ?q = tl (bq_list q) @ [x]"
  proof (rule bq_listI)
    show "bq_count ?q = length (tl (bq_list q) @ [x])" using full cap by simp
    fix j assume j: "j < length (tl (bq_list q) @ [x])"
    show "bq_items ?q (bq_slot ?q j) = Some ((tl (bq_list q) @ [x]) ! j)"
    proof (cases "Suc j < bq_cap q")
      case True
      then have "j < bq_cap q - Suc 0" by simp
      with True show ?thesis
        using bq_slot_item [OF inv, of "Suc j"] full unfolding items [OF True]
        by (simp add: nth_append nth_tl)
    next
      case False
      with j full cap have "Suc j = bq_cap q" "\<not> j < bq_cap q - Suc 0" by simp_all
      then show ?thesis using last [of j] full by (simp add: nth_append)
    qed
  qed
  ultimately show ?thesis by simp
qed

lemma bq_elim_push_room:
  assumes "bq_inv q" "bq_count q < bq_cap q"
  shows "\<exists>q'. bq_elim_push q x = Some q' \<and> bq_inv q' \<and> bq_cap q' = bq_cap q \<and>
              bq_list q' = bq_list q @ [x]"
proof -
  obtain q' where q': "bq_push q x = Some (q', True)" "bq_inv q'" "bq_cap q' = bq_cap q"
      "bq_list q' = bq_list q @ [x]"
    using bq_push_room [OF assms] by blast
  have "bq_elim_push q x = Some q'"
    using q'(1) assms(2)
    by (auto simp: bq_elim_push_def bq_push_def split: option.splits)
  with q' show ?thesis by blast
qed

text \<open>On a queue of capacity 0 \<open>elim_push\<close> never returns.\<close>

lemma bq_elim_push_cap0: "bq_cap q = 0 \<Longrightarrow> bq_elim_push q x = None"
  by (simp add: bq_elim_push_def)

lemma bq_push_top_room:
  assumes inv: "bq_inv q" and room: "bq_count q < bq_cap q"
  shows "\<exists>q'. bq_push_top q x = (q', True) \<and> bq_inv q' \<and> bq_cap q' = bq_cap q \<and>
              bq_list q' = x # bq_list q"
proof -
  let ?s = "if bq_start q \<noteq> 0 then bq_start q - 1 else bq_cap q - 1"
  let ?q = "q\<lparr>bq_start := ?s, bq_count := Suc (bq_count q), bq_items := (bq_items q)(?s := Some x)\<rparr>"
  have cap: "bq_cap q \<le> 2 ^ 31" and start: "bq_start q < bq_cap q"
    using inv room by (auto simp: bq_inv_def)
  have s: "?s < bq_cap q" using start by auto
  have Suc_s: "Suc ?s mod bq_cap q = bq_start q" using start by auto
  have slS: "bq_slot ?q (Suc j) = bq_slot q j" for j
  proof -
    have "bq_slot ?q (Suc j) = (Suc ?s + j) mod bq_cap q" by (simp add: bq_slot_def)
    also have "\<dots> = (Suc ?s mod bq_cap q + j) mod bq_cap q" by (rule mod_add_left_eq [symmetric])
    finally show ?thesis unfolding Suc_s by (simp add: bq_slot_def)
  qed
  have sl0: "bq_slot ?q 0 = ?s" using s by (simp add: bq_slot_def)
  have ne: "bq_slot q j \<noteq> ?s" if "Suc j < bq_cap q" for j
  proof -
    have "bq_slot ?q (Suc j) \<noteq> bq_slot ?q 0"
      using that by (subst bq_slot_inj) auto
    then show ?thesis unfolding slS sl0 .
  qed
  have items: "bq_items ?q (bq_slot ?q (Suc j)) = bq_items q (bq_slot q j)"
    if "Suc j < bq_cap q" for j
    using ne [OF that] unfolding slS by simp
  have item0: "bq_items ?q (bq_slot ?q 0) = Some x" unfolding sl0 by simp
  have "bq_push_top q x = (?q, True)"
    using room cap by (simp add: bq_push_top_def Let_def u32_id)
  moreover have "bq_inv ?q"
  proof -
    have "(bq_items ?q (bq_slot ?q j) \<noteq> None) = (j < bq_count ?q)" if j: "j < bq_cap q" for j
    proof (cases j)
      case 0
      then show ?thesis using item0 by simp
    next
      case (Suc k)
      then show ?thesis using inv j items [of k] by (auto simp: bq_inv_def)
    qed
    then show ?thesis using cap s room by (auto simp: bq_inv_def)
  qed
  moreover have "bq_list ?q = x # bq_list q"
  proof (rule bq_listI)
    show "bq_count ?q = length (x # bq_list q)" by simp
    fix j assume j: "j < length (x # bq_list q)"
    show "bq_items ?q (bq_slot ?q j) = Some ((x # bq_list q) ! j)"
    proof (cases j)
      case 0
      then show ?thesis using item0 by simp
    next
      case (Suc k)
      then show ?thesis using items [of k] j room bq_slot_item [OF inv, of k] by simp
    qed
  qed
  ultimately show ?thesis by simp
qed

lemma bq_pop_bottom_snoc:
  assumes inv: "bq_inv q" and ne: "bq_list q = ys @ [y]"
  shows "\<exists>q'. bq_pop_bottom_item q = Some (q', Some y) \<and> bq_inv q' \<and> bq_cap q' = bq_cap q \<and>
              bq_list q' = ys"
proof -
  let ?i = "bq_slot q (bq_count q - 1)"
  let ?q = "q\<lparr>bq_count := bq_count q - 1, bq_items := (bq_items q)(?i := None)\<rparr>"
  have len: "bq_count q = Suc (length ys)" using ne length_bq_list [of q] by simp
  then have cap: "0 < bq_cap q" "Suc (length ys) \<le> bq_cap q"
    using bq_inv_count [OF inv] by auto
  have bot: "bq_items q ?i = Some y"
    using bq_slot_item [OF inv, of "bq_count q - 1"] len ne by simp
  have "bq_pop_bottom_item q = Some (?q, Some y)"
    using inv cap len bot by (simp add: bq_pop_bottom_item_def bq_slot_def)
  moreover have "bq_inv ?q"
    using inv len cap by (auto simp: bq_inv_def)
  moreover have "bq_list ?q = ys"
    using bq_slot_item [OF inv] len ne cap
    by (intro bq_listI) (auto simp: nth_append)
  ultimately show ?thesis by simp
qed

lemma bq_clear_loop_eq:
  assumes "0 < bq_cap q"
  shows "bq_clear_loop k i q =
    Some (q\<lparr>bq_items := (\<lambda>j. if j \<in> (\<lambda>n. u32 (bq_start q + n) mod bq_cap q) ` {i..<i + k}
                              then None else bq_items q j)\<rparr>)"
  using assms
proof (induction k arbitrary: i q)
  case 0
  then show ?case by simp
next
  case (Suc k)
  have "{i..<i + Suc k} = insert i {Suc i..<Suc i + k}" by auto
  with Suc show ?case by (auto simp: fun_eq_iff)
qed

lemma bq_clear_spec:
  assumes inv: "bq_inv q"
  shows "\<exists>q'. bq_clear q = Some q' \<and> bq_inv q' \<and> bq_cap q' = bq_cap q \<and> bq_list q' = [] \<and>
              (\<forall>i < bq_cap q. bq_items q' i = None)"
proof (cases "bq_cap q = 0")
  case True
  then show ?thesis using inv by (auto simp: bq_clear_def bq_inv_def bq_list_def)
next
  case False
  let ?S = "(\<lambda>n. u32 (bq_start q + n) mod bq_cap q) ` {0..<bq_count q}"
  let ?it = "\<lambda>j. if j \<in> ?S then None else bq_items q j"
  have S: "?S = bq_slot q ` {0..<bq_count q}"
    using inv bq_inv_count [OF inv] by (intro image_cong) (auto simp: bq_slot_def)
  have all: "?it i = None" if i: "i < bq_cap q" for i
  proof -
    let ?j = "(i + bq_cap q - bq_start q) mod bq_cap q"
    have "bq_start q < bq_cap q" using inv False by (simp add: bq_inv_start)
    then have "bq_slot q ?j = i" "?j < bq_cap q"
      using i by (auto simp: bq_slot_def mod_add_right_eq)
    then show ?thesis
      using inv unfolding S bq_inv_def by (metis atLeastLessThan_iff imageI less_eq_nat.simps(1))
  qed
  have "bq_clear q = Some (q\<lparr>bq_items := ?it, bq_count := 0, bq_start := 0\<rparr>)"
    using False by (simp add: bq_clear_def bq_clear_loop_eq)
  with inv False all show ?thesis
    by (auto simp: bq_inv_def bq_list_def bq_slot_def)
qed

section \<open>Access\<close>

lemma bq_top_None: "bq_top q = None \<longleftrightarrow> bq_list q = []"
  by (auto simp: bq_top_def simp flip: length_0_conv)

lemma bq_top_item:
  assumes "bq_inv q" "bq_list q \<noteq> []"
  shows "\<exists>p. bq_top q = Some p \<and> bq_items q p = Some (hd (bq_list q))"
proof -
  have "0 < bq_count q" using assms(2) by (simp flip: length_0_conv)
  moreover from this have "0 < bq_cap q" using bq_inv_count [OF assms(1)] by simp
  ultimately show ?thesis
    using bq_slot_item [OF assms(1), of 0] assms by (simp add: bq_top_def hd_conv_nth)
qed

lemma bq_top_at_item:
  assumes "bq_inv q" "i < bq_count q"
  shows "\<exists>p. bq_top_at q i = Some (Some p) \<and> bq_items q p = Some (bq_list q ! i)"
  using bq_slot_item [OF assms] assms bq_inv_count [OF assms(1)]
  by (auto simp: bq_top_at_def bq_slot_def)

lemma bq_bottom_None [simp]: "bq_list q = [] \<Longrightarrow> bq_bottom q = Some None"
  by (auto simp: bq_bottom_def simp flip: length_0_conv)

lemma bq_bottom_item:
  assumes "bq_inv q" "bq_list q \<noteq> []"
  shows "\<exists>p. bq_bottom q = Some (Some p) \<and> bq_items q p = Some (last (bq_list q))"
proof -
  have pos: "0 < bq_count q" using assms(2) by (simp flip: length_0_conv)
  then have "u32 (bq_start q + bq_count q - 1) = bq_start q + (bq_count q - 1)"
    using bq_no_wrap [OF assms(1), of "bq_count q - 1"] bq_inv_count [OF assms(1)] by simp
  then show ?thesis
    using pos bq_slot_item [OF assms(1), of "bq_count q - 1"] bq_inv_count [OF assms(1)] assms(2)
    by (simp add: bq_bottom_def bq_slot_def last_conv_nth)
qed

lemma bq_bottom_at_item:
  assumes inv: "bq_inv q" and i: "i < bq_count q"
  shows "\<exists>p. bq_bottom_at q i = Some (Some p) \<and>
              bq_items q p = Some (bq_list q ! (bq_count q - 1 - i))"
proof -
  have n: "bq_count q \<le> bq_cap q" "bq_cap q \<le> 2 ^ 31" "bq_start q < bq_cap q"
    using inv i by (auto simp: bq_inv_def)
  have "(int (u32 (bq_start q + bq_count q)) - int i - 1) mod 2 ^ 32 =
        int (bq_start q + (bq_count q - 1 - i))"
    using n i inv by (simp add: of_nat_diff mod_pos_pos_trivial)
  then have "nat ((int (u32 (bq_start q + bq_count q)) - int i - 1) mod 2 ^ 32) =
        bq_start q + (bq_count q - 1 - i)"
    by (simp only: nat_int)
  then show ?thesis
    using i n bq_slot_item [OF inv, of "bq_count q - 1 - i"]
    by (simp add: bq_bottom_at_def bq_slot_def)
qed

lemma bq_swap_list: "bq_swap q r = (q', r') \<Longrightarrow> bq_list q' = bq_list r \<and> bq_list r' = bq_list q"
  by (simp add: bq_swap_def)

section \<open>Interfaces\<close>

text \<open>Runs of a bounded FIFO: store a list of items, and take all items out.\<close>

fun push_all :: "('q \<Rightarrow> 'a \<Rightarrow> ('q \<times> bool) option) \<Rightarrow> 'q \<Rightarrow> 'a list \<Rightarrow> ('q \<times> bool list) option" where
  "push_all push q [] = Some (q, [])"
| "push_all push q (x # xs) =
     (case push q x of None \<Rightarrow> None
      | Some (q', b) \<Rightarrow> map_option (\<lambda>(r, bs). (r, b # bs)) (push_all push q' xs))"

fun pop_n :: "('q \<Rightarrow> ('q \<times> 'a option) option) \<Rightarrow> nat \<Rightarrow> 'q \<Rightarrow> ('q \<times> 'a list) option" where
  "pop_n pop 0 q = Some (q, [])"
| "pop_n pop (Suc n) q =
     (case pop q of None \<Rightarrow> None
      | Some (q', None) \<Rightarrow> Some (q', [])
      | Some (q', Some x) \<Rightarrow> map_option (\<lambda>(r, xs). (r, x # xs)) (pop_n pop n q'))"

fun slide :: "('q \<Rightarrow> 'a \<Rightarrow> 'q option) \<Rightarrow> 'q \<Rightarrow> 'a list \<Rightarrow> 'q option" where
  "slide elim q [] = Some q"
| "slide elim q (x # xs) = (case elim q x of None \<Rightarrow> None | Some q' \<Rightarrow> slide elim q' xs)"

definition last_n :: "nat \<Rightarrow> 'a list \<Rightarrow> 'a list" where
  "last_n n xs = drop (length xs - n) xs"

lemma last_n_short [simp]: "length xs \<le> n \<Longrightarrow> last_n n xs = xs"
  by (simp add: last_n_def)

lemma last_n_snoc: "length xs \<le> n \<Longrightarrow> 0 < n \<Longrightarrow>
    last_n n (xs @ [x]) = (if length xs < n then xs @ [x] else tl xs @ [x])"
  by (cases xs) (auto simp: last_n_def)

lemma last_n_last_n_append: "last_n n (last_n n xs @ ys) = last_n n (xs @ ys)"
  by (cases "length xs \<le> n") (auto simp: last_n_def add.commute)

lemma upt_0_Suc: "[0..<Suc n] = 0 # map Suc [0..<n]"
  by (simp add: map_Suc_upt upt_conv_Cons del: upt_Suc)

locale bounded_fifo =
  fixes view :: "'q \<Rightarrow> 'a list"
    and ok :: "'q \<Rightarrow> bool"
    and room :: "'q \<Rightarrow> nat"
    and push :: "'q \<Rightarrow> 'a \<Rightarrow> ('q \<times> bool) option"
    and pop :: "'q \<Rightarrow> ('q \<times> 'a option) option"
  assumes view_room: "ok q \<Longrightarrow> length (view q) \<le> room q"
    and push_room: "ok q \<Longrightarrow> length (view q) < room q \<Longrightarrow>
          \<exists>q'. push q x = Some (q', True) \<and> ok q' \<and> room q' = room q \<and> view q' = view q @ [x]"
    and push_full: "ok q \<Longrightarrow> length (view q) = room q \<Longrightarrow> push q x = Some (q, False)"
    and pop_Cons: "ok q \<Longrightarrow> view q = y # ys \<Longrightarrow>
          \<exists>q'. pop q = Some (q', Some y) \<and> ok q' \<and> room q' = room q \<and> view q' = ys"
    and pop_Nil: "ok q \<Longrightarrow> view q = [] \<Longrightarrow> pop q = Some (q, None)"
begin

lemma pop_all:
  "ok q \<Longrightarrow> \<exists>q'. pop_n pop (length (view q)) q = Some (q', view q) \<and> ok q' \<and> view q' = []"
proof (induction "view q" arbitrary: q)
  case Nil
  then show ?case by simp
next
  case (Cons y ys)
  from pop_Cons [OF Cons.prems Cons.hyps(2) [symmetric]]
  obtain q1 where q1: "pop q = Some (q1, Some y)" "ok q1" "view q1 = ys" by blast
  from Cons.hyps(1) [OF q1(3) [symmetric] q1(2)] q1(3)
  obtain q2 where q2: "pop_n pop (length ys) q1 = Some (q2, ys)" "ok q2" "view q2 = []" by auto
  show ?case
    unfolding Cons.hyps(2) [symmetric] using q1 q2 by simp
qed

lemma push_all_prefix:
  "ok q \<Longrightarrow>
   \<exists>q' bs. push_all push q xs = Some (q', bs) \<and> ok q' \<and>
     view q' = view q @ take (room q - length (view q)) xs \<and>
     bs = map (\<lambda>i. length (view q) + i < room q) [0..<length xs]"
proof (induction xs arbitrary: q)
  case Nil
  then show ?case by simp
next
  case (Cons x xs)
  show ?case
  proof (cases "length (view q) < room q")
    case True
    from push_room [OF Cons.prems True, of x] obtain q1 where
      q1: "push q x = Some (q1, True)" "ok q1" "room q1 = room q" "view q1 = view q @ [x]" by blast
    obtain q2 bs where q2: "push_all push q1 xs = Some (q2, bs)" "ok q2"
        "view q2 = view q1 @ take (room q1 - length (view q1)) xs"
        "bs = map (\<lambda>i. length (view q1) + i < room q1) [0..<length xs]"
      using Cons.IH [OF q1(2)] by blast
    have "[0..<length (x # xs)] = 0 # map Suc [0..<length xs]"
      by (simp only: length_Cons upt_0_Suc)
    moreover have "room q - length (view q) = Suc (room q1 - length (view q1))"
      using True q1 by simp
    ultimately show ?thesis using q1 q2 True by (auto simp: o_def)
  next
    case False
    with view_room [OF Cons.prems] have full: "length (view q) = room q" by simp
    obtain q2 bs where q2: "push_all push q xs = Some (q2, bs)" "ok q2"
        "view q2 = view q @ take (room q - length (view q)) xs"
        "bs = map (\<lambda>i. length (view q) + i < room q) [0..<length xs]"
      using Cons.IH [OF Cons.prems] by blast
    have "[0..<length (x # xs)] = 0 # map Suc [0..<length xs]"
      by (simp only: length_Cons upt_0_Suc)
    then show ?thesis using q2 full push_full [OF Cons.prems full, of x] by (auto simp: o_def)
  qed
qed

end

text \<open>A sliding window keeps the last \<open>room\<close> items.\<close>

locale sliding_window = bounded_fifo +
  fixes elim :: "'q \<Rightarrow> 'a \<Rightarrow> 'q option"
  assumes elim_last: "ok q \<Longrightarrow> 0 < room q \<Longrightarrow>
      \<exists>q'. elim q x = Some q' \<and> ok q' \<and> room q' = room q \<and>
           view q' = last_n (room q) (view q @ [x])"
begin

lemma slide_last:
  "ok q \<Longrightarrow> 0 < room q \<Longrightarrow>
   \<exists>q'. slide elim q xs = Some q' \<and> ok q' \<and> room q' = room q \<and>
        view q' = last_n (room q) (view q @ xs)"
proof (induction xs arbitrary: q)
  case Nil
  then show ?case by (simp add: view_room)
next
  case (Cons x xs)
  from elim_last [OF Cons.prems, of x] obtain q1 where
    q1: "elim q x = Some q1" "ok q1" "room q1 = room q" "view q1 = last_n (room q) (view q @ [x])"
    by blast
  from Cons.IH [of q1] q1 Cons.prems(2) show ?case by (auto simp: last_n_last_n_append)
qed

end

interpretation bqi: sliding_window bq_list bq_inv bq_cap bq_push bq_pop_item bq_elim_push
proof unfold_locales
  fix q :: "'a bq" and x
  show "bq_inv q \<Longrightarrow> 0 < bq_cap q \<Longrightarrow>
      \<exists>q'. bq_elim_push q x = Some q' \<and> bq_inv q' \<and> bq_cap q' = bq_cap q \<and>
           bq_list q' = last_n (bq_cap q) (bq_list q @ [x])"
    using bq_elim_push_room [of q x] bq_elim_push_full [of q x] bq_inv_count [of q]
    by (cases "bq_count q < bq_cap q") (auto simp: last_n_snoc)
qed (auto simp: bq_inv_count bq_push_room bq_push_full bq_pop_item_Cons bq_pop_item_Nil)

section \<open>Properties\<close>



text \<open>
  A queue with room that is fed with \<open>elim_push\<close> always returns and holds, in order, the
  last \<open>cap\<close> of the items it held and was given: it is a sliding window. Every slot outside
  the window holds no object (part of \<open>bq_inv\<close>), so no item is leaked or destroyed twice.
\<close>

theorem elim_push_window:
  assumes "bq_inv q" "0 < bq_cap q"
  shows "\<exists>q'. slide bq_elim_push q xs = Some q' \<and> bq_inv q' \<and> bq_cap q' = bq_cap q \<and>
              bq_list q' = last_n (bq_cap q) (bq_list q @ xs)"
  using bqi.slide_last [OF assms] .

lemma elim_push_window_witness:
  "\<exists>q'. slide bq_elim_push (bq_wrap 16 8 NOT_OWN_STORAGE True) [1, 2, 3 :: int] = Some q' \<and>
        bq_inv q' \<and> bq_list q' = [2, 3]"
proof -
  let ?q = "bq_wrap 16 8 NOT_OWN_STORAGE True :: int bq"
  have inv: "bq_inv ?q" by (rule bq_inv_wrap) (simp add: u32_def)
  have cap: "bq_cap ?q = 2" by (simp add: bq_wrap_def u32_def)
  then have "0 < bq_cap ?q" by simp
  from elim_push_window [OF inv this, of "[1, 2, 3]"]
  show ?thesis unfolding cap by (auto simp: last_n_def)
qed

text \<open>
  The subtraction loop \<open>_mod\<close> computes the remainder whenever the capacity is positive,
  and never returns when it is 0; so \<open>elim_push\<close> on a queue of capacity 0 (a
  default-constructed one) does not return, while \<open>push\<close> answers false.
\<close>

theorem elim_push_hangs_without_capacity:
  "bq_mod off cap = (if 0 < cap then Some (off mod cap) else None) \<and>
   bq_elim_push (bq_default :: 'a bq) x = None \<and>
   bq_push (bq_default :: 'a bq) x = Some (bq_default, False)"
  by (simp add: bq_elim_push_def bq_push_def bq_default_def)

end
