(* ===== verification/LoadBalancer.thy ===== *)
theory LoadBalancer
  imports Prelude
begin

text \<open>
  The interface \<open>LoadBalancer\<close> of \<open>include/rpc_proto/load_balancer.h\<close>: the records that go in
  and out of a selection and of a feedback, and, as the locale \<open>server_registry\<close>, what a
  client of \<open>add_server\<close> and \<open>remove_server\<close> relies on. The locale is interpreted for both
  balancers of the program, and the naming service is its client.
\<close>

type_synonym server_name = string

record select_in =
  si_begin_time_us :: int
  si_changable_weights :: bool
  si_has_request_code :: bool
  si_request_code :: nat

record select_out =
  so_ptr :: "unit option"              \<comment> \<open>the socket channel, if the balancer supplies one\<close>
  so_node :: server_name
  so_need_feedback :: bool

definition select_out_init :: select_out where
  "select_out_init = \<lparr>so_ptr = None, so_node = '''', so_need_feedback = False\<rparr>"

record call_info =
  ci_begin_time_us :: int
  ci_node :: server_name
  ci_error_code :: int

text \<open>
  \<open>room lb k\<close> says that the balancer can take \<open>k\<close> more servers: its sums of weights are
  64-bit integers, so no balancer takes any number of them.
\<close>

locale server_registry =
  fixes ok :: "'lb \<Rightarrow> bool"
    and members :: "'lb \<Rightarrow> server_name set"
    and room :: "'lb \<Rightarrow> nat \<Rightarrow> bool"
    and add :: "server_name \<Rightarrow> 'lb \<Rightarrow> 'lb res"
    and remove :: "server_name \<Rightarrow> 'lb \<Rightarrow> 'lb res"
  assumes add_ok: "ok lb \<Longrightarrow> room lb (Suc k) \<Longrightarrow>
      \<exists>lb'. add x lb = Inr lb' \<and> ok lb' \<and> room lb' k \<and> members lb' = insert x (members lb)"
    and remove_ok: "ok lb \<Longrightarrow> room lb k \<Longrightarrow>
      \<exists>lb'. remove x lb = Inr lb' \<and> ok lb' \<and> room lb' k \<and> members lb' = members lb - {x}"
begin

lemma run_add:
  "ok lb \<Longrightarrow> room lb (length xs + k) \<Longrightarrow>
   \<exists>lb'. run_res add xs lb = Inr lb' \<and> ok lb' \<and> room lb' k \<and> members lb' = set xs \<union> members lb"
proof (induction xs arbitrary: lb)
  case Nil
  then show ?case by simp
next
  case (Cons x xs)
  from add_ok [OF Cons.prems(1), of "length xs + k" x] Cons.prems(2) obtain lb1 where
    lb1: "add x lb = Inr lb1" "ok lb1" "room lb1 (length xs + k)"
         "members lb1 = insert x (members lb)" by auto
  from Cons.IH [OF lb1(2,3)] lb1 show ?case by auto
qed

lemma run_remove:
  "ok lb \<Longrightarrow> room lb k \<Longrightarrow>
   \<exists>lb'. run_res remove xs lb = Inr lb' \<and> ok lb' \<and> room lb' k \<and> members lb' = members lb - set xs"
proof (induction xs arbitrary: lb)
  case Nil
  then show ?case by simp
next
  case (Cons x xs)
  from remove_ok [OF Cons.prems, of x] obtain lb1 where
    lb1: "remove x lb = Inr lb1" "ok lb1" "room lb1 k" "members lb1 = members lb - {x}" by blast
  from Cons.IH [OF lb1(2,3)] lb1 show ?case by auto
qed

text \<open>Additions followed by removals, as a naming update makes them.\<close>

lemma run_update:
  assumes "ok lb" "room lb (length xs + k)"
  shows "\<exists>lb'. ubind (run_res add xs lb) (run_res remove ys) = Inr lb' \<and> ok lb' \<and> room lb' k \<and>
               members lb' = (set xs \<union> members lb) - set ys"
proof -
  obtain lb1 where lb1: "run_res add xs lb = Inr lb1" "ok lb1" "room lb1 k"
      "members lb1 = set xs \<union> members lb"
    using run_add [OF assms] by blast
  with run_remove [OF lb1(2,3), of ys] show ?thesis by auto
qed

end

text \<open>Room for some servers is room for fewer.\<close>

locale monotone_registry = server_registry +
  assumes room_mono: "room lb j \<Longrightarrow> i \<le> j \<Longrightarrow> room lb i"

end
