(* ===== verification/WeightNode.thy ===== *)
theory WeightNode
  imports BoundedQueue LoadBalancer
begin

text \<open>
  The class \<open>Weight\<close> nested in \<open>LocalityAwareLoadBalancer\<close>
  (\<open>src/rpc_proto/locality_aware_load_balancer.cc\<close> and its header), the weight of one server:
  a record of its fields, one definition per member function. \<open>int64_t\<close> fields are integers
  and every signed operation on them that could overflow goes through \<open>chk64\<close>; the two
  divisions that the code makes in \<open>uint64_t\<close> (an operand is a \<open>size_t\<close>) are written with
  \<open>u64\<close> and \<open>s64\<close>. The clock \<open>gettimeofday_us()\<close> is an argument. The mutex of the class
  makes each operation one step; the log-only field \<open>last_time_us\<close> is kept but never read
  here.
\<close>

section \<open>Constants and data\<close>

definition DEFAULT_QPS :: int where "DEFAULT_QPS = 1"

definition INITIAL_WEIGHT_TREE_SIZE :: int where "INITIAL_WEIGHT_TREE_SIZE = 128"

definition WEIGHT_SCALE :: int where
  "WEIGHT_SCALE = (2 ^ 63 - 1) div 72000000 div (INITIAL_WEIGHT_TREE_SIZE - 1)"

definition FLAGS_min_weight :: int where "FLAGS_min_weight = 1000"

text \<open>An \<open>int64_t\<close> initialised with \<open>1.5\<close>: the initialisation drops the fraction.\<close>

definition FLAGS_punish_inflight_ratio :: int where "FLAGS_punish_inflight_ratio = 15 div 10"

definition FLAGS_punish_error_ratio :: int where "FLAGS_punish_error_ratio = 12 div 10"

definition RECV_QUEUE_SIZE :: nat where "RECV_QUEUE_SIZE = 128"

lemma WEIGHT_SCALE_eq [simp]: "WEIGHT_SCALE = 1008680231"
  by (simp add: WEIGHT_SCALE_def INITIAL_WEIGHT_TREE_SIZE_def)

lemma ratio_eq [simp]: "FLAGS_punish_inflight_ratio = 1"
  by (simp add: FLAGS_punish_inflight_ratio_def)

record time_info =
  latency_sum :: int
  end_time_us :: int

record add_inflight_result =
  chosen :: bool
  weight_diff :: int

record weight =
  w_last_time_us :: int
  w_base_weight :: int
  w_weight :: int
  w_avg_latency :: int
  w_begin_time_sum :: int
  w_begin_time_count :: int
  w_old_diff_sum :: int
  w_old_index :: nat
  w_old_weight :: int
  w_time_q :: "time_info bq"

text \<open>\<open>(size_t)-1\<close>, the "no old index" of the code.\<close>

definition NO_INDEX :: nat where "NO_INDEX = 2 ^ 64 - 1"

text \<open>\<open>sizeof(TimeInfo)\<close> is two \<open>int64_t\<close>, so the queue is built over 128 items of 16 bytes.\<close>

definition new_weight :: "int \<Rightarrow> int \<Rightarrow> weight" where
  "new_weight now initial_weight =
     \<lparr>w_last_time_us = now, w_base_weight = initial_weight, w_weight = initial_weight,
      w_avg_latency = 0, w_begin_time_sum = 0, w_begin_time_count = 0, w_old_diff_sum = 0,
      w_old_index = NO_INDEX, w_old_weight = 0,
      w_time_q = bq_wrap (RECV_QUEUE_SIZE * 16) 16 NOT_OWN_STORAGE True\<rparr>"

section \<open>Operations\<close>

definition disabled :: "weight \<Rightarrow> bool" where
  "disabled w = (w_base_weight w < 0)"

definition volatile_value :: "weight \<Rightarrow> int" where
  "volatile_value w = w_weight w"

text \<open>The inflight punishment, the first half of \<open>ResetWeight\<close>.\<close>

definition punished_weight :: "int \<Rightarrow> weight \<Rightarrow> int res" where
  "punished_weight now_us w =
     (let new_weight = w_base_weight w in
      if w_begin_time_count w > 0 then
        ubind (chk64 (now_us - w_begin_time_sum w sdiv w_begin_time_count w)) (\<lambda>inflight_delay.
        ubind (chk64 (w_avg_latency w * FLAGS_punish_inflight_ratio)) (\<lambda>punish_latency.
        if inflight_delay \<ge> punish_latency \<and> w_avg_latency w > 0 then
          ubind (chk64 (new_weight * punish_latency)) (\<lambda>p.
            if inflight_delay = 0 then Inl DivByZero else Inr (p sdiv inflight_delay))
        else Inr new_weight))
      else Inr new_weight)"

definition ResetWeight :: "nat \<Rightarrow> int \<Rightarrow> weight \<Rightarrow> (weight \<times> int) res" where
  "ResetWeight index now_us w =
     ubind (punished_weight now_us w) (\<lambda>new_weight.
     let new_weight = (if new_weight < FLAGS_min_weight then FLAGS_min_weight else new_weight);
         old_weight = w_weight w;
         w = w\<lparr>w_weight := new_weight\<rparr>
     in ubind (chk64 (new_weight - old_weight)) (\<lambda>diff.
        if w_old_index w = index \<and> diff \<noteq> 0
        then ubind (chk64 (w_old_diff_sum w + diff)) (\<lambda>s.
               Inr (w\<lparr>w_old_diff_sum := s\<rparr>, diff))
        else Inr (w, diff)))"

definition AddInflight ::
  "select_in \<Rightarrow> nat \<Rightarrow> int \<Rightarrow> weight \<Rightarrow> (weight \<times> add_inflight_result) res" where
  "AddInflight inp index dice w =
     (if disabled w then Inr (w, \<lparr>chosen = False, weight_diff = 0\<rparr>)
      else ubind (ResetWeight index (si_begin_time_us inp) w) (\<lambda>(w, diff).
        if w_weight w < dice then Inr (w, \<lparr>chosen = False, weight_diff = diff\<rparr>)
        else ubind (chk64 (w_begin_time_sum w + si_begin_time_us inp)) (\<lambda>s.
          Inr (w\<lparr>w_begin_time_sum := s, w_begin_time_count := w_begin_time_count w + 1\<rparr>,
               \<lparr>chosen = True, weight_diff = diff\<rparr>))))"

definition MarkFailed :: "nat \<Rightarrow> int \<Rightarrow> weight \<Rightarrow> (weight \<times> int) res" where
  "MarkFailed index avg_weight w =
     (if w_base_weight w \<le> avg_weight then Inr (w, 0)
      else ResetWeight index 0 (w\<lparr>w_base_weight := avg_weight\<rparr>))"

definition MarkOld :: "nat \<Rightarrow> weight \<Rightarrow> weight \<times> int" where
  "MarkOld index w =
     (let saved = w_weight w
      in (w\<lparr>w_old_weight := saved, w_old_diff_sum := 0, w_old_index := index\<rparr>, saved))"

definition ClearOld :: "weight \<Rightarrow> weight \<times> (int \<times> int)" where
  "ClearOld w =
     (let old_weight = w_old_weight w; diff = w_old_diff_sum w
      in (w\<lparr>w_old_diff_sum := 0, w_old_index := NO_INDEX, w_old_weight := 0\<rparr>,
          (old_weight, diff)))"

definition Disable :: "weight \<Rightarrow> weight \<times> int" where
  "Disable w =
     (let ret = w_weight w in (w\<lparr>w_base_weight := -1, w_weight := 0\<rparr>, ret))"

text \<open>Reading a \<open>TimeInfo\<close> through the pointer that \<open>top()\<close> or \<open>bottom()\<close> returned.\<close>

definition deref :: "'a bq \<Rightarrow> nat option \<Rightarrow> 'a res" where
  "deref q p = ubind (of_opt NullDeref p) (\<lambda>i. of_opt OutOfBounds (bq_items q i))"

definition deref_bottom :: "'a bq \<Rightarrow> 'a res" where
  "deref_bottom q = ubind (of_opt Diverge (bq_bottom q)) (deref q)"

text \<open>The new entry of a successful call in \<open>Update\<close>.\<close>

definition push_sample :: "int \<Rightarrow> int \<Rightarrow> weight \<Rightarrow> weight res" where
  "push_sample latency now w =
     ubind (if \<not> bq_empty (w_time_q w)
            then ubind (deref_bottom (w_time_q w)) (\<lambda>b. chk64 (latency + latency_sum b))
            else Inr latency) (\<lambda>ls.
     ubind (of_opt Diverge
              (bq_elim_push (w_time_q w) \<lparr>latency_sum = ls, end_time_us = now\<rparr>)) (\<lambda>q.
     Inr (w\<lparr>w_time_q := q\<rparr>)))"

text \<open>
  \<open>scaled_qps\<close> from the window: \<open>(n - 1) * 1000000L * WEIGHT_SCALE / (end - top)\<close> is
  computed in \<open>uint64_t\<close>, since \<open>n\<close> is a \<open>size_t\<close>.
\<close>

definition scaled_qps :: "nat \<Rightarrow> nat \<Rightarrow> int \<Rightarrow> int \<Rightarrow> int res" where
  "scaled_qps n cap now top_time_us =
     ubind (if n = cap then Inr True
            else ubind (chk64 (top_time_us + 1000000)) (\<lambda>t. Inr (now \<ge> t))) (\<lambda>enough.
     if enough then
       ubind (chk64 (now - top_time_us)) (\<lambda>elapsed.
       let q = s64 (u64 (u64 (u64 (int n - 1) * 1000000) * WEIGHT_SCALE) div u64 elapsed)
       in Inr (if q < WEIGHT_SCALE then WEIGHT_SCALE else q))
     else Inr (DEFAULT_QPS * WEIGHT_SCALE))"

text \<open>
  The second half of \<open>Update\<close>: \<open>scaled_qps\<close> and \<open>_avg_latency\<close> from the window, then the
  base weight. The division by \<open>n - 1\<close> is unsigned too.
\<close>

definition update_from_window :: "int \<Rightarrow> nat \<Rightarrow> weight \<Rightarrow> (weight \<times> int) res" where
  "update_from_window now index w =
     (let q = w_time_q w; n = bq_size q in
      ubind (deref q (bq_top q)) (\<lambda>top.
      if now > end_time_us top then
        ubind (scaled_qps n (bq_capacity q) now (end_time_us top)) (\<lambda>qps.
        ubind (deref_bottom q) (\<lambda>bot.
        ubind (chk64 (latency_sum bot - latency_sum top)) (\<lambda>span.
        if u64 (int n - 1) = 0 then Inl DivByZero
        else let avg = s64 (u64 span div u64 (int n - 1)); w = w\<lparr>w_avg_latency := avg\<rparr>
             in if avg = 0 then Inr (w, 0)
                else ResetWeight index now (w\<lparr>w_base_weight := qps sdiv avg\<rparr>))))
      else if n = 1 then
        ubind (deref_bottom q) (\<lambda>bot.
        let avg = latency_sum bot; w = w\<lparr>w_avg_latency := avg\<rparr>
        in if avg = 0 then Inr (w, 0)
           else ResetWeight index now
                  (w\<lparr>w_base_weight := (DEFAULT_QPS * WEIGHT_SCALE) sdiv avg\<rparr>))
      else Inr (w, 0)))"

definition Update :: "int \<Rightarrow> call_info \<Rightarrow> nat \<Rightarrow> weight \<Rightarrow> (weight \<times> int) res" where
  "Update now ci index w =
     ubind (chk64 (now - ci_begin_time_us ci)) (\<lambda>latency.
     if disabled w then Inr (w, 0)
     else ubind (chk64 (w_begin_time_sum w - ci_begin_time_us ci)) (\<lambda>s.
       let w = w\<lparr>w_begin_time_sum := s, w_begin_time_count := w_begin_time_count w - 1\<rparr>
       in if latency \<le> 0 then Inr (w, 0)
          else ubind (if ci_error_code ci = 0 then push_sample latency now w else Inr w)
                 (update_from_window now index)))"

section \<open>What an operation reports\<close>

text \<open>
  \<open>weight_step i w w' d\<close>: a step from \<open>w\<close> to \<open>w'\<close>, made by someone who sees the node at
  index \<open>i\<close>, changed the weight by exactly the reported difference \<open>d\<close>, and recorded the
  difference in \<open>_old_diff_sum\<close> if and only if \<open>i\<close> is the node's old index.
\<close>

definition weight_step :: "nat \<Rightarrow> weight \<Rightarrow> weight \<Rightarrow> int \<Rightarrow> bool" where
  "weight_step i w w' d \<longleftrightarrow>
     w_weight w' = w_weight w + d \<and> w_old_index w' = w_old_index w \<and>
     w_old_weight w' = w_old_weight w \<and>
     w_old_diff_sum w' = w_old_diff_sum w + (if w_old_index w = i then d else 0)"

lemma weight_step_refl [simp]: "weight_step i w w 0"
  by (simp add: weight_step_def)

lemma weight_step_pre:
  assumes "weight_step i w1 w' d" "w_weight w1 = w_weight w" "w_old_index w1 = w_old_index w"
    "w_old_weight w1 = w_old_weight w" "w_old_diff_sum w1 = w_old_diff_sum w"
  shows "weight_step i w w' d"
  using assms by (simp add: weight_step_def)

lemma ResetWeight_step:
  "ResetWeight i now w = Inr (w', d) \<Longrightarrow> weight_step i w w' d"
  by (auto simp: ResetWeight_def Let_def weight_step_def split: if_splits)

lemma ResetWeight_frame:
  assumes "ResetWeight i now w = Inr (w', d)"
  shows "w_base_weight w' = w_base_weight w \<and> w_time_q w' = w_time_q w \<and>
    w_avg_latency w' = w_avg_latency w \<and> w_begin_time_sum w' = w_begin_time_sum w \<and>
    w_begin_time_count w' = w_begin_time_count w \<and> FLAGS_min_weight \<le> w_weight w'"
  using assms by (auto simp: ResetWeight_def Let_def split: if_splits)

lemma AddInflight_step:
  assumes "AddInflight inp i dice w = Inr (w', r)"
  shows "weight_step i w w' (weight_diff r)"
  using assms
  by (auto simp: AddInflight_def weight_step_def
      dest!: ResetWeight_step split: if_splits)

lemma push_sample_frame:
  assumes "push_sample l now w = Inr w'"
  obtains q where "w' = w\<lparr>w_time_q := q\<rparr>"
  using assms by (auto simp: push_sample_def)

lemma update_from_window_step:
  assumes "update_from_window now i w = Inr (w', d)"
  shows "weight_step i w w' d"
  using assms
  by (auto simp: update_from_window_def Let_def weight_step_def
      dest!: ResetWeight_step split: if_splits)

text \<open>The ways in which \<open>Update\<close> can come to a value.\<close>

lemma Update_cases [consumes 1, case_names disabled skew window]:
  assumes "Update now ci i w = Inr (w', d)"
  obtains "disabled w" "w' = w" "d = 0"
  | s where "\<not> disabled w" "d = 0" "now \<le> ci_begin_time_us ci"
      "w' = w\<lparr>w_begin_time_sum := s, w_begin_time_count := w_begin_time_count w - 1\<rparr>"
  | s w1 w2 where "\<not> disabled w" "ci_begin_time_us ci < now"
      "w1 = w\<lparr>w_begin_time_sum := s, w_begin_time_count := w_begin_time_count w - 1\<rparr>"
      "(if ci_error_code ci = 0 then push_sample (now - ci_begin_time_us ci) now w1
        else Inr w1) = Inr w2"
      "update_from_window now i w2 = Inr (w', d)"
  using assms unfolding Update_def Let_def
  by (elim ubind_InrE) (force split: if_split_asm)

lemma Update_step:
  assumes "Update now ci i w = Inr (w', d)"
  shows "weight_step i w w' d"
  using assms
proof (cases rule: Update_cases)
  case (window s w1 w2)
  have "w_weight w2 = w_weight w1 \<and> w_old_index w2 = w_old_index w1 \<and>
        w_old_weight w2 = w_old_weight w1 \<and> w_old_diff_sum w2 = w_old_diff_sum w1"
    using window(4) by (auto split: if_splits elim!: push_sample_frame)
  with update_from_window_step [OF window(5)] window(3) show ?thesis
    by (auto intro: weight_step_pre)
qed (simp_all add: weight_step_def)

lemma MarkFailed_step:
  assumes "MarkFailed i a w = Inr (w', d)"
  shows "weight_step i w w' d"
  using assms
  by (auto simp: MarkFailed_def weight_step_def dest!: ResetWeight_step split: if_splits)

section \<open>The sample window\<close>

text \<open>
  The window holds running sums of latencies, so they increase from top to bottom.
\<close>

definition window_inv :: "time_info bq \<Rightarrow> bool" where
  "window_inv q \<longleftrightarrow>
     bq_inv q \<and> bq_cap q = RECV_QUEUE_SIZE \<and>
     sorted_wrt (\<lambda>a b. latency_sum a < latency_sum b) (bq_list q) \<and>
     (\<forall>t \<in> set (bq_list q). 0 < latency_sum t \<and> in64 (latency_sum t))"

lemma deref_top [simp]:
  "bq_inv q \<Longrightarrow> deref q (bq_top q) =
     (if bq_list q = [] then Inl NullDeref else Inr (hd (bq_list q)))"
proof (cases "bq_list q = []")
  case True
  then have "bq_top q = None" by (rule iffD2 [OF bq_top_None])
  with True show ?thesis by (simp add: deref_def)
qed (use bq_top_item [of q] in \<open>auto simp: deref_def\<close>)

lemma deref_bottom [simp]:
  "bq_inv q \<Longrightarrow> deref_bottom q =
     (if bq_list q = [] then Inl NullDeref else Inr (last (bq_list q)))"
  using bq_bottom_item [of q] by (auto simp: deref_bottom_def deref_def)

lemma bq_empty_iff [simp]: "bq_empty q \<longleftrightarrow> bq_list q = []"
  by (auto simp: bq_empty_def simp flip: length_0_conv)

lemma bq_size_length [simp]: "bq_size q = length (bq_list q)"
  by (simp add: bq_size_def)

lemma window_inv_new: "window_inv (bq_wrap (RECV_QUEUE_SIZE * 16) 16 NOT_OWN_STORAGE True)"
  by (auto simp: window_inv_def intro!: bq_inv_wrap)
    (simp_all add: RECV_QUEUE_SIZE_def u32_def bq_wrap_def)

definition sample_sum :: "weight \<Rightarrow> int" where
  "sample_sum w = (if bq_list (w_time_q w) = [] then 0 else latency_sum (last (bq_list (w_time_q w))))"

lemma sample_sum_frame [simp]:
  "sample_sum (w\<lparr>w_begin_time_sum := a\<rparr>) = sample_sum w"
  "sample_sum (w\<lparr>w_begin_time_count := b\<rparr>) = sample_sum w"
  by (simp_all add: sample_sum_def)

lemma sorted_wrt_last_n: "sorted_wrt P xs \<Longrightarrow> sorted_wrt P (last_n n xs)"
  unfolding last_n_def by (metis append_take_drop_id sorted_wrt_append)

lemma set_last_n: "set (last_n n xs) \<subseteq> set xs"
  by (simp add: last_n_def set_drop_subset)

lemma sorted_wrt_less_last:
  fixes f :: "'a \<Rightarrow> int"
  shows "sorted_wrt (\<lambda>a b. f a < f b) xs \<Longrightarrow> x \<in> set xs \<Longrightarrow> f x \<le> f (last xs)"
proof (induction xs)
  case (Cons a xs)
  then show ?case using last_in_set [of xs] by (cases "xs = []") (auto intro: less_imp_le)
qed simp

lemma push_sample_spec:
  assumes inv: "window_inv (w_time_q w)" and l: "0 < l" and fits: "in64 (sample_sum w + l)"
  shows "\<exists>q. push_sample l now w = Inr (w\<lparr>w_time_q := q\<rparr>) \<and> window_inv q \<and>
    bq_list q = last_n RECV_QUEUE_SIZE
      (bq_list (w_time_q w) @ [\<lparr>latency_sum = sample_sum w + l, end_time_us = now\<rparr>])"
proof -
  let ?q = "w_time_q w" and ?t = "\<lparr>latency_sum = sample_sum w + l, end_time_us = now\<rparr>"
  have q: "bq_inv ?q" "bq_cap ?q = RECV_QUEUE_SIZE"
    "sorted_wrt (\<lambda>a b. latency_sum a < latency_sum b) (bq_list ?q)"
    "\<forall>t \<in> set (bq_list ?q). 0 < latency_sum t \<and> in64 (latency_sum t)"
    using inv by (simp_all add: window_inv_def)
  have "0 < bq_cap ?q" using q(2) by (simp add: RECV_QUEUE_SIZE_def)
  from bqi.elim_last [OF q(1) this, of ?t] obtain q' where
    q': "bq_elim_push ?q ?t = Some q'" "bq_inv q'" "bq_cap q' = RECV_QUEUE_SIZE"
        "bq_list q' = last_n RECV_QUEUE_SIZE (bq_list ?q @ [?t])"
    using q(2) by auto
  have below: "latency_sum t < latency_sum ?t" if "t \<in> set (bq_list ?q)" for t
    using sorted_wrt_less_last [OF q(3) that] that l by (auto simp: sample_sum_def)
  have pos: "0 < latency_sum ?t"
  proof (cases "bq_list ?q = []")
    case False
    then show ?thesis using q(4) l by (force simp: sample_sum_def dest: last_in_set)
  qed (use l in \<open>simp add: sample_sum_def\<close>)
  have "window_inv q'"
    using q q' below pos fits set_last_n [of RECV_QUEUE_SIZE "bq_list ?q @ [?t]"]
    by (auto simp: window_inv_def sorted_wrt_append intro!: sorted_wrt_last_n)
  moreover have "push_sample l now w = Inr (w\<lparr>w_time_q := q'\<rparr>)"
    using q(1) q'(1) fits
    by (cases "bq_list ?q = []") (auto simp: push_sample_def sample_sum_def chk64_def add.commute)
  ultimately show ?thesis using q' by auto
qed

lemma push_sample_window_inv:
  assumes "window_inv (w_time_q w)" "0 < l" "in64 l" "push_sample l now w = Inr w'"
  shows "window_inv (w_time_q w')"
proof -
  have "in64 (sample_sum w + l)"
    using assms(1,3,4)
    by (cases "bq_list (w_time_q w) = []")
      (auto simp: push_sample_def sample_sum_def window_inv_def add.commute)
  from push_sample_spec [OF assms(1,2) this, of now] assms(4) show ?thesis by auto
qed

section \<open>Live weights\<close>

text \<open>
  A weight that is not disabled, and whose value is what selection relies on: at least
  \<open>FLAGS_min_weight\<close>. \<open>weight_inv\<close> is the invariant of the whole record.
\<close>

definition live :: "weight \<Rightarrow> bool" where
  "live w \<longleftrightarrow> 0 \<le> w_base_weight w \<and> FLAGS_min_weight \<le> w_weight w"

definition weight_inv :: "weight \<Rightarrow> bool" where
  "weight_inv w \<longleftrightarrow> window_inv (w_time_q w) \<and> 0 \<le> w_avg_latency w"

lemma live_not_disabled: "live w \<Longrightarrow> \<not> disabled w"
  by (simp add: live_def disabled_def)

lemma new_weight_inv: "weight_inv (new_weight now i)"
  by (simp add: weight_inv_def new_weight_def window_inv_new)

lemma scaled_qps_ge: "scaled_qps n cap now t = Inr q \<Longrightarrow> WEIGHT_SCALE \<le> q"
  by (auto simp: scaled_qps_def DEFAULT_QPS_def Let_def split: if_splits)

lemma scaled_qps_defined:
  "in64 (t + 1000000) \<Longrightarrow> in64 (now - t) \<Longrightarrow> \<exists>q. scaled_qps n cap now t = Inr q"
  by (simp add: scaled_qps_def Let_def)

lemma window_span:
  assumes "window_inv q" "2 \<le> length (bq_list q)"
  shows "0 < latency_sum (last (bq_list q)) - latency_sum (hd (bq_list q))"
    "latency_sum (last (bq_list q)) - latency_sum (hd (bq_list q)) < 2 ^ 63"
proof -
  obtain x y ys where xs: "bq_list q = x # y # ys"
    using assms(2) by (cases "bq_list q"; cases "tl (bq_list q)") auto
  then show "0 < latency_sum (last (bq_list q)) - latency_sum (hd (bq_list q))"
    using assms(1) by (force simp: window_inv_def)
  have "last (bq_list q) \<in> set (bq_list q)" "hd (bq_list q) \<in> set (bq_list q)"
    using xs by (simp_all add: last_in_set)
  with assms(1) have "latency_sum (last (bq_list q)) < 2 ^ 63" "0 < latency_sum (hd (bq_list q))"
    by (auto simp: window_inv_def in64_def)
  then show "latency_sum (last (bq_list q)) - latency_sum (hd (bq_list q)) < 2 ^ 63"
    by linarith
qed

lemma window_length: "window_inv q \<Longrightarrow> length (bq_list q) \<le> 128"
  by (auto simp: window_inv_def RECV_QUEUE_SIZE_def dest: bq_inv_count)

text \<open>What the second half of \<open>Update\<close> does to a live weight.\<close>

lemma ResetWeight_live:
  assumes "ResetWeight i now w = Inr (w', d)" "0 \<le> w_base_weight w" "weight_inv w"
  shows "live w' \<and> weight_inv w'"
  using assms(2,3) ResetWeight_frame [OF assms(1)] by (simp add: live_def weight_inv_def)

lemma update_from_window_live:
  assumes r: "update_from_window now i w = Inr (w', d)" and inv: "weight_inv w" "live w"
  shows "live w' \<and> weight_inv w'"
proof -
  let ?q = "w_time_q w" and ?n = "length (bq_list (w_time_q w))"
  have q: "window_inv ?q" "bq_inv ?q" using inv(1) by (simp_all add: weight_inv_def window_inv_def)
  have ne: "bq_list ?q \<noteq> []" using r q by (auto simp: update_from_window_def Let_def)
  let ?hd = "hd (bq_list ?q)" and ?la = "last (bq_list ?q)"
  have hd_pos: "0 < latency_sum ?la" using q ne by (auto simp: window_inv_def dest: last_in_set)
  show ?thesis
  proof (cases "now > end_time_us ?hd")
    case True
    let ?avg = "s64 (u64 (latency_sum ?la - latency_sum ?hd) div u64 (int ?n - 1))"
    obtain qps where qps: "scaled_qps ?n (bq_capacity ?q) now (end_time_us ?hd) = Inr qps"
      and dz: "u64 (int ?n - 1) \<noteq> 0"
      and rest: "(if ?avg = 0 then Inr (w\<lparr>w_avg_latency := ?avg\<rparr>, 0)
          else ResetWeight i now (w\<lparr>w_avg_latency := ?avg, w_base_weight := qps sdiv ?avg\<rparr>))
          = Inr (w', d)"
      using r q ne True by (auto simp: update_from_window_def Let_def split: if_splits)
    have "?n \<noteq> 1" using dz by (auto simp: u64_def)
    with ne have n2: "2 \<le> ?n" by (cases "bq_list ?q"; cases "tl (bq_list ?q)") auto
    have "?avg = (latency_sum ?la - latency_sum ?hd) div (int ?n - 1)"
      using window_span [OF q(1) n2] window_length [OF q(1)] n2 by (intro s64_u64_div) auto
    then have avg: "0 \<le> ?avg"
      using window_span [OF q(1) n2] n2 by (simp add: pos_imp_zdiv_nonneg_iff)
    moreover have "0 \<le> qps sdiv ?avg"
      using scaled_qps_ge [OF qps] avg
      by (cases "?avg = 0") (simp_all add: sdiv_nonneg pos_imp_zdiv_nonneg_iff)
    ultimately show ?thesis
      using rest inv by (auto simp: live_def weight_inv_def split: if_splits dest!: ResetWeight_frame)
  next
    case False
    then have "(w' = w \<and> d = 0) \<or>
      ResetWeight i now (w\<lparr>w_avg_latency := latency_sum ?la,
        w_base_weight := (DEFAULT_QPS * WEIGHT_SCALE) sdiv latency_sum ?la\<rparr>) = Inr (w', d)"
      using r q ne hd_pos by (auto simp: update_from_window_def Let_def split: if_splits)
    moreover have "0 \<le> (DEFAULT_QPS * WEIGHT_SCALE) sdiv latency_sum ?la"
      using hd_pos by (simp add: DEFAULT_QPS_def sdiv_nonneg pos_imp_zdiv_nonneg_iff)
    ultimately show ?thesis
      using inv hd_pos by (auto simp: live_def weight_inv_def dest!: ResetWeight_frame)
  qed
qed

lemma Update_live:
  assumes r: "Update now ci i w = Inr (w', d)" and inv: "weight_inv w" "live w"
  shows "live w' \<and> weight_inv w'"
  using r
proof (cases rule: Update_cases)
  case (window s w1 w2)
  have lat: "in64 (now - ci_begin_time_us ci)"
    using r by (auto simp: Update_def)
  have "weight_inv w2 \<and> live w2"
  proof (cases "ci_error_code ci = 0")
    case True
    then have p: "push_sample (now - ci_begin_time_us ci) now w1 = Inr w2" using window(4) by simp
    have "window_inv (w_time_q w1)" using inv window(3) by (simp add: weight_inv_def)
    from push_sample_window_inv [OF this _ lat p] window(2)
    have "window_inv (w_time_q w2)" by simp
    moreover from p obtain q where "w2 = w1\<lparr>w_time_q := q\<rparr>" by (rule push_sample_frame)
    ultimately show ?thesis using inv window(3) by (simp add: weight_inv_def live_def)
  next
    case False
    then have "w2 = w\<lparr>w_begin_time_sum := s, w_begin_time_count := w_begin_time_count w - 1\<rparr>"
      using window(3,4) by simp
    then show ?thesis using inv by (simp add: weight_inv_def live_def)
  qed
  then show ?thesis using update_from_window_live [OF window(5)] by blast
qed (use inv in \<open>simp_all add: live_def weight_inv_def\<close>)

lemma AddInflight_live:
  assumes "AddInflight inp i dice w = Inr (w', r)" "weight_inv w" "live w"
  shows "live w' \<and> weight_inv w'"
  using assms
  by (auto simp: AddInflight_def live_not_disabled split: if_splits
      dest!: ResetWeight_frame) (auto simp: live_def weight_inv_def)

section \<open>No overflow on the way of a successful call\<close>

lemma punished_weight_defined:
  assumes "0 \<le> w_base_weight w" "0 \<le> w_avg_latency w"
    and "w_base_weight w * w_avg_latency w < 2 ^ 63" "w_avg_latency w < 2 ^ 63"
    and "0 \<le> w_begin_time_sum w" "w_begin_time_sum w < 2 ^ 63" "0 \<le> now" "now < 2 ^ 62"
  shows "\<exists>v. punished_weight now w = Inr v \<and> 0 \<le> v \<and> v \<le> w_base_weight w"
proof (cases "w_begin_time_count w > 0")
  case False
  then show ?thesis using assms by (simp add: punished_weight_def)
next
  case True
  let ?mean = "w_begin_time_sum w div w_begin_time_count w"
  let ?delay = "now - ?mean" and ?base = "w_base_weight w" and ?avg = "w_avg_latency w"
  have mean: "0 \<le> ?mean" "?mean \<le> w_begin_time_sum w"
    using assms(5) True zdiv_mono2 [of "w_begin_time_sum w" 1 "w_begin_time_count w"]
    by (simp_all add: pos_imp_zdiv_nonneg_iff)
  have e: "w_begin_time_sum w sdiv w_begin_time_count w = ?mean"
    using assms(5) True by (simp add: sdiv_nonneg)
  have d: "in64 ?delay" and a: "in64 ?avg" using mean assms by (auto simp: in64_def)
  have p: "in64 (?base * ?avg)"
    using assms(3) mult_nonneg_nonneg [OF assms(1,2)] unfolding in64_def by linarith
  show ?thesis
  proof (cases "?avg \<le> ?delay \<and> 0 < ?avg")
    case True
    then have pos: "0 < ?delay" by linarith
    have "?base * ?avg \<le> ?base * ?delay" using True assms(1) by (simp add: mult_left_mono)
    then have "?base * ?avg div ?delay \<le> ?base * ?delay div ?delay"
      using pos by (rule zdiv_mono1)
    then have "?base * ?avg div ?delay \<le> ?base" using pos by simp
    then show ?thesis
      using True pos d a p e assms(1,2) \<open>w_begin_time_count w > 0\<close>
      by (simp add: punished_weight_def chk64_in sdiv_nonneg pos_imp_zdiv_nonneg_iff)
  next
    case False
    then show ?thesis
      using d a e assms(1) \<open>w_begin_time_count w > 0\<close>
      by (auto simp: punished_weight_def chk64_in)
  qed
qed

text \<open>What the surroundings keep of a weight: its times are clock readings, its values small.\<close>

definition in_range :: "weight \<Rightarrow> bool" where
  "in_range w \<longleftrightarrow>
     0 \<le> w_begin_time_sum w \<and> w_begin_time_sum w < 2 ^ 63 \<and>
     0 \<le> w_weight w \<and> w_weight w < 2 ^ 62 \<and> \<bar>w_old_diff_sum w\<bar> < 2 ^ 62 \<and>
     (\<forall>t \<in> set (bq_list (w_time_q w)). 0 \<le> end_time_us t \<and> end_time_us t < 2 ^ 62)"

lemma ResetWeight_defined:
  assumes "0 \<le> w_base_weight w" "w_base_weight w < 2 ^ 62" "0 \<le> w_avg_latency w"
    and "w_base_weight w * w_avg_latency w < 2 ^ 63" "w_avg_latency w < 2 ^ 63"
    and "in_range w" "0 \<le> now" "now < 2 ^ 62"
  shows "\<exists>w' d. ResetWeight i now w = Inr (w', d) \<and>
           w_weight w' \<le> max (w_base_weight w) FLAGS_min_weight"
proof -
  obtain v where v: "punished_weight now w = Inr v" "0 \<le> v" "v \<le> w_base_weight w"
    using punished_weight_defined [of w now] assms by (auto simp: in_range_def)
  let ?v = "if v < FLAGS_min_weight then FLAGS_min_weight else v"
  have "0 \<le> ?v" "?v < 2 ^ 62" using v assms(2) by (auto simp: FLAGS_min_weight_def)
  then have "in64 (?v - w_weight w)" "in64 (w_old_diff_sum w + (?v - w_weight w))"
    using assms(6) by (auto simp: in_range_def in64_def)
  with v show ?thesis by (auto simp: ResetWeight_def Let_def chk64_in)
qed

text \<open>The comment "will not overflow" of \<open>Update\<close>: with at most 128 samples it is right.\<close>

lemma scaled_qps_bound:
  assumes "2 \<le> n" "n \<le> 128" "0 \<le> t" "t < now" "now < 2 ^ 62"
  shows "\<exists>q. scaled_qps n cap now t = Inr q \<and> WEIGHT_SCALE \<le> q \<and>
           q \<le> 127 * 1000000 * WEIGHT_SCALE \<and>
           q = (if n = cap \<or> t + 1000000 \<le> now
                then max WEIGHT_SCALE ((int n - 1) * 1000000 * WEIGHT_SCALE div (now - t))
                else WEIGHT_SCALE)"
proof -
  let ?p = "(int n - 1) * 1000000 * WEIGHT_SCALE"
  have n: "1 \<le> int n - 1" "int n - 1 \<le> 127" using assms by auto
  have "u64 (u64 (u64 (int n - 1) * 1000000) * WEIGHT_SCALE) = ?p"
    using n by (simp add: u64_id)
  moreover have p: "0 \<le> ?p" "?p \<le> 127 * 1000000 * WEIGHT_SCALE" using n by auto
  ultimately have q: "s64 (u64 (u64 (u64 (int n - 1) * 1000000) * WEIGHT_SCALE) div u64 (now - t)) =
      ?p div (now - t)"
    using assms s64_u64_div [of ?p "now - t"] by (simp add: u64_id)
  have "?p div (now - t) \<le> ?p" using p assms zdiv_mono2 [of ?p 1 "now - t"] by simp
  moreover have "in64 (t + 1000000)" "in64 (now - t)"
    using assms by (auto simp: in64_def)
  then have "scaled_qps n cap now t =
      Inr (if n = cap \<or> t + 1000000 \<le> now
           then max WEIGHT_SCALE
             (s64 (u64 (u64 (u64 (int n - 1) * 1000000) * WEIGHT_SCALE) div u64 (now - t)))
           else WEIGHT_SCALE)"
    by (auto simp: scaled_qps_def DEFAULT_QPS_def Let_def chk64_in max_def
        simp del: WEIGHT_SCALE_eq)
  ultimately show ?thesis unfolding q using p n by auto
qed

lemma base_times_average:
  fixes qps avg :: int
  assumes "0 \<le> qps" "0 < avg"
  shows "qps sdiv avg * avg \<le> qps" "0 \<le> qps sdiv avg" "qps sdiv avg \<le> qps"
proof -
  have e: "qps sdiv avg = qps div avg" using assms by (simp add: sdiv_nonneg)
  show "qps sdiv avg * avg \<le> qps"
    unfolding e using div_mult_mod_eq [of qps avg] assms by (smt (verit) pos_mod_sign)
  show "0 \<le> qps sdiv avg" unfolding e using assms by (simp add: pos_imp_zdiv_nonneg_iff)
  show "qps sdiv avg \<le> qps" unfolding e using assms zdiv_mono2 [of qps 1 avg] by simp
qed

lemma ResetWeight_rebased:
  assumes "0 \<le> qps" "qps \<le> 127 * 1000000 * WEIGHT_SCALE" "0 < avg" "avg < 2 ^ 63"
    and "in_range w" "0 \<le> now" "now < 2 ^ 62"
  shows "\<exists>w' d. ResetWeight i now (w\<lparr>w_avg_latency := avg, w_base_weight := qps sdiv avg\<rparr>) = Inr (w', d)"
proof -
  have "\<exists>w' d. ResetWeight i now (w\<lparr>w_avg_latency := avg, w_base_weight := qps sdiv avg\<rparr>) = Inr (w', d) \<and>
      w_weight w' \<le> max (qps sdiv avg) FLAGS_min_weight"
    using ResetWeight_defined [of "w\<lparr>w_avg_latency := avg, w_base_weight := qps sdiv avg\<rparr>" now i]
      base_times_average [OF assms(1,3)] assms
    by (auto simp: in_range_def)
  then show ?thesis by blast
qed

text \<open>What the window gives for the average: the mean of all its latencies but the oldest.\<close>

lemma update_from_window_avg:
  assumes inv: "window_inv (w_time_q w)" and n2: "2 \<le> length (bq_list (w_time_q w))"
    and rg: "in_range w" and now: "end_time_us (hd (bq_list (w_time_q w))) < now" "now < 2 ^ 62"
  shows "\<exists>qps. scaled_qps (length (bq_list (w_time_q w))) RECV_QUEUE_SIZE now
                 (end_time_us (hd (bq_list (w_time_q w)))) = Inr qps \<and>
      WEIGHT_SCALE \<le> qps \<and> qps \<le> 127 * 1000000 * WEIGHT_SCALE \<and>
      (let avg = (latency_sum (last (bq_list (w_time_q w))) - latency_sum (hd (bq_list (w_time_q w))))
                 div (int (length (bq_list (w_time_q w))) - 1)
       in 0 \<le> avg \<and> avg < 2 ^ 63 \<and> update_from_window now i w =
         (if avg = 0 then Inr (w\<lparr>w_avg_latency := 0\<rparr>, 0)
          else ResetWeight i now (w\<lparr>w_avg_latency := avg, w_base_weight := qps sdiv avg\<rparr>)))"
proof -
  let ?q = "w_time_q w"
  let ?n = "length (bq_list ?q)" and ?hd = "hd (bq_list ?q)" and ?la = "last (bq_list ?q)"
  let ?span = "latency_sum ?la - latency_sum ?hd"
  have q: "bq_inv ?q" "bq_cap ?q = RECV_QUEUE_SIZE" using inv by (simp_all add: window_inv_def)
  have ne: "bq_list ?q \<noteq> []" using n2 by (auto simp del: length_bq_list)
  then have hd: "0 \<le> end_time_us ?hd" using rg by (auto simp: in_range_def)
  obtain qps where qps: "scaled_qps ?n RECV_QUEUE_SIZE now (end_time_us ?hd) = Inr qps"
      "WEIGHT_SCALE \<le> qps" "qps \<le> 127 * 1000000 * WEIGHT_SCALE"
    using scaled_qps_bound [OF n2 window_length [OF inv] hd now] by blast
  have n: "0 < int ?n - 1" "int ?n - 1 < 2 ^ 63" using n2 window_length [OF inv] by simp_all
  have avg: "s64 (u64 ?span div u64 (int ?n - 1)) = ?span div (int ?n - 1)"
    using window_span [OF inv n2] n by (intro s64_u64_div) auto
  have "in64 ?span" using window_span [OF inv n2] by (simp add: in64_def)
  moreover have "u64 (int ?n - 1) \<noteq> 0" using n by (simp add: u64_id)
  ultimately have "update_from_window now i w =
      (let avg = ?span div (int ?n - 1)
       in if avg = 0 then Inr (w\<lparr>w_avg_latency := 0\<rparr>, 0)
          else ResetWeight i now (w\<lparr>w_avg_latency := avg, w_base_weight := qps sdiv avg\<rparr>))"
    using q ne now(1) qps(1) avg
    by (simp add: update_from_window_def Let_def bq_capacity_def del: length_bq_list)
  moreover have "0 \<le> ?span div (int ?n - 1)" using window_span [OF inv n2] n
    by (simp add: pos_imp_zdiv_nonneg_iff)
  moreover have "?span div (int ?n - 1) \<le> ?span"
    using window_span [OF inv n2] n zdiv_mono2 [of ?span 1 "int ?n - 1"] by simp
  ultimately show ?thesis using qps window_span [OF inv n2] by (simp add: Let_def)
qed

section \<open>The history of a weight\<close>

text \<open>
  A history is the list of all successful calls so far, each with its latency and end time;
  \<open>cumul\<close> is what the code would store of it if the queue had no bound.
\<close>

fun cumul :: "int \<Rightarrow> (int \<times> int) list \<Rightarrow> time_info list" where
  "cumul c [] = []"
| "cumul c ((l, e) # xs) = \<lparr>latency_sum = c + l, end_time_us = e\<rparr> # cumul (c + l) xs"

definition holds_history :: "weight \<Rightarrow> (int \<times> int) list \<Rightarrow> bool" where
  "holds_history w hist \<longleftrightarrow>
     bq_list (w_time_q w) = last_n RECV_QUEUE_SIZE (cumul 0 hist)"

lemma cumul_append: "cumul c (xs @ ys) = cumul c xs @ cumul (c + sum_list (map fst xs)) ys"
  by (induction c xs rule: cumul.induct) (auto simp: add.assoc)

lemma length_cumul [simp]: "length (cumul c xs) = length xs"
  by (induction c xs rule: cumul.induct) auto

lemma cumul_eq_Nil [simp]: "cumul c xs = [] \<longleftrightarrow> xs = []"
  using length_cumul [of c xs] by (metis length_0_conv)

lemma last_cumul: "xs \<noteq> [] \<Longrightarrow> latency_sum (last (cumul c xs)) = c + sum_list (map fst xs)"
  by (induction c xs rule: cumul.induct) (auto simp: last_ConsR split: if_splits)

lemma hd_cumul: "xs \<noteq> [] \<Longrightarrow> latency_sum (hd (cumul c xs)) = c + fst (hd xs)"
  and hd_cumul_end: "xs \<noteq> [] \<Longrightarrow> end_time_us (hd (cumul c xs)) = snd (hd xs)"
  by (cases xs; force)+

lemma last_n_cumul:
  "last_n n (cumul c xs) = cumul (c + sum_list (map fst (take (length xs - n) xs))) (last_n n xs)"
proof -
  let ?k = "length xs - n"
  have "cumul c (take ?k xs @ drop ?k xs) =
      cumul c (take ?k xs) @ cumul (c + sum_list (map fst (take ?k xs))) (drop ?k xs)"
    by (rule cumul_append)
  then have "cumul c xs =
      cumul c (take ?k xs) @ cumul (c + sum_list (map fst (take ?k xs))) (drop ?k xs)"
    by simp
  then show ?thesis by (simp add: last_n_def)
qed

lemma last_n_eq_Nil [simp]: "0 < n \<Longrightarrow> last_n n xs = [] \<longleftrightarrow> xs = []"
  by (cases xs) (auto simp: last_n_def)

lemma last_last_n [simp]: "0 < n \<Longrightarrow> xs \<noteq> [] \<Longrightarrow> last (last_n n xs) = last xs"
  by (auto simp: last_n_def last_drop)

lemma RECV_pos [simp]: "0 < RECV_QUEUE_SIZE"
  by (simp add: RECV_QUEUE_SIZE_def)

lemma holds_history_sum:
  assumes "holds_history w hist"
  shows "sample_sum w = sum_list (map fst hist)"
  using assms last_cumul [of hist 0]
  by (cases "hist = []") (auto simp: holds_history_def sample_sum_def)

lemma holds_history_push:
  assumes "window_inv (w_time_q w)" "holds_history w hist" "0 < l" "in64 (sample_sum w + l)"
  shows "\<exists>q. push_sample l now w = Inr (w\<lparr>w_time_q := q\<rparr>) \<and> window_inv q \<and>
              holds_history (w\<lparr>w_time_q := q\<rparr>) (hist @ [(l, now)]) \<and>
              bq_list q = last_n RECV_QUEUE_SIZE
                (bq_list (w_time_q w) @ [\<lparr>latency_sum = sample_sum w + l, end_time_us = now\<rparr>])"
  using push_sample_spec [OF assms(1,3,4), of now] holds_history_sum [OF assms(2)] assms(2)
  by (auto simp: holds_history_def cumul_append last_n_last_n_append)

lemma holds_history_frame:
  "w_time_q w' = w_time_q w \<Longrightarrow> holds_history w' hist = holds_history w hist"
  by (simp add: holds_history_def)

text \<open>The span of the window is the sum of its latencies but the oldest.\<close>

lemma history_span:
  assumes "holds_history w hist" "hist \<noteq> []"
  defines "win \<equiv> last_n RECV_QUEUE_SIZE hist"
  shows "latency_sum (last (bq_list (w_time_q w))) - latency_sum (hd (bq_list (w_time_q w))) =
           sum_list (map fst (tl win))"
    and "length (bq_list (w_time_q w)) = length win"
    and "end_time_us (hd (bq_list (w_time_q w))) = snd (hd win)"
proof -
  let ?c = "sum_list (map fst (take (length hist - RECV_QUEUE_SIZE) hist))"
  have l: "bq_list (w_time_q w) = cumul ?c win" and ne: "win \<noteq> []"
    using assms by (simp_all add: holds_history_def last_n_cumul)
  have "sum_list (map fst win) = fst (hd win) + sum_list (map fst (tl win))"
    using ne by (cases win) auto
  then show "latency_sum (last (bq_list (w_time_q w))) - latency_sum (hd (bq_list (w_time_q w))) =
           sum_list (map fst (tl win))"
    unfolding l using ne by (simp add: last_cumul hd_cumul)
  show "length (bq_list (w_time_q w)) = length win" unfolding l by simp
  show "end_time_us (hd (bq_list (w_time_q w))) = snd (hd win)"
    unfolding l using ne by (simp add: hd_cumul_end)
qed

text \<open>
  A successful, unskewed call whose begin time is one of those summed up in
  \<open>_begin_time_sum\<close>, as a feedback that follows its selection is.
\<close>

definition good_call :: "weight \<Rightarrow> int \<Rightarrow> call_info \<Rightarrow> bool" where
  "good_call w now ci \<longleftrightarrow>
     ci_error_code ci = 0 \<and> 0 \<le> ci_begin_time_us ci \<and> ci_begin_time_us ci < now \<and>
     now < 2 ^ 62 \<and> ci_begin_time_us ci \<le> w_begin_time_sum w \<and> in_range w"

lemma in_range_sample:
  assumes "good_call w now ci"
    and "set (bq_list q) \<subseteq> insert \<lparr>latency_sum = l, end_time_us = now\<rparr> (set (bq_list (w_time_q w)))"
  shows "in_range (w\<lparr>w_begin_time_sum := w_begin_time_sum w - ci_begin_time_us ci,
                     w_begin_time_count := c, w_time_q := q\<rparr>)"
  using assms by (fastforce simp: good_call_def in_range_def)

lemma Update_success_eq:
  assumes "weight_inv w" "live w" "holds_history w hist" "good_call w now ci"
    and fits: "in64 (sum_list (map fst hist) + (now - ci_begin_time_us ci))"
  shows "\<exists>w1. Update now ci i w = update_from_window now i w1 \<and> window_inv (w_time_q w1) \<and>
     in_range w1 \<and> holds_history w1 (hist @ [(now - ci_begin_time_us ci, now)])"
proof -
  let ?l = "now - ci_begin_time_us ci"
  let ?w = "w\<lparr>w_begin_time_sum := w_begin_time_sum w - ci_begin_time_us ci,
             w_begin_time_count := w_begin_time_count w - 1\<rparr>"
  have g: "in64 ?l" "in64 (w_begin_time_sum w - ci_begin_time_us ci)" "0 < ?l"
    using assms(4) by (auto simp: good_call_def in64_def in_range_def)
  have "sample_sum ?w = sum_list (map fst hist)"
    using holds_history_sum [OF assms(3)] by simp
  with assms(1,3) fits
  have "window_inv (w_time_q ?w)" "holds_history ?w hist" "in64 (sample_sum ?w + ?l)"
    by (simp_all add: weight_inv_def holds_history_def)
  from holds_history_push [OF this(1,2) g(3) this(3), of now]
  obtain q where q: "push_sample ?l now ?w = Inr (?w\<lparr>w_time_q := q\<rparr>)" "window_inv q"
      "holds_history (?w\<lparr>w_time_q := q\<rparr>) (hist @ [(?l, now)])"
      "bq_list q = last_n RECV_QUEUE_SIZE (bq_list (w_time_q w) @
         [\<lparr>latency_sum = sample_sum ?w + ?l, end_time_us = now\<rparr>])"
    by auto
  have "in_range (?w\<lparr>w_time_q := q\<rparr>)"
    using in_range_sample [OF assms(4), of q "sample_sum ?w + ?l"] set_last_n q(4) by fastforce
  moreover have "Update now ci i w = update_from_window now i (?w\<lparr>w_time_q := q\<rparr>)"
    using assms(4) g q(1) live_not_disabled [OF assms(2)]
    by (simp add: Update_def Let_def good_call_def)
  ultimately show ?thesis using q by auto
qed

text \<open>With two samples and an older top, the window step returns and sets the average.\<close>

lemma update_from_window_defined:
  assumes "window_inv (w_time_q w)" "2 \<le> length (bq_list (w_time_q w))" "in_range w"
    and "end_time_us (hd (bq_list (w_time_q w))) < now" "now < 2 ^ 62"
  shows "\<exists>w' d. update_from_window now i w = Inr (w', d) \<and> w_time_q w' = w_time_q w \<and>
    w_avg_latency w' = (latency_sum (last (bq_list (w_time_q w))) -
      latency_sum (hd (bq_list (w_time_q w)))) div (int (length (bq_list (w_time_q w))) - 1)"
    (is "\<exists>w' d. _ \<and> _ \<and> w_avg_latency w' = ?avg")
proof -
  from update_from_window_avg [OF assms, of i] obtain qps where
    qps: "WEIGHT_SCALE \<le> qps" "qps \<le> 127 * 1000000 * WEIGHT_SCALE" and
    avg: "0 \<le> ?avg" "?avg < 2 ^ 63" "update_from_window now i w =
         (if ?avg = 0 then Inr (w\<lparr>w_avg_latency := 0\<rparr>, 0)
          else ResetWeight i now (w\<lparr>w_avg_latency := ?avg, w_base_weight := qps sdiv ?avg\<rparr>))"
    unfolding Let_def by blast
  show ?thesis
  proof (cases "?avg = 0")
    case True
    with avg(3) have "update_from_window now i w = Inr (w\<lparr>w_avg_latency := 0\<rparr>, 0)"
      by simp
    then show ?thesis unfolding True by simp
  next
    case False
    have "hd (bq_list (w_time_q w)) \<in> set (bq_list (w_time_q w))"
      using assms(2) by (intro hd_in_set) (auto simp del: length_bq_list)
    then have now: "0 \<le> now" using assms(3,4) by (fastforce simp: in_range_def)
    from False avg(1) have pos: "0 < ?avg" by simp
    have "0 \<le> qps" using qps(1) by simp
    from ResetWeight_rebased [OF this qps(2) pos avg(2) assms(3) now assms(5), of i]
    obtain w' d where r: "ResetWeight i now
        (w\<lparr>w_avg_latency := ?avg, w_base_weight := qps sdiv ?avg\<rparr>) = Inr (w', d)" by blast
    then have "update_from_window now i w = Inr (w', d)"
      using False avg(3) by simp
    with ResetWeight_frame [OF r] show ?thesis by auto
  qed
qed

section \<open>Properties\<close>

text \<open>
  C19: whatever a successful operation of a weight does, the difference it reports is exactly
  the change of the weight, so a caller that adds the reported difference to the sums that
  contain the weight keeps them right; and it is recorded in \<open>_old_diff_sum\<close> exactly when
  the operation came in through the index that \<open>MarkOld\<close> noted.
\<close>

theorem weight_reports_its_change:
  "(ResetWeight i now w = Inr (w', d) \<or> MarkFailed i a w = Inr (w', d) \<or>
    Update now ci i w = Inr (w', d) \<or>
    (\<exists>r. AddInflight inp i dice w = Inr (w', r) \<and> weight_diff r = d)) \<Longrightarrow>
   w_weight w' = w_weight w + d \<and> w_old_weight w' = w_old_weight w \<and>
   w_old_diff_sum w' = w_old_diff_sum w + (if w_old_index w = i then d else 0)"
  by (auto dest!: ResetWeight_step MarkFailed_step Update_step AddInflight_step
      simp: weight_step_def)

lemma weight_reports_its_change_witness:
  "w_weight (fst (MarkOld 3 (new_weight 0 5000))) = 5000 \<and>
   (\<exists>w' d. ResetWeight 3 7 (fst (MarkOld 3 (new_weight 0 5000))) = Inr (w', d) \<and>
      w_weight w' = 5000 + d)"
proof -
  let ?w = "fst (MarkOld 3 (new_weight 0 5000))"
  obtain w' d where r: "ResetWeight 3 7 ?w = Inr (w', d)"
    by (auto simp: ResetWeight_def punished_weight_def MarkOld_def new_weight_def Let_def
        FLAGS_min_weight_def in64_def)
  have "w_weight ?w = 5000" by (simp add: MarkOld_def new_weight_def Let_def)
  with r weight_reports_its_change [of 3 7 ?w w' d] show ?thesis by auto
qed

text \<open>The operations that a balancer applies to a weight that it has not disabled.\<close>

datatype weight_op =
    OpUpdate int call_info nat
  | OpAddInflight select_in nat int
  | OpResetWeight nat int
  | OpMarkFailed nat int

fun weight_run :: "weight_op \<Rightarrow> weight \<Rightarrow> weight res" where
  "weight_run (OpUpdate now ci i) w = ubind (Update now ci i w) (\<lambda>(w, _). Inr w)"
| "weight_run (OpAddInflight inp i dice) w = ubind (AddInflight inp i dice w) (\<lambda>(w, _). Inr w)"
| "weight_run (OpResetWeight i now) w = ubind (ResetWeight i now w) (\<lambda>(w, _). Inr w)"
| "weight_run (OpMarkFailed i avg) w = ubind (MarkFailed i avg w) (\<lambda>(w, _). Inr w)"

lemma weight_run_live:
  assumes "weight_run c w = Inr w'" "live w" "weight_inv w" "\<And>i avg. c = OpMarkFailed i avg \<Longrightarrow> 0 \<le> avg"
  shows "live w' \<and> weight_inv w'"
proof (cases c)
  case (OpMarkFailed i avg)
  then have "weight_inv (w\<lparr>w_base_weight := avg\<rparr>)" "0 \<le> avg" using assms(3,4) by (simp_all add: weight_inv_def)
  then show ?thesis
    using assms(1-3) OpMarkFailed ResetWeight_live [of i 0 "w\<lparr>w_base_weight := avg\<rparr>" w']
    by (auto simp: MarkFailed_def split: if_splits elim!: ubind_InrE)
qed (use assms Update_live AddInflight_live ResetWeight_live in \<open>auto simp: live_def elim!: ubind_InrE\<close>)

lemma weight_runs_live:
  "run_res weight_run cs w = Inr w' \<Longrightarrow> live w \<Longrightarrow> weight_inv w \<Longrightarrow>
   \<forall>i avg. OpMarkFailed i avg \<in> set cs \<longrightarrow> 0 \<le> avg \<Longrightarrow> live w' \<and> weight_inv w'"
proof (induction cs arbitrary: w)
  case (Cons c cs)
  then obtain w1 where "weight_run c w = Inr w1" "run_res weight_run cs w1 = Inr w'"
    by (auto elim: ubind_InrE)
  with weight_run_live [of c w w1] Cons show ?case by auto
qed simp



text \<open>
  The feedback of a successful call with a second sample in the window sets the average
  latency to the mean of the latencies in the window without the oldest, where the window is
  the last 128 successful calls, and stores the call as the newest sample.
\<close>

theorem Update_average_latency:
  assumes "weight_inv w" "live w" "holds_history w hist" "hist \<noteq> []" "good_call w now ci"
    and "in64 (sum_list (map fst hist) + (now - ci_begin_time_us ci))"
  defines "hist' \<equiv> hist @ [(now - ci_begin_time_us ci, now)]"
  defines "win \<equiv> last_n RECV_QUEUE_SIZE hist'"
  assumes "snd (hd win) < now"
  shows "\<exists>w' d. Update now ci i w = Inr (w', d) \<and> holds_history w' hist' \<and>
           w_avg_latency w' = sum_list (map fst (tl win)) div (int (length win) - 1)"
proof -
  obtain w1 where u: "Update now ci i w = update_from_window now i w1"
    and w1: "window_inv (w_time_q w1)" "in_range w1" "holds_history w1 hist'"
    using Update_success_eq [OF assms(1-3,5,6)] unfolding hist'_def by blast
  have n2: "2 \<le> length win"
    using assms(4) by (cases hist) (auto simp: win_def hist'_def last_n_def RECV_QUEUE_SIZE_def)
  have "hist' \<noteq> []" by (simp add: hist'_def)
  note span = history_span [OF w1(3) this, folded win_def]
  have "2 \<le> length (bq_list (w_time_q w1))" "end_time_us (hd (bq_list (w_time_q w1))) < now"
    unfolding span using n2 assms(9) by simp_all
  from update_from_window_defined [OF w1(1) this(1) w1(2) this(2)] assms(5)
  obtain w' d where r: "update_from_window now i w1 = Inr (w', d)" "w_time_q w' = w_time_q w1"
      "w_avg_latency w' = sum_list (map fst (tl win)) div (int (length win) - 1)"
    unfolding span good_call_def by blast
  then have "holds_history w' hist'" using w1(3) by (simp add: holds_history_def)
  moreover have "Update now ci i w = Inr (w', d)" using u r(1) by simp
  ultimately show ?thesis using r(3) by blast
qed

lemma update_from_window_single:
  assumes "window_inv (w_time_q w)" "length (bq_list (w_time_q w)) = 1" "in_range w"
    and "now \<le> end_time_us (hd (bq_list (w_time_q w)))" "0 \<le> now" "now < 2 ^ 62"
  shows "\<exists>w' d. update_from_window now i w = Inr (w', d) \<and> w_time_q w' = w_time_q w"
proof -
  obtain t where t: "bq_list (w_time_q w) = [t]"
    using assms(2) by (cases "bq_list (w_time_q w)") auto
  then have l: "0 < latency_sum t" "latency_sum t < 2 ^ 63" "bq_inv (w_time_q w)" "bq_count (w_time_q w) = 1"
    using assms(1) length_bq_list [of "w_time_q w"] by (auto simp: window_inv_def in64_def)
  from ResetWeight_rebased [of "DEFAULT_QPS * WEIGHT_SCALE", OF _ _ l(1,2) assms(3,5,6), of i]
  obtain w' d where r: "ResetWeight i now (w\<lparr>w_avg_latency := latency_sum t,
      w_base_weight := (DEFAULT_QPS * WEIGHT_SCALE) sdiv latency_sum t\<rparr>) = Inr (w', d)"
    by (auto simp: DEFAULT_QPS_def)
  then have "update_from_window now i w = Inr (w', d)"
    using t l assms(4) by (simp add: update_from_window_def Let_def)
  with ResetWeight_frame [OF r] show ?thesis by auto
qed

lemma update_from_window_unmoved:
  assumes "window_inv (w_time_q w)" "2 \<le> length (bq_list (w_time_q w))"
    and "now \<le> end_time_us (hd (bq_list (w_time_q w)))"
  shows "update_from_window now i w = Inr (w, 0)"
proof -
  have "bq_list (w_time_q w) \<noteq> []" using assms(2) by (auto simp del: length_bq_list)
  with assms show ?thesis
    by (auto simp: update_from_window_def Let_def window_inv_def)
qed


text \<open>
  C23: the feedback of a failed call (\<open>error_code\<close> not 0), whose branch stores no sample, is
  undefined behaviour on a young weight: with an empty window \<open>_time_q.top()\<close> is NULL and is
  dereferenced, and with one older sample the average is divided by \<open>n - 1 = 0\<close>.
\<close>

theorem Update_failed_call_undefined:
  assumes "window_inv (w_time_q w)" "\<not> disabled w" "ci_error_code ci \<noteq> 0"
    and "0 \<le> ci_begin_time_us ci" "ci_begin_time_us ci < now" "now < 2 ^ 62"
    and "ci_begin_time_us ci \<le> w_begin_time_sum w" "in_range w"
    and "bq_list (w_time_q w) = [] \<or> (\<exists>t. bq_list (w_time_q w) = [t] \<and> end_time_us t < now)"
  shows "Update now ci i w =
           Inl (if bq_list (w_time_q w) = [] then NullDeref else DivByZero)"
proof -
  let ?w = "w\<lparr>w_begin_time_sum := w_begin_time_sum w - ci_begin_time_us ci,
             w_begin_time_count := w_begin_time_count w - 1\<rparr>"
  have "in64 (now - ci_begin_time_us ci)" "in64 (w_begin_time_sum w - ci_begin_time_us ci)"
    using assms by (auto simp: in64_def in_range_def)
  then have u: "Update now ci i w = update_from_window now i ?w"
    using assms by (simp add: Update_def Let_def)
  have q: "bq_inv (w_time_q w)" using assms(1) by (simp add: window_inv_def)
  show ?thesis
  proof (cases "bq_list (w_time_q w) = []")
    case True
    then show ?thesis unfolding u using q by (simp add: update_from_window_def)
  next
    case False
    then obtain t where t: "bq_list (w_time_q w) = [t]" "end_time_us t < now"
      using assms(9) by blast
    then have n: "bq_count (w_time_q w) = 1" using length_bq_list [of "w_time_q w"] by simp
    have "0 \<le> end_time_us t" using assms(8) t(1) by (simp add: in_range_def)
    then have "in64 (end_time_us t + 1000000)" "in64 (now - end_time_us t)"
      using t(2) assms(6) by (auto simp: in64_def)
    then obtain qps where "scaled_qps 1 (bq_capacity (w_time_q w)) now (end_time_us t) = Inr qps"
      using scaled_qps_defined by blast
    moreover have "in64 0" by (simp add: in64_def)
    ultimately show ?thesis
      unfolding u using q n t by (simp add: update_from_window_def Let_def u64_def)
  qed
qed

text \<open>Concrete weights for the witnesses: one call in flight, and one call in the history.\<close>

definition busy_weight :: "int \<Rightarrow> weight" where
  "busy_weight b = (new_weight 0 5000)\<lparr>w_begin_time_sum := b, w_begin_time_count := 1\<rparr>"

lemma busy_weight_facts:
  "weight_inv (busy_weight b)" "live (busy_weight b)" "holds_history (busy_weight b) []"
  "window_inv (w_time_q (busy_weight b))" "bq_list (w_time_q (busy_weight b)) = []"
  "w_begin_time_sum (busy_weight b) = b" "sample_sum (busy_weight b) = 0"
  "0 \<le> b \<Longrightarrow> b < 2 ^ 63 \<Longrightarrow> in_range (busy_weight b)"
  using new_weight_inv [of 0 5000]
  by (simp_all add: busy_weight_def new_weight_def weight_inv_def live_def holds_history_def
      FLAGS_min_weight_def in_range_def sample_sum_def last_n_def)

definition call_at :: "int \<Rightarrow> int \<Rightarrow> call_info" where
  "call_at b e = \<lparr>ci_begin_time_us = b, ci_node = ''n'', ci_error_code = e\<rparr>"

lemma weight_with_history:
  "\<exists>w. weight_inv w \<and> live w \<and> holds_history w [(10, 20)] \<and> w_begin_time_sum w = 30 \<and> in_range w"
proof -
  let ?w = "busy_weight 30"
  have "in64 (sample_sum ?w + 10)" by (simp add: busy_weight_facts in64_def)
  from holds_history_push [OF busy_weight_facts(4,3) _ this, of 20] obtain q where
    q: "window_inv q" "holds_history (?w\<lparr>w_time_q := q\<rparr>) [(10, 20)]" by auto
  have "bq_list q = [\<lparr>latency_sum = 10, end_time_us = 20\<rparr>]"
    using q(2) by (simp add: holds_history_def RECV_QUEUE_SIZE_def)
  then have "in_range (?w\<lparr>w_time_q := q\<rparr>)"
    using busy_weight_facts(8) [of 30] by (simp add: in_range_def)
  moreover have "weight_inv (?w\<lparr>w_time_q := q\<rparr>)" "live (?w\<lparr>w_time_q := q\<rparr>)"
    using busy_weight_facts(1,2) [of 30] q(1) by (simp_all add: weight_inv_def live_def)
  moreover have "w_begin_time_sum (?w\<lparr>w_time_q := q\<rparr>) = 30" by (simp add: busy_weight_facts)
  ultimately show ?thesis using q(2) by blast
qed

lemma Update_average_latency_witness:
  "\<exists>w w' d. holds_history w [(10, 20)] \<and> Update 50 (call_at 30 0) 0 w = Inr (w', d) \<and>
     w_avg_latency w' = 20"
proof -
  obtain w where w: "weight_inv w" "live w" "holds_history w [(10, 20)]"
      "w_begin_time_sum w = 30" "in_range w"
    using weight_with_history by blast
  have g: "good_call w 50 (call_at 30 0)" using w by (simp add: good_call_def call_at_def)
  have f: "in64 (sum_list (map fst [(10::int, 20::int)]) + (50 - ci_begin_time_us (call_at 30 0)))"
    by (simp add: call_at_def in64_def)
  have "snd (hd (last_n RECV_QUEUE_SIZE
      ([(10::int, 20::int)] @ [(50 - ci_begin_time_us (call_at 30 0), 50)]))) < 50"
    by (simp add: RECV_QUEUE_SIZE_def)
  from Update_average_latency [OF w(1-3) _ g f this, of 0] w(3) show ?thesis
    by (auto simp: RECV_QUEUE_SIZE_def call_at_def)
qed


lemma Update_failed_call_undefined_witness:
  "Update 20 (call_at 10 2) 0 (busy_weight 10) = Inl NullDeref"
  using Update_failed_call_undefined [of "busy_weight 10" "call_at 10 2" 20 0]
    busy_weight_facts(8) [of 10] live_not_disabled [OF busy_weight_facts(2), of 10]
  by (simp add: busy_weight_facts call_at_def)

end
