(* ===== verification/WeightTree.thy ===== *)
theory WeightTree
  imports WeightNode
begin

text \<open>
  The weight tree, class \<open>Servers\<close> of \<open>include/rpc_proto/locality_aware_load_balancer.h\<close>: a
  complete binary tree laid out in a vector, where the children of node \<open>i\<close> are
  \<open>2 * i + 1\<close> and \<open>2 * i + 2\<close>. A node has a server name and two shared pointers, to the sum
  of the weights in its left subtree and to its own weight. Copies of a node in the two
  buffers share both, so they are addresses into the stores \<open>wheap\<close> and \<open>lheap\<close>.

  \<open>insub j i\<close> says that node \<open>i\<close> lies in the subtree rooted at \<open>j\<close>, found by climbing from
  \<open>i\<close> as \<open>UpdateParentWeight\<close> climbs; \<open>subsum w n j\<close> is the weight of that subtree.
\<close>

section \<open>Data and the climbing loop\<close>

record server_info =
  sv_name :: server_name
  sv_left :: nat               \<comment> \<open>address of the left sum\<close>
  sv_weight :: nat             \<comment> \<open>address of the weight\<close>

record servers =
  weight_tree :: "server_info list"
  server_map :: "server_name \<rightharpoonup> nat"

record shared =
  wheap :: "nat \<Rightarrow> weight"
  lheap :: "nat \<Rightarrow> int"
  next_ptr :: nat
  total_weight :: int

definition empty_servers :: servers where
  "empty_servers = \<lparr>weight_tree = [], server_map = Map.empty\<rparr>"

definition parent_index :: "nat \<Rightarrow> nat" where
  "parent_index index = (index - 1) div 2"

function UpdateParentWeight ::
  "server_info list \<Rightarrow> int \<Rightarrow> nat \<Rightarrow> (nat \<Rightarrow> int) \<Rightarrow> (nat \<Rightarrow> int) res" where
  "UpdateParentWeight tree diff index lh =
     (if index \<noteq> 0 then
        let p = parent_index index in
        if 2 * p + 1 = index then
          if p < length tree
          then let a = sv_left (tree ! p)
               in UpdateParentWeight tree diff p (lh(a := s64 (lh a + diff)))
          else Inl OutOfBounds
        else UpdateParentWeight tree diff p lh
      else Inr lh)"
  by pat_completeness auto
termination
  by (relation "measure (\<lambda>(tree, diff, index, lh). index)") (auto simp: parent_index_def)

declare UpdateParentWeight.simps [simp del]

text \<open>The sum in which every caller includes the difference.\<close>

definition fetch_add :: "int \<Rightarrow> int \<Rightarrow> int" where
  "fetch_add x d = s64 (x + d)"

definition add_diff :: "server_info list \<Rightarrow> int \<Rightarrow> nat \<Rightarrow> shared \<Rightarrow> shared res" where
  "add_diff tree diff index sh =
     (if diff \<noteq> 0
      then ubind (UpdateParentWeight tree diff index (lheap sh)) (\<lambda>lh.
             Inr (sh\<lparr>lheap := lh, total_weight := fetch_add (total_weight sh) diff\<rparr>))
      else Inr sh)"

section \<open>Subtrees\<close>

fun insub :: "nat \<Rightarrow> nat \<Rightarrow> bool" where
  "insub j i = (if i = j then True else if i = 0 then False else insub j ((i - 1) div 2))"

declare insub.simps [simp del]

lemma insub_eq: "insub j i \<longleftrightarrow> i = j \<or> 0 < i \<and> insub j (parent_index i)"
  by (subst insub.simps) (auto simp: parent_index_def)

lemma insub_refl [simp]: "insub j j"
  by (subst insub_eq) simp

lemma parent_less: "0 < i \<Longrightarrow> parent_index i < i"
  by (auto simp: parent_index_def)

lemma insub_ge: "insub j i \<Longrightarrow> j \<le> i"
proof (induction i rule: less_induct)
  case (less i)
  with insub_eq [of j i] parent_less [of i] show ?case by fastforce
qed

lemma insub_0 [simp]: "insub 0 i"
proof (induction i rule: less_induct)
  case (less i)
  with insub_eq [of 0 i] parent_less [of i] show ?case by auto
qed

lemma insub_climb: "insub j i \<Longrightarrow> i = j \<or> insub j (parent_index i) \<and> 0 < i"
  by (subst (asm) insub_eq) auto

lemma insub_child: "0 < i \<Longrightarrow> insub j (parent_index i) \<Longrightarrow> insub j i"
  by (subst insub_eq) simp

lemma insub_trans: "insub a b \<Longrightarrow> insub b c \<Longrightarrow> insub a c"
proof (induction c rule: less_induct)
  case (less c)
  from insub_climb [OF less.prems(2)] show ?case
  proof
    assume "insub b (parent_index c) \<and> 0 < c"
    moreover from this have "parent_index c < c" by (auto simp: parent_index_def)
    ultimately show ?thesis using less by (blast intro: insub_child)
  qed (use less.prems in simp)
qed

lemma parent_left [simp]: "parent_index (2 * j + 1) = j"
  and parent_right [simp]: "parent_index (2 * j + 2) = j"
  and parent_left' [simp]: "parent_index (Suc (2 * j)) = j"
  and parent_right' [simp]: "parent_index (Suc (Suc (2 * j))) = j"
  by (simp_all add: parent_index_def)

lemma parent_cases: "0 < i \<Longrightarrow> i = 2 * parent_index i + 1 \<or> i = 2 * parent_index i + 2"
  unfolding parent_index_def by presburger

lemma insub_left: "insub j (2 * j + 1)" and insub_right: "insub j (2 * j + 2)"
  by (rule insub_child; simp)+

lemma insub_split: "insub j i \<longleftrightarrow> i = j \<or> insub (2 * j + 1) i \<or> insub (2 * j + 2) i"
proof (induction i rule: less_induct)
  case (less i)
  show ?case
  proof
    assume a: "insub j i"
    from insub_climb [OF a] show "i = j \<or> insub (2 * j + 1) i \<or> insub (2 * j + 2) i"
    proof
      assume p: "insub j (parent_index i) \<and> 0 < i"
      then have "parent_index i < i" by (auto simp: parent_index_def)
      then consider "parent_index i = j" | "insub (2 * j + 1) (parent_index i)"
        | "insub (2 * j + 2) (parent_index i)" using less p by blast
      then show ?thesis
      proof cases
        case 1
        then show ?thesis using p parent_cases [of i] insub_refl by (metis)
      qed (use p insub_child in blast)+
    qed simp
  next
    assume "i = j \<or> insub (2 * j + 1) i \<or> insub (2 * j + 2) i"
    then show "insub j i"
      using insub_trans [OF insub_left, of j i] insub_trans [OF insub_right, of j i] by auto
  qed
qed

text \<open>The ancestors of a node form a chain, so the two subtrees of a node are disjoint.\<close>

lemma insub_chain: "insub a i \<Longrightarrow> insub b i \<Longrightarrow> insub a b \<or> insub b a"
proof (induction i rule: less_induct)
  case (less i)
  from insub_climb [OF less.prems(1)] insub_climb [OF less.prems(2)] less.prems
  show ?case
  proof (elim disjE conjE)
    assume "insub a (parent_index i)" "insub b (parent_index i)" "0 < i"
    then show ?thesis using less.IH [of "parent_index i"] by (auto simp: parent_index_def)
  qed auto
qed

lemma insub_disjoint: "\<not> (insub (2 * j + 1) i \<and> insub (2 * j + 2) i)"
proof
  assume "insub (2 * j + 1) i \<and> insub (2 * j + 2) i"
  then have "insub (2 * j + 1) (2 * j + 2)"
    using insub_chain [of "2 * j + 1" i "2 * j + 2"] insub_ge [of "2 * j + 2" "2 * j + 1"] by auto
  then have "insub (2 * j + 1) (parent_index (2 * j + 2))" using insub_climb by fastforce
  then show False using insub_ge by fastforce
qed

section \<open>Weights of subtrees\<close>

definition subtree :: "nat \<Rightarrow> nat \<Rightarrow> nat set" where
  "subtree n j = {i. i < n \<and> insub j i}"

definition subsum :: "(nat \<Rightarrow> int) \<Rightarrow> nat \<Rightarrow> nat \<Rightarrow> int" where
  "subsum w n j = sum w (subtree n j)"

lemma finite_subtree [simp]: "finite (subtree n j)"
  by (simp add: subtree_def)

lemma subtree_empty: "n \<le> j \<Longrightarrow> subtree n j = {}"
  by (auto simp: subtree_def dest: insub_ge)

lemma subsum_outside [simp]: "n \<le> j \<Longrightarrow> subsum w n j = 0"
  by (simp add: subsum_def subtree_empty)

lemma subsum_root: "subsum w n 0 = (\<Sum>i < n. w i)"
  unfolding subsum_def by (rule sum.cong) (auto simp: subtree_def)

lemma subtree_split:
  "j < n \<Longrightarrow> subtree n j = insert j (subtree n (2 * j + 1) \<union> subtree n (2 * j + 2))"
  by (auto simp: subtree_def insub_split [of j])

lemma subsum_split:
  assumes "j < n"
  shows "subsum w n j = w j + subsum w n (2 * j + 1) + subsum w n (2 * j + 2)"
proof -
  have "j \<notin> subtree n (2 * j + 1) \<union> subtree n (2 * j + 2)"
    by (auto simp: subtree_def dest: insub_ge)
  moreover have "subtree n (2 * j + 1) \<inter> subtree n (2 * j + 2) = {}"
    using insub_disjoint by (auto simp: subtree_def)
  ultimately show ?thesis
    unfolding subsum_def subtree_split [OF assms] by (simp add: sum.union_disjoint)
qed

lemma subsum_nonneg: "(\<And>i. i < n \<Longrightarrow> 0 \<le> w i) \<Longrightarrow> 0 \<le> subsum w n j"
  unfolding subsum_def by (rule sum_nonneg) (auto simp: subtree_def)

lemma subsum_cong: "(\<And>i. i < n \<Longrightarrow> w i = w' i) \<Longrightarrow> subsum w n j = subsum w' n j"
  unfolding subsum_def by (rule sum.cong) (auto simp: subtree_def)

lemma subsum_upd:
  "k < n \<Longrightarrow> subsum (w(k := w k + d)) n j = subsum w n j + (if insub j k then d else 0)"
  unfolding subsum_def by (subst sum_fun_upd_add) (auto simp: subtree_def)

lemma subsum_Suc: "subsum w (Suc n) j = subsum w n j + (if insub j n then w n else 0)"
proof -
  have "subtree (Suc n) j = (if insub j n then insert n (subtree n j) else subtree n j)"
    by (auto simp: subtree_def less_Suc_eq)
  moreover have "n \<notin> subtree n j" by (simp add: subtree_def)
  ultimately show ?thesis by (simp add: subsum_def)
qed

section \<open>What climbing does to the left sums\<close>

text \<open>\<open>touched tree i\<close>: the left sums whose subtree contains position \<open>i\<close>.\<close>

definition touched :: "server_info list \<Rightarrow> nat \<Rightarrow> nat set" where
  "touched tree i = {sv_left (tree ! p) | p. p < length tree \<and> insub (2 * p + 1) i}"

definition bump :: "nat set \<Rightarrow> int \<Rightarrow> (nat \<Rightarrow> int) \<Rightarrow> nat \<Rightarrow> int" where
  "bump A d lh = (\<lambda>a. if a \<in> A then s64 (lh a + d) else lh a)"

lemma touched_0 [simp]: "touched tree 0 = {}"
  unfolding touched_def by (auto dest: insub_ge)

lemma touched_climb_left:
  assumes "index = 2 * p + 1" "p < length tree"
  shows "touched tree index = insert (sv_left (tree ! p)) (touched tree p)"
proof -
  have "insub (2 * q + 1) index \<longleftrightarrow> q = p \<or> insub (2 * q + 1) p" for q
    using insub_eq [of "2 * q + 1" index] assms(1) by auto
  then show ?thesis using assms(2) by (auto simp: touched_def)
qed

lemma touched_climb_right:
  assumes "index = 2 * p + 2"
  shows "touched tree index = touched tree p"
proof -
  have "insub (2 * q + 1) index \<longleftrightarrow> insub (2 * q + 1) p" for q
    using insub_eq [of "2 * q + 1" index] assms by (auto simp: parent_index_def) presburger
  then show ?thesis by (simp add: touched_def)
qed

lemma touched_iff:
  assumes "distinct (map sv_left tree)" "p < length tree"
  shows "sv_left (tree ! p) \<in> touched tree i \<longleftrightarrow> insub (2 * p + 1) i"
proof
  assume "sv_left (tree ! p) \<in> touched tree i"
  then obtain q where q: "q < length tree" "insub (2 * q + 1) i" "sv_left (tree ! p) = sv_left (tree ! q)"
    by (auto simp: touched_def)
  then have "p = q" using assms nth_eq_iff_index_eq [of "map sv_left tree" p q] by simp
  with q show "insub (2 * p + 1) i" by simp
qed (use assms(2) in \<open>auto simp: touched_def\<close>)

lemma bump_insert:
  "a \<notin> A \<Longrightarrow> bump A d (lh(a := s64 (lh a + d))) = bump (insert a A) d lh"
  by (rule ext) (simp add: bump_def)

lemma bump_empty [simp]: "bump {} d lh = lh"
  by (simp add: bump_def)

text \<open>
  The loop adds the difference once to each left sum above the position, as long as the
  position is below the tree or at its next free place: the position itself need not exist.
\<close>

lemma UpdateParentWeight_bump:
  assumes "distinct (map sv_left tree)" "index \<le> 2 * length tree"
  shows "UpdateParentWeight tree d index lh = Inr (bump (touched tree index) d lh)"
  using assms(2)
proof (induction index arbitrary: lh rule: less_induct)
  case (less i)
  show ?case
  proof (cases "i = 0")
    case True
    then show ?thesis by (subst UpdateParentWeight.simps) simp
  next
    case False
    define p where "p = parent_index i"
    have p: "p < i" "p \<le> 2 * length tree" "p < length tree"
      using False less.prems by (auto simp: p_def parent_index_def)
    consider "i = 2 * p + 1" | "i = 2 * p + 2" using False parent_cases [of i] p_def by auto
    then show ?thesis
    proof cases
      case 1
      then have "UpdateParentWeight tree d i lh = UpdateParentWeight tree d p
          (lh(sv_left (tree ! p) := s64 (lh (sv_left (tree ! p)) + d)))"
        using False p by (subst UpdateParentWeight.simps) (simp add: p_def Let_def)
      moreover have "sv_left (tree ! p) \<notin> touched tree p"
        using touched_iff [OF assms(1) p(3)] insub_ge [of "2 * p + 1" p] by auto
      ultimately show ?thesis
        using less.IH [OF p(1,2)] touched_climb_left [OF 1 p(3)]
        by (simp add: bump_insert del: fun_upd_apply)
    next
      case 2
      then have "UpdateParentWeight tree d i lh = UpdateParentWeight tree d p lh"
        using False p by (subst UpdateParentWeight.simps) (simp add: p_def Let_def)
      with 2 show ?thesis
        using less.IH [OF p(1,2)] touched_climb_right [OF 2] by simp
    qed
  qed
qed

lemma bump_left:
  assumes "distinct (map sv_left tree)" "p < length tree"
  shows "bump (touched tree i) d lh (sv_left (tree ! p)) =
           (if insub (2 * p + 1) i then s64 (lh (sv_left (tree ! p)) + d)
            else lh (sv_left (tree ! p)))"
  using touched_iff [OF assms] by (simp add: bump_def)

end
