(* ===== verification/DoublyBuffered.thy ===== *)
theory DoublyBuffered
  imports Prelude
begin

text \<open>
  The template \<open>DoublyBufferedData\<close> of \<open>include/container/doubly_buffered_data.h\<close>: two copies
  of a value and the index of the foreground one. \<open>Modify\<close> runs a closure on the background,
  flips the index, waits until no reader holds the old foreground, and runs the closure again.

  The first half of the theory is the sequential reading: the closures \<open>Closure1\<close>,
  \<open>Closure2\<close>, \<open>WithFg0\<close>, \<open>WithFg1\<close>, \<open>WithFg2\<close> as functions of the index of the buffer they
  are given (the code compares the address of that buffer with \<open>_data\<close>), and \<open>Modify\<close> in its
  two phases, so that a client can put the steps of readers between them. The second half is
  the lock protocol as a step relation of readers (one per \<open>threadIdx\<close>) and modifiers, with
  an invariant by rule induction: no reader holds the buffer that is being written. The steps
  are taken in a sequentially consistent order; lock-protected lookups are one step.
\<close>

section \<open>The two buffers and the closures\<close>

record 'a dbd =
  dbd_data :: "bool \<Rightarrow> 'a"          \<comment> \<open>\<open>_data[2]\<close>\<close>
  dbd_index :: bool

type_synonym ('a, 's) closure = "bool \<Rightarrow> (bool \<Rightarrow> 'a) \<Rightarrow> 's \<Rightarrow> ('a \<times> 's \<times> nat) res"

definition dbd_new :: "'a \<Rightarrow> 'a dbd" where
  "dbd_new x = \<lparr>dbd_data = (\<lambda>_. x), dbd_index = False\<rparr>"

definition UnsafeRead :: "'a dbd \<Rightarrow> 'a" where
  "UnsafeRead d = dbd_data d (dbd_index d)"

definition Closure1 :: "('a \<Rightarrow> 'b \<Rightarrow> 's \<Rightarrow> ('a \<times> 's \<times> nat) res) \<Rightarrow> 'b \<Rightarrow> ('a, 's) closure" where
  "Closure1 fn arg1 = (\<lambda>bg data s. fn (data bg) arg1 s)"

definition Closure2 ::
  "('a \<Rightarrow> 'b \<Rightarrow> 'c \<Rightarrow> 's \<Rightarrow> ('a \<times> 's \<times> nat) res) \<Rightarrow> 'b \<Rightarrow> 'c \<Rightarrow> ('a, 's) closure" where
  "Closure2 fn arg1 arg2 = (\<lambda>bg data s. fn (data bg) arg1 arg2 s)"

text \<open>
  \<open>&bg == _data\<close> holds for the buffer of index 0; as an array index, true is 1. \<open>WithFg0\<close>
  and \<open>WithFg1\<close> write \<open>!=\<close>.
\<close>

definition WithFg0 :: "('a \<Rightarrow> 'a \<Rightarrow> 's \<Rightarrow> ('a \<times> 's \<times> nat) res) \<Rightarrow> ('a, 's) closure" where
  "WithFg0 fn = (\<lambda>bg data s. fn (data bg) (data (bg \<noteq> False)) s)"

definition WithFg1 ::
  "('a \<Rightarrow> 'a \<Rightarrow> 'b \<Rightarrow> 's \<Rightarrow> ('a \<times> 's \<times> nat) res) \<Rightarrow> 'b \<Rightarrow> ('a, 's) closure" where
  "WithFg1 fn arg1 = (\<lambda>bg data s. fn (data bg) (data (bg \<noteq> False)) arg1 s)"

definition WithFg2 ::
  "('a \<Rightarrow> 'a \<Rightarrow> 'b \<Rightarrow> 'c \<Rightarrow> 's \<Rightarrow> ('a \<times> 's \<times> nat) res) \<Rightarrow> 'b \<Rightarrow> 'c \<Rightarrow> ('a, 's) closure" where
  "WithFg2 fn arg1 arg2 = (\<lambda>bg data s. fn (data bg) (data (bg = False)) arg1 arg2 s)"

section \<open>\<open>Modify\<close> in its two phases\<close>

definition Modify_first ::
  "('a, 's) closure \<Rightarrow> 'a dbd \<Rightarrow> 's \<Rightarrow> ('a dbd \<times> 's \<times> bool \<times> nat) res" where
  "Modify_first fn d s =
     (let bg_idx = (\<not> dbd_index d) in
      ubind (fn bg_idx (dbd_data d) s) (\<lambda>(x, s, ret0).
      Inr (d\<lparr>dbd_data := (dbd_data d)(bg_idx := x), dbd_index := bg_idx\<rparr>, s, bg_idx, ret0)))"

definition Modify_second ::
  "('a, 's) closure \<Rightarrow> bool \<Rightarrow> nat \<Rightarrow> 'a dbd \<Rightarrow> 's \<Rightarrow> ('a dbd \<times> 's) res" where
  "Modify_second fn bg_idx ret0 d s =
     (let bg_idx = (\<not> bg_idx) in
      ubind (fn bg_idx (dbd_data d) s) (\<lambda>(x, s, ret1).
      if ret0 = ret1 then Inr (d\<lparr>dbd_data := (dbd_data d)(bg_idx := x)\<rparr>, s)
      else Inl AssertFailed))"

text \<open>\<open>between\<close> is what the readers do to the shared state while \<open>Modify\<close> waits for them.\<close>

definition Modify_between ::
  "('a dbd \<Rightarrow> 's \<Rightarrow> 's res) \<Rightarrow> ('a, 's) closure \<Rightarrow> 'a dbd \<Rightarrow> 's \<Rightarrow> ('a dbd \<times> 's) res" where
  "Modify_between between fn d s =
     ubind (Modify_first fn d s) (\<lambda>(d, s, bg_idx, ret0).
     ubind (between d s) (\<lambda>s.
     Modify_second fn bg_idx ret0 d s))"

definition Modify :: "('a, 's) closure \<Rightarrow> 'a dbd \<Rightarrow> 's \<Rightarrow> ('a dbd \<times> 's) res" where
  "Modify fn d s = Modify_between (\<lambda>d s. Inr s) fn d s"

definition Modify1 ::
  "('a \<Rightarrow> 'b \<Rightarrow> 's \<Rightarrow> ('a \<times> 's \<times> nat) res) \<Rightarrow> 'b \<Rightarrow> 'a dbd \<Rightarrow> 's \<Rightarrow> ('a dbd \<times> 's) res" where
  "Modify1 fn arg1 = Modify (Closure1 fn arg1)"

definition Modify2 ::
  "('a \<Rightarrow> 'b \<Rightarrow> 'c \<Rightarrow> 's \<Rightarrow> ('a \<times> 's \<times> nat) res) \<Rightarrow> 'b \<Rightarrow> 'c \<Rightarrow> 'a dbd \<Rightarrow> 's \<Rightarrow>
   ('a dbd \<times> 's) res" where
  "Modify2 fn arg1 arg2 = Modify (Closure2 fn arg1 arg2)"

definition ModifyWithForeground0 ::
  "('a \<Rightarrow> 'a \<Rightarrow> 's \<Rightarrow> ('a \<times> 's \<times> nat) res) \<Rightarrow> 'a dbd \<Rightarrow> 's \<Rightarrow> ('a dbd \<times> 's) res" where
  "ModifyWithForeground0 fn = Modify (WithFg0 fn)"

definition ModifyWithForeground1 ::
  "('a \<Rightarrow> 'a \<Rightarrow> 'b \<Rightarrow> 's \<Rightarrow> ('a \<times> 's \<times> nat) res) \<Rightarrow> 'b \<Rightarrow> 'a dbd \<Rightarrow> 's \<Rightarrow>
   ('a dbd \<times> 's) res" where
  "ModifyWithForeground1 fn arg1 = Modify (WithFg1 fn arg1)"

definition ModifyWithForeground2 ::
  "('a \<Rightarrow> 'a \<Rightarrow> 'b \<Rightarrow> 'c \<Rightarrow> 's \<Rightarrow> ('a \<times> 's \<times> nat) res) \<Rightarrow> 'b \<Rightarrow> 'c \<Rightarrow> 'a dbd \<Rightarrow> 's \<Rightarrow>
   ('a dbd \<times> 's) res" where
  "ModifyWithForeground2 fn arg1 arg2 = Modify (WithFg2 fn arg1 arg2)"

text \<open>
  What a pair of phases does, for a client: the first runs on the background \<open>y\<close>, the second
  on the old foreground \<open>x\<close>.
\<close>

lemma Modify_between_eq:
  assumes "fn (\<not> b) dat s = Inr (y', s1, r)"
    and "between \<lparr>dbd_data = dat(\<not> b := y'), dbd_index = \<not> b\<rparr> s1 = Inr s2"
    and "fn b (dat(\<not> b := y')) s2 = Inr (x', s3, r)"
  shows "Modify_between between fn \<lparr>dbd_data = dat, dbd_index = b\<rparr> s =
    Inr (\<lparr>dbd_data = (dat(\<not> b := y'))(b := x'), dbd_index = \<not> b\<rparr>, s3)"
  using assms by (simp add: Modify_between_def Modify_first_def Modify_second_def Let_def)

definition both :: "'a \<Rightarrow> 'a dbd \<Rightarrow> bool" where
  "both x d \<longleftrightarrow> (\<forall>b. dbd_data d b = x)"

lemma both_new [simp]: "both x (dbd_new x)"
  by (simp add: both_def dbd_new_def)

lemma both_read: "both x d \<Longrightarrow> UnsafeRead d = x"
  by (simp add: both_def UnsafeRead_def)

lemma both_upd [simp]:
  "both x (d\<lparr>dbd_data := (f(\<not> b := x))(b := x), dbd_index := i\<rparr>)"
  "both x \<lparr>dbd_data = (f(\<not> b := x))(b := x), dbd_index = i\<rparr>"
  by (cases b; auto simp: both_def)+

section \<open>The lock protocol\<close>

text \<open>Where a reading thread is in \<open>GetDataPtr\<close> and in the life of its \<open>ScopePtr\<close>.\<close>

datatype reader =
    R_Idle
  | R_Lookup                  \<comment> \<open>in \<open>create_or_get_wrapper\<close>\<close>
  | R_HasWrapper              \<comment> \<open>about to \<open>StartRead\<close>\<close>
  | R_Locked                  \<comment> \<open>holds its wrapper, about to load \<open>_index\<close>\<close>
  | R_Reading bool            \<comment> \<open>holds a pointer to this buffer\<close>
  | R_Again bool              \<comment> \<open>as before, and in \<open>StartRead\<close> of a second \<open>GetDataPtr\<close>\<close>

datatype 'a modifier =
    M_Idle
  | M_First "'a \<Rightarrow> 'a"        \<comment> \<open>holds \<open>_modify_mutex\<close>, writes the background\<close>
  | M_Written "'a \<Rightarrow> 'a"      \<comment> \<open>about to store \<open>_index\<close>\<close>
  | M_Stored "'a \<Rightarrow> 'a"       \<comment> \<open>about to lock \<open>_wrappers_mutex\<close>\<close>
  | M_Wait "'a \<Rightarrow> 'a" "nat list"  \<comment> \<open>the wrappers still to wait for\<close>
  | M_Second "'a \<Rightarrow> 'a"       \<comment> \<open>writes the old foreground\<close>

record 'a dst =
  db_data :: "bool \<Rightarrow> 'a"
  db_index :: bool
  db_wrappers :: "nat list"          \<comment> \<open>keys of \<open>_wrappers_map\<close>, in order\<close>
  db_locked :: "nat \<Rightarrow> bool"         \<comment> \<open>the mutex of the wrapper of a thread\<close>
  db_wmutex :: "nat option"          \<comment> \<open>the modifier that holds \<open>_wrappers_mutex\<close>\<close>
  db_mmutex :: "nat option"          \<comment> \<open>the modifier that holds \<open>_modify_mutex\<close>\<close>
  db_reader :: "nat \<Rightarrow> reader"
  db_modifier :: "nat \<Rightarrow> 'a modifier"

definition db_init :: "'a \<Rightarrow> 'a dst" where
  "db_init x = \<lparr>db_data = (\<lambda>_. x), db_index = False, db_wrappers = [], db_locked = (\<lambda>_. False),
     db_wmutex = None, db_mmutex = None, db_reader = (\<lambda>_. R_Idle),
     db_modifier = (\<lambda>_. M_Idle)\<rparr>"

definition create_or_get_wrapper :: "nat \<Rightarrow> nat list \<Rightarrow> nat list" where
  "create_or_get_wrapper idx ws = (if idx \<in> set ws then ws else insort idx ws)"

text \<open>\<open>RemoveWrapper\<close>, which nothing calls: the first entry with the wrapper goes.\<close>

definition RemoveWrapper :: "nat \<Rightarrow> nat list \<Rightarrow> nat list" where
  "RemoveWrapper wrapper ws = remove1 wrapper ws"

lemma RemoveWrapper_undoes:
  "t \<notin> set ws \<Longrightarrow> RemoveWrapper t (create_or_get_wrapper t ws) = ws"
  by (induction ws) (auto simp: RemoveWrapper_def create_or_get_wrapper_def)

definition set_reader :: "nat \<Rightarrow> reader \<Rightarrow> 'a dst \<Rightarrow> 'a dst" where
  "set_reader t r s = s\<lparr>db_reader := (db_reader s)(t := r)\<rparr>"

definition set_modifier :: "nat \<Rightarrow> 'a modifier \<Rightarrow> 'a dst \<Rightarrow> 'a dst" where
  "set_modifier w m s = s\<lparr>db_modifier := (db_modifier s)(w := m)\<rparr>"

definition write_bg :: "('a \<Rightarrow> 'a) \<Rightarrow> 'a dst \<Rightarrow> 'a dst" where
  "write_bg f s = s\<lparr>db_data := (db_data s)(\<not> db_index s := f (db_data s (\<not> db_index s)))\<rparr>"

text \<open>\<open>Wrapper\<close>: \<open>StartRead\<close> when the mutex is free, and \<open>EndRead\<close>.\<close>

definition StartRead :: "nat \<Rightarrow> 'a dst \<Rightarrow> 'a dst" where
  [simp]: "StartRead t s = s\<lparr>db_locked := (db_locked s)(t := True)\<rparr>"

definition EndRead :: "nat \<Rightarrow> 'a dst \<Rightarrow> 'a dst" where
  [simp]: "EndRead t s = s\<lparr>db_locked := (db_locked s)(t := False)\<rparr>"

inductive db_step :: "'a dst \<Rightarrow> 'a dst \<Rightarrow> bool" where
  read_call: "db_reader s t = R_Idle \<Longrightarrow> db_step s (set_reader t R_Lookup s)"
| read_wrapper: "\<lbrakk>db_reader s t = R_Lookup; db_wmutex s = None\<rbrakk> \<Longrightarrow>
    db_step s (set_reader t R_HasWrapper
      (s\<lparr>db_wrappers := create_or_get_wrapper t (db_wrappers s)\<rparr>))"
| read_lock: "\<lbrakk>db_reader s t = R_HasWrapper; \<not> db_locked s t\<rbrakk> \<Longrightarrow>
    db_step s (set_reader t R_Locked (StartRead t s))"
| read_load: "db_reader s t = R_Locked \<Longrightarrow> db_step s (set_reader t (R_Reading (db_index s)) s)"
| read_end: "db_reader s t = R_Reading b \<Longrightarrow>
    db_step s (set_reader t R_Idle (EndRead t s))"
| read_again: "db_reader s t = R_Reading b \<Longrightarrow> db_step s (set_reader t (R_Again b) s)"
| read_again_lock: "\<lbrakk>db_reader s t = R_Again b; \<not> db_locked s t\<rbrakk> \<Longrightarrow>
    db_step s (set_reader t R_Locked (StartRead t s))"
| mod_lock: "\<lbrakk>db_modifier s w = M_Idle; db_mmutex s = None\<rbrakk> \<Longrightarrow>
    db_step s (set_modifier w (M_First f) (s\<lparr>db_mmutex := Some w\<rparr>))"
| mod_first: "db_modifier s w = M_First f \<Longrightarrow>
    db_step s (set_modifier w (M_Written f) (write_bg f s))"
| mod_store: "db_modifier s w = M_Written f \<Longrightarrow>
    db_step s (set_modifier w (M_Stored f) (s\<lparr>db_index := \<not> db_index s\<rparr>))"
| mod_wlock: "\<lbrakk>db_modifier s w = M_Stored f; db_wmutex s = None\<rbrakk> \<Longrightarrow>
    db_step s (set_modifier w (M_Wait f (db_wrappers s)) (s\<lparr>db_wmutex := Some w\<rparr>))"
| mod_wait: "\<lbrakk>db_modifier s w = M_Wait f (t # ts); \<not> db_locked s t\<rbrakk> \<Longrightarrow>
    db_step s (set_modifier w (M_Wait f ts) s)"
| mod_wdone: "db_modifier s w = M_Wait f [] \<Longrightarrow>
    db_step s (set_modifier w (M_Second f) (s\<lparr>db_wmutex := None\<rparr>))"
| mod_second: "db_modifier s w = M_Second f \<Longrightarrow>
    db_step s (set_modifier w M_Idle ((write_bg f s)\<lparr>db_mmutex := None\<rparr>))"

inductive db_reach :: "'a \<Rightarrow> 'a dst \<Rightarrow> bool" for x where
  reach_init: "db_reach x (db_init x)"
| reach_step: "db_reach x s \<Longrightarrow> db_step s s' \<Longrightarrow> db_reach x s'"

inductive_cases db_stepE: "db_step s s'"

section \<open>The invariant\<close>

fun holds_lock :: "reader \<Rightarrow> bool" where
  "holds_lock R_Locked = True"
| "holds_lock (R_Reading _) = True"
| "holds_lock (R_Again _) = True"
| "holds_lock _ = False"

fun reads :: "bool \<Rightarrow> reader \<Rightarrow> bool" where
  "reads b (R_Reading c) = (b = c)"
| "reads b (R_Again c) = (b = c)"
| "reads _ _ = False"

fun waits_for :: "nat \<Rightarrow> 'a modifier \<Rightarrow> bool" where
  "waits_for t (M_Stored f) = True"
| "waits_for t (M_Wait f ts) = (t \<in> set ts)"
| "waits_for t _ = False"

fun is_wait :: "'a modifier \<Rightarrow> bool" where
  "is_wait (M_Wait f ts) = True"
| "is_wait _ = False"

text \<open>How the two buffers differ, by the phase of the modifier.\<close>

fun buffers_ok :: "'a modifier \<Rightarrow> 'a \<Rightarrow> 'a \<Rightarrow> bool" where
  "buffers_ok M_Idle fg bg = (bg = fg)"
| "buffers_ok (M_First f) fg bg = (bg = fg)"
| "buffers_ok (M_Written f) fg bg = (bg = f fg)"
| "buffers_ok (M_Stored f) fg bg = (fg = f bg)"
| "buffers_ok (M_Wait f ts) fg bg = (fg = f bg)"
| "buffers_ok (M_Second f) fg bg = (fg = f bg)"

text \<open>
  \<open>phase w m s\<close>: modifier \<open>w\<close> is the only one at work (or nobody is, \<open>m = M_Idle\<close>), it holds
  the mutexes its place calls for, it still waits for every reader of the background, and the
  buffers differ as its place says.
\<close>

definition readers_ok :: "'a dst \<Rightarrow> bool" where
  "readers_ok s \<longleftrightarrow>
     (\<forall>t. db_locked s t = holds_lock (db_reader s t)) \<and>
     (\<forall>t. db_reader s t \<noteq> R_Idle \<and> db_reader s t \<noteq> R_Lookup \<longrightarrow> t \<in> set (db_wrappers s))"

definition phase :: "nat \<Rightarrow> 'a modifier \<Rightarrow> 'a dst \<Rightarrow> bool" where
  "phase w m s \<longleftrightarrow>
     db_modifier s = (\<lambda>_. M_Idle)(w := m) \<and>
     db_mmutex s = (if m = M_Idle then None else Some w) \<and>
     db_wmutex s = (if is_wait m then Some w else None) \<and>
     (\<forall>t. reads (\<not> db_index s) (db_reader s t) \<longrightarrow> waits_for t m) \<and>
     buffers_ok m (db_data s (db_index s)) (db_data s (\<not> db_index s))"

definition db_inv :: "'a dst \<Rightarrow> bool" where
  "db_inv s \<longleftrightarrow> readers_ok s \<and> (\<exists>w m. phase w m s)"

lemma phase_modifier:
  assumes "phase w m s" "db_modifier s v \<noteq> M_Idle"
  shows "v = w \<and> m = db_modifier s v"
  using assms by (auto simp: phase_def split: if_splits)

lemma db_inv_modifier:
  assumes "db_inv s" "db_modifier s w = m" "m \<noteq> M_Idle"
  shows "readers_ok s" "phase w m s"
proof -
  from assms(1) obtain v m' where "readers_ok s" "phase v m' s" by (auto simp: db_inv_def)
  moreover from this(2) have "w = v \<and> m' = m" using phase_modifier [of v m' s w] assms by simp
  ultimately show "readers_ok s" "phase w m s" by auto
qed

lemma db_inv_init: "db_inv (db_init x)"
proof -
  have "phase 0 M_Idle (db_init x)" by (auto simp: phase_def db_init_def fun_eq_iff)
  then show ?thesis unfolding db_inv_def by (auto simp: readers_ok_def db_init_def)
qed

lemmas db_defs = set_reader_def set_modifier_def write_bg_def create_or_get_wrapper_def

lemma holds_lock_reads: "reads b r \<Longrightarrow> holds_lock r"
  by (cases r) auto

text \<open>A step of a reader.\<close>

lemma phase_reader:
  assumes "phase w m s" and "\<And>b. reads b r \<Longrightarrow> b = db_index s \<or> reads b (db_reader s t)"
  shows "phase w m (set_reader t r (s\<lparr>db_wrappers := ws, db_locked := lk\<rparr>))"
  using assms by (auto simp: phase_def set_reader_def)

lemma readers_ok_reader:
  assumes "readers_ok s" "lk = (db_locked s)(t := holds_lock r)"
    and "r \<noteq> R_Idle \<and> r \<noteq> R_Lookup \<Longrightarrow> t \<in> set ws" "set (db_wrappers s) \<subseteq> set ws"
  shows "readers_ok (set_reader t r (s\<lparr>db_wrappers := ws, db_locked := lk\<rparr>))"
  using assms by (auto simp: readers_ok_def set_reader_def)

lemma db_inv_reader:
  assumes "db_inv s" "lk = (db_locked s)(t := holds_lock r)"
    and "r \<noteq> R_Idle \<and> r \<noteq> R_Lookup \<Longrightarrow> t \<in> set ws" "set (db_wrappers s) \<subseteq> set ws"
    and "\<And>b. reads b r \<Longrightarrow> b = db_index s \<or> reads b (db_reader s t)"
  shows "db_inv (set_reader t r (s\<lparr>db_wrappers := ws, db_locked := lk\<rparr>))"
  using assms(1) readers_ok_reader [OF _ assms(2-4)] phase_reader [OF _ assms(5)]
  unfolding db_inv_def by blast

lemma db_inv_reader':
  assumes "db_inv s" "db_locked s t = holds_lock r"
    and "r \<noteq> R_Idle \<and> r \<noteq> R_Lookup \<Longrightarrow> t \<in> set (db_wrappers s)"
    and "\<And>b. reads b r \<Longrightarrow> b = db_index s \<or> reads b (db_reader s t)"
  shows "db_inv (set_reader t r s)"
proof -
  have "db_locked s = (db_locked s)(t := holds_lock r)" by (rule ext) (simp add: assms(2))
  from db_inv_reader [OF assms(1) this assms(3) _ assms(4)] show ?thesis by simp
qed

lemma readers_ok_cong:
  assumes "readers_ok s" "db_locked s' = db_locked s" "db_reader s' = db_reader s"
    "db_wrappers s' = db_wrappers s"
  shows "readers_ok s'"
  using assms by (simp add: readers_ok_def)

lemma db_inv_reader_facts:
  assumes "db_inv s"
  shows "db_locked s t = holds_lock (db_reader s t)"
    and "db_reader s t \<noteq> R_Idle \<Longrightarrow> db_reader s t \<noteq> R_Lookup \<Longrightarrow> t \<in> set (db_wrappers s)"
  using assms by (auto simp: db_inv_def readers_ok_def)

text \<open>A step of the modifier at work.\<close>

lemma db_inv_phase: "readers_ok s \<Longrightarrow> phase w m s \<Longrightarrow> db_inv s"
  by (auto simp: db_inv_def)

lemma db_inv_mod:
  assumes "db_modifier s w = m" "m \<noteq> M_Idle" "db_inv s"
    and "\<And>s1. phase w m s \<Longrightarrow> readers_ok s \<Longrightarrow> phase w m' s'"
    and "db_locked s' = db_locked s" "db_reader s' = db_reader s" "db_wrappers s' = db_wrappers s"
  shows "db_inv s'"
  using db_inv_modifier [OF assms(3,1,2)] assms(4-7) readers_ok_cong db_inv_phase by metis

lemma db_inv_step:
  assumes "db_inv s" "db_step s s'"
  shows "db_inv s'"
  using assms(2)
proof cases
  case (read_call t)
  then show ?thesis using assms(1) db_inv_reader_facts [OF assms(1), of t]
    by (auto intro!: db_inv_reader')
next
  case (read_wrapper t)
  have "db_locked s = (db_locked s)(t := holds_lock R_HasWrapper)"
    using db_inv_reader_facts [OF assms(1), of t] read_wrapper by (auto simp: fun_eq_iff)
  from db_inv_reader [OF assms(1) this, of "create_or_get_wrapper t (db_wrappers s)"] read_wrapper
  show ?thesis by (simp add: create_or_get_wrapper_def set_insort_key subset_insertI)
next
  case (read_lock t)
  then show ?thesis using db_inv_reader_facts [OF assms(1), of t]
      db_inv_reader [OF assms(1), of "(db_locked s)(t := True)" t R_Locked "db_wrappers s"] by simp
next
  case (read_load t)
  then show ?thesis using assms(1) db_inv_reader_facts [OF assms(1), of t]
    by (auto intro!: db_inv_reader')
next
  case (read_end t b)
  then show ?thesis using db_inv_reader_facts [OF assms(1), of t]
      db_inv_reader [OF assms(1), of "(db_locked s)(t := False)" t R_Idle "db_wrappers s"] by simp
next
  case (read_again t b)
  then show ?thesis using assms(1) db_inv_reader_facts [OF assms(1), of t]
    by (auto intro!: db_inv_reader')
next
  case (read_again_lock t b)
  then show ?thesis using db_inv_reader_facts [OF assms(1), of t] by simp
next
  case (mod_lock w f)
  from assms(1) obtain v m where "readers_ok s" "phase v m s" by (auto simp: db_inv_def)
  moreover from this(2) have "m = M_Idle" using mod_lock by (auto simp: phase_def split: if_splits)
  ultimately have "phase w (M_First f) s'" "readers_ok s'"
    using mod_lock by (auto simp: phase_def set_modifier_def readers_ok_def)
  then show ?thesis by (rule db_inv_phase [rotated])
next
  case (mod_first w f)
  show ?thesis by (rule db_inv_mod [OF mod_first(2) _ assms(1), of "M_Written f"])
      (auto simp: mod_first(1) phase_def db_defs)
next
  case (mod_store w f)
  show ?thesis by (rule db_inv_mod [OF mod_store(2) _ assms(1), of "M_Stored f"])
      (auto simp: mod_store(1) phase_def db_defs)
next
  case (mod_wlock w f)
  have "t \<in> set (db_wrappers s)" if "reads b (db_reader s t)" for b t
    using db_inv_reader_facts(2) [OF assms(1), of t] that by (cases "db_reader s t") auto
  then show ?thesis
    by (intro db_inv_mod [OF mod_wlock(2) _ assms(1), of "M_Wait f (db_wrappers s)"])
      (auto simp: mod_wlock(1) phase_def db_defs)
next
  case (mod_wait w f t ts)
  have "\<not> reads b (db_reader s t)" for b
    using db_inv_reader_facts(1) [OF assms(1), of t] mod_wait(3) holds_lock_reads by auto
  then show ?thesis
    by (intro db_inv_mod [OF mod_wait(2) _ assms(1), of "M_Wait f ts"])
      (auto simp: mod_wait(1) phase_def db_defs)
next
  case (mod_wdone w f)
  show ?thesis by (rule db_inv_mod [OF mod_wdone(2) _ assms(1), of "M_Second f"])
      (auto simp: mod_wdone(1) phase_def db_defs)
next
  case (mod_second w f)
  show ?thesis by (rule db_inv_mod [OF mod_second(2) _ assms(1), of "M_Idle"])
      (auto simp: mod_second(1) phase_def db_defs)
qed

lemma db_reach_inv: "db_reach x s \<Longrightarrow> db_inv s"
  by (induction rule: db_reach.induct) (auto intro: db_inv_init db_inv_step)

lemma no_reader_aux:
  assumes "db_reach x s" "db_modifier s w = M_First f \<or> db_modifier s w = M_Second f"
    and "db_reader s t = R_Reading b"
  shows "b = db_index s"
proof -
  have "db_modifier s w \<noteq> M_Idle" using assms(2) by auto
  from db_inv_modifier(2) [OF db_reach_inv [OF assms(1)] refl this]
  have "reads (\<not> db_index s) (db_reader s t) \<Longrightarrow> waits_for t (db_modifier s w)"
    by (simp add: phase_def)
  moreover have "\<not> waits_for t (db_modifier s w)" using assms(2) by auto
  ultimately have "(\<not> db_index s) \<noteq> b" using assms(3) by auto
  then show ?thesis by blast
qed

text \<open>Paths of the protocol, for the witnesses.\<close>

lemma reach_reading:
  assumes "db_reach x s" "db_reader s t = R_Idle" "db_wmutex s = None"
  shows "\<exists>s'. db_reach x s' \<and> db_reader s' t = R_Reading (db_index s) \<and> db_wrappers s' = create_or_get_wrapper t (db_wrappers s) \<and>
    db_index s' = db_index s \<and> db_modifier s' = db_modifier s \<and> db_data s' = db_data s \<and>
    db_mmutex s' = db_mmutex s \<and> db_wmutex s' = db_wmutex s"
proof -
  let ?s1 = "set_reader t R_Lookup s"
  let ?s2 = "set_reader t R_HasWrapper
      (?s1\<lparr>db_wrappers := create_or_get_wrapper t (db_wrappers ?s1)\<rparr>)"
  let ?s3 = "set_reader t R_Locked (StartRead t ?s2)"
  have nl: "\<not> db_locked s t"
    using db_inv_reader_facts(1) [OF db_reach_inv [OF assms(1)], of t] assms(2) by simp
  have r1: "db_reach x ?s1" using reach_step [OF assms(1)] db_step.read_call assms(2) by blast
  have r2: "db_reach x ?s2"
    by (rule reach_step [OF r1 db_step.read_wrapper]) (simp_all add: set_reader_def assms)
  have r3: "db_reach x ?s3"
    by (rule reach_step [OF r2 db_step.read_lock]) (simp_all add: set_reader_def nl)
  have "db_reach x (set_reader t (R_Reading (db_index ?s3)) ?s3)"
    by (rule reach_step [OF r3 db_step.read_load]) (simp add: set_reader_def)
  then show ?thesis
    by (intro exI [of _ "set_reader t (R_Reading (db_index ?s3)) ?s3"] conjI) (simp_all add: set_reader_def)
qed

lemma reach_first:
  assumes "db_reach x s" "db_modifier s w = M_Idle" "db_mmutex s = None"
  shows "db_reach x (set_modifier w (M_First f) (s\<lparr>db_mmutex := Some w\<rparr>))"
  using reach_step [OF assms(1) db_step.mod_lock] assms(2,3) .

lemma reach_wait:
  assumes "db_reach x s" "db_modifier s w = M_Idle" "db_mmutex s = None" "db_wmutex s = None"
  shows "\<exists>s'. db_reach x s' \<and> db_reader s' = db_reader s \<and>
     db_modifier s' w = M_Wait f (db_wrappers s) \<and> db_index s' = (\<not> db_index s)"
proof -
  note r1 = reach_first [OF assms(1-3), of f]
  let ?s1 = "set_modifier w (M_First f) (s\<lparr>db_mmutex := Some w\<rparr>)"
  let ?s2 = "set_modifier w (M_Written f) (write_bg f ?s1)"
  let ?s3 = "set_modifier w (M_Stored f) (?s2\<lparr>db_index := \<not> db_index ?s2\<rparr>)"
  have r2: "db_reach x ?s2"
    by (rule reach_step [OF r1 db_step.mod_first]) (simp add: set_modifier_def)
  have r3: "db_reach x ?s3"
    by (rule reach_step [OF r2 db_step.mod_store]) (simp add: set_modifier_def)
  let ?s4 = "set_modifier w (M_Wait f (db_wrappers ?s3)) (?s3\<lparr>db_wmutex := Some w\<rparr>)"
  have "db_reach x ?s4"
    by (rule reach_step [OF r3 db_step.mod_wlock])
      (simp_all add: set_modifier_def write_bg_def assms)
  then show ?thesis
    by (intro exI [of _ ?s4] conjI) (simp_all add: set_modifier_def write_bg_def)
qed

lemma demo_reading:
  "\<exists>s. db_reach (x :: nat) s \<and> db_reader s 1 = R_Reading False \<and> db_wrappers s = [1] \<and>
     db_modifier s 0 = M_Idle \<and> db_mmutex s = None \<and> db_wmutex s = None \<and>
     db_data s = (\<lambda>_. x)"
  using reach_reading [OF reach_init, of x 1] by (auto simp: db_init_def create_or_get_wrapper_def)

section \<open>Properties\<close>

text \<open>
  C10: under any interleaving of readers and modifiers, no reader holds a pointer to the buffer
  that a modifier is writing, neither in the first run of the closure nor in the second.
\<close>

theorem no_reader_of_written_buffer:
  assumes "db_reach x s" "db_modifier s w = M_First f \<or> db_modifier s w = M_Second f"
    and "db_reader s t = R_Reading b"
  shows "b = db_index s"
  using no_reader_aux [OF assms] .

lemma no_reader_of_written_buffer_witness:
  "\<exists>s :: nat dst. db_modifier s 0 = M_First Suc \<and> db_reader s 1 = R_Reading (db_index s)"
proof -
  obtain s :: "nat dst" where s: "db_reach 5 s" "db_reader s 1 = R_Reading False"
      "db_modifier s 0 = M_Idle" "db_mmutex s = None" using demo_reading [of 5] by blast
  let ?s = "set_modifier 0 (M_First Suc) (s\<lparr>db_mmutex := Some 0\<rparr>)"
  from no_reader_of_written_buffer [OF reach_first [OF s(1,3,4), of Suc], of 0 Suc 1 False] s(2)
  show ?thesis by (intro exI [of _ ?s]) (simp add: set_modifier_def)
qed

text \<open>
  Whenever no modifier is at work the two buffers are equal; and when a modifier is about
  to run its closure for the second time, the foreground is already the closure's value of
  the buffer it is about to write, so that the second run makes them equal again.
\<close>

theorem buffers_agree:
  assumes "db_reach x s"
  shows "(db_mmutex s = None \<longrightarrow> db_data s b = db_data s (\<not> b)) \<and>
    (\<forall>w f. db_modifier s w = M_Second f \<longrightarrow>
       db_data s (db_index s) = f (db_data s (\<not> db_index s)))"
proof (intro conjI allI impI)
  assume "db_mmutex s = None"
  then show "db_data s b = db_data s (\<not> b)"
    using db_reach_inv [OF assms] unfolding db_inv_def phase_def
    by (cases b; cases "db_index s") (auto split: if_splits)
next
  fix w f
  assume m: "db_modifier s w = M_Second f"
  then show "db_data s (db_index s) = f (db_data s (\<not> db_index s))"
    using db_inv_modifier(2) [OF db_reach_inv [OF assms] m] by (simp add: phase_def)
qed

lemma buffers_agree_witness:
  "\<exists>s :: nat dst. db_reader s 1 = R_Reading False \<and> db_data s True = db_data s False"
proof -
  obtain s :: "nat dst" where s: "db_reach 5 s" "db_reader s 1 = R_Reading False"
      "db_mmutex s = None" using demo_reading [of 5] by blast
  from buffers_agree [OF s(1), of True] s(2,3) show ?thesis by auto
qed

text \<open>
  A value that a reader holds does not change under it: whatever step anybody else takes,
  the buffer it points to keeps its content.
\<close>

theorem reader_view_stable:
  assumes "db_reach x s" "db_step s s'" "db_reader s t = R_Reading b"
  shows "db_data s' b = db_data s b"
  using assms(2)
proof cases
  case (mod_first w f)
  with no_reader_aux [OF assms(1), of w f t b] assms(3) show ?thesis by (simp add: db_defs)
next
  case (mod_second w f)
  with no_reader_aux [OF assms(1), of w f t b] assms(3) show ?thesis by (simp add: db_defs)
qed (auto simp: db_defs)

lemma reader_view_stable_witness:
  "\<exists>s :: nat dst. db_data (set_modifier 0 (M_Written Suc) (write_bg Suc s)) False = 5 \<and>
     db_data (set_modifier 0 (M_Written Suc) (write_bg Suc s)) True = 6"
proof -
  obtain s :: "nat dst" where s: "db_reach 5 s" "db_reader s 1 = R_Reading False"
      "db_modifier s 0 = M_Idle" "db_mmutex s = None" "db_data s = (\<lambda>_. 5)"
    using demo_reading [of 5] by blast
  let ?s = "set_modifier 0 (M_First Suc) (s\<lparr>db_mmutex := Some 0\<rparr>)"
  have m: "db_modifier ?s 0 = M_First Suc" and r: "db_reader ?s 1 = R_Reading False"
    using s by (simp_all add: set_modifier_def)
  note reach = reach_first [OF s(1,3,4), of Suc]
  have "\<not> db_index ?s" using no_reader_aux [OF reach disjI1 [OF m] r] by simp
  then have "db_data (set_modifier 0 (M_Written Suc) (write_bg Suc ?s)) True = 6"
    using s(5) by (simp add: db_defs)
  with reader_view_stable [OF reach db_step.mod_first [OF m] r] s(5) show ?thesis
    by (intro exI [of _ ?s]) (simp add: set_modifier_def)
qed

text \<open>
  A thread that asks for a second \<open>ScopePtr\<close> while it holds one never gets it: the mutex
  of its wrapper is not recursive, and it waits for itself in every continuation.
\<close>

theorem second_read_hangs:
  assumes "db_reach x s" "db_reader s t = R_Again b" "db_step\<^sup>*\<^sup>* s s'"
  shows "db_reader s' t = R_Again b"
  using assms(3)
proof (induction rule: rtranclp_induct)
  case (step s1 s2)
  have "db_inv s1" using step.hyps(1) db_reach_inv [OF assms(1)]
    by (induction rule: rtranclp_induct) (auto intro: db_inv_step)
  with step.IH have "db_locked s1 t" by (simp add: db_inv_reader_facts)
  with step.hyps(2) step.IH show ?case by (auto elim!: db_stepE simp: db_defs)
qed (use assms(2) in simp)

lemma second_read_hangs_witness:
  "\<exists>s :: nat dst. db_reach 5 s \<and> db_reader s 1 = R_Again False"
proof -
  obtain s :: "nat dst" where s: "db_reach 5 s" "db_reader s 1 = R_Reading False"
    using demo_reading [of 5] by blast
  let ?s = "set_reader 1 (R_Again False) s"
  have r: "db_reach 5 ?s" using reach_step [OF s(1) db_step.read_again [OF s(2)]] .
  have "db_reader ?s 1 = R_Again False" by (simp add: set_reader_def)
  from second_read_hangs [OF r this rtranclp.rtrancl_refl] r show ?thesis by blast
qed



end
