(* ===== verification/LocalityAware.thy ===== *)
theory LocalityAware
  imports WeightTree DoublyBuffered
begin

text \<open>
  The operations of \<open>LocalityAwareLoadBalancer\<close>
  (\<open>src/rpc_proto/locality_aware_load_balancer.cc\<close>): the two closures \<open>Add\<close> and \<open>Remove\<close> that
  \<open>Modify\<close> runs on each buffer, \<open>add_server\<close>, \<open>remove_server\<close>, \<open>select_server\<close> and
  \<open>Feedback\<close>. \<open>servers\<close> is the content of one buffer; \<open>shared\<close> is what the shared pointers of
  both buffers reach, with the atomic \<open>total_weight_\<close>.

  The clock is an argument, and the random numbers are a function of the number of the draw
  and of its bound, which \<open>in_bounds\<close> says is obeyed. \<open>server_map_\<close> counts in \<open>nat\<close> and the
  \<open>int index\<close> of the search is a \<open>nat\<close>: neither comes near its width. The \<open>size_t\<close> results of
  the batch operations have no return statement in the code and no model here.
\<close>

section \<open>The balancer\<close>

record lalb =
  lb_servers :: "servers dbd"
  lb_map :: "server_name \<rightharpoonup> nat"      \<comment> \<open>\<open>server_map_\<close>\<close>
  lb_shared :: shared

definition lalb_new :: lalb where
  "lalb_new = \<lparr>lb_servers = dbd_new empty_servers, lb_map = Map.empty,
     lb_shared = \<lparr>wheap = (\<lambda>_. new_weight 0 0), lheap = (\<lambda>_. 0), next_ptr = 0, total_weight = 0\<rparr>\<rparr>"

text \<open>\<open>new ServerInfo\<close>: a fresh left sum of 0 and a fresh weight.\<close>

definition new_server_info :: "server_name \<Rightarrow> int \<Rightarrow> int \<Rightarrow> shared \<Rightarrow> server_info \<times> shared" where
  "new_server_info server_name initial_weight now sh =
     (let a = next_ptr sh in
      (\<lparr>sv_name = server_name, sv_left = a, sv_weight = a\<rparr>,
       sh\<lparr>wheap := (wheap sh)(a := new_weight now initial_weight),
          lheap := (lheap sh)(a := 0), next_ptr := a + 1\<rparr>))"

definition weight_of :: "server_info list \<Rightarrow> nat \<Rightarrow> shared \<Rightarrow> weight" where
  "weight_of tree index sh = wheap sh (sv_weight (tree ! index))"

definition set_weight :: "nat \<Rightarrow> weight \<Rightarrow> shared \<Rightarrow> shared" where
  "set_weight a w sh = sh\<lparr>wheap := (wheap sh)(a := w)\<rparr>"

text \<open>\<open>total_weight_.load() / n\<close> divides by a \<open>size_t\<close>, so in unsigned arithmetic.\<close>

definition inital_weight :: "nat \<Rightarrow> shared \<Rightarrow> int" where
  "inital_weight n sh =
     (if n \<noteq> 0 then s64 (u64 (total_weight sh) div u64 (int n)) else WEIGHT_SCALE)"

definition Add ::
  "servers \<Rightarrow> servers \<Rightarrow> server_name \<Rightarrow> int \<Rightarrow> shared \<Rightarrow> (servers \<times> shared \<times> nat) res" where
  "Add bg fg server_name now sh =
     (case server_map fg server_name of
        Some i \<Rightarrow>
          if i < length (weight_tree fg)
          then Inr (bg\<lparr>server_map := (server_map bg)(server_name \<mapsto> i),
                       weight_tree := weight_tree bg @ [weight_tree fg ! i]\<rparr>, sh, 0)
          else Inl OutOfBounds
      | None \<Rightarrow>
          let n = length (weight_tree bg);
              (node, sh) = new_server_info server_name (inital_weight n sh) now sh;
              bg = bg\<lparr>server_map := (server_map bg)(server_name \<mapsto> n),
                      weight_tree := weight_tree bg @ [node]\<rparr>;
              diff = volatile_value (wheap sh (sv_weight node))
          in ubind (add_diff (weight_tree bg) diff n sh) (\<lambda>sh. Inr (bg, sh, 0)))"

text \<open>The last node takes the place of the one at \<open>index\<close>, which keeps its left sum.\<close>

definition swap_in :: "nat \<Rightarrow> server_info \<Rightarrow> server_info list \<Rightarrow> server_info list" where
  "swap_in index back tree =
     butlast (tree[index := (tree ! index)\<lparr>sv_weight := sv_weight back, sv_name := sv_name back\<rparr>])"

definition climb :: "server_info list \<Rightarrow> int \<Rightarrow> nat \<Rightarrow> shared \<Rightarrow> shared res" where
  "climb tree diff index sh =
     (if diff \<noteq> 0
      then ubind (UpdateParentWeight tree diff index (lheap sh)) (\<lambda>lh. Inr (sh\<lparr>lheap := lh\<rparr>))
      else Inr sh)"

definition Remove :: "servers \<Rightarrow> server_name \<Rightarrow> shared \<Rightarrow> (servers \<times> shared \<times> nat) res" where
  "Remove bg server_name sh =
     (let index = (case server_map bg server_name of None \<Rightarrow> 0 | Some i \<Rightarrow> i);
          tree = weight_tree bg;
          bg = bg\<lparr>server_map := (server_map bg)(server_name := None)\<rparr>
      in if \<not> index < length tree then Inl OutOfBounds
      else let a = sv_weight (tree ! index); (w, weight_rm) = Disable (wheap sh a);
               sh = set_weight a w sh
      in if index + 1 = length tree
         then let bg = bg\<lparr>weight_tree := butlast tree\<rparr> in
           ubind (chk64 (- weight_rm)) (\<lambda>diff.
           ubind (add_diff (weight_tree bg) diff index sh) (\<lambda>sh. Inr (bg, sh, 0)))
         else let back = last tree; s = sv_weight back;
                  bg = bg\<lparr>weight_tree := swap_in index back tree,
                          server_map := (server_map bg)(sv_name back \<mapsto> index)\<rparr>
           in if weight_rm \<noteq> 0
              then let (w, add_weight) = MarkOld (length (weight_tree bg)) (wheap sh s);
                       sh = set_weight s w sh
                in ubind (chk64 (add_weight - weight_rm)) (\<lambda>diff.
                   ubind (add_diff (weight_tree bg) diff index sh) (\<lambda>sh. Inr (bg, sh, 0)))
              else let (w, p) = ClearOld (wheap sh s);
                       sh = set_weight s w sh
                in ubind (climb (weight_tree bg) (snd p) index sh) (\<lambda>sh.
                   ubind (chk64 (- fst p)) (\<lambda>nf.
                   ubind (chk64 (nf - snd p)) (\<lambda>old_weight.
                   ubind (climb (weight_tree bg) old_weight (length (weight_tree bg)) sh) (\<lambda>sh.
                   Inr (bg, sh\<lparr>total_weight := fetch_add (total_weight sh) nf\<rparr>, 0))))))"

section \<open>Adding and removing a server\<close>

definition add_server :: "int \<Rightarrow> server_name \<Rightarrow> lalb \<Rightarrow> lalb res" where
  "add_server now server_name lb =
     (let c = (case lb_map lb server_name of None \<Rightarrow> 0 | Some c \<Rightarrow> c) + 1;
          lb = lb\<lparr>lb_map := (lb_map lb)(server_name \<mapsto> c)\<rparr>
      in if c \<noteq> 1 then Inr lb
         else ubind (ModifyWithForeground2 Add server_name now (lb_servers lb) (lb_shared lb))
                (\<lambda>(d, sh). Inr (lb\<lparr>lb_servers := d, lb_shared := sh\<rparr>)))"

text \<open>\<open>remove_server\<close> calls the \<open>Modify\<close> without foreground.\<close>

definition remove_server :: "server_name \<Rightarrow> lalb \<Rightarrow> lalb res" where
  "remove_server server_name lb =
     (case lb_map lb server_name of
        None \<Rightarrow> Inr lb
      | Some _ \<Rightarrow>
          let lb = lb\<lparr>lb_map := (lb_map lb)(server_name := None)\<rparr>
          in ubind (Modify2 (\<lambda>bg name (_ :: unit). Remove bg name) server_name ()
                      (lb_servers lb) (lb_shared lb))
               (\<lambda>(d, sh). Inr (lb\<lparr>lb_servers := d, lb_shared := sh\<rparr>)))"

section \<open>Selecting a server\<close>

text \<open>\<open>rnd k n\<close> is the \<open>k\<close>-th draw of a number in \<open>[1, n]\<close>.\<close>

type_synonym draws = "nat \<Rightarrow> int \<Rightarrow> int"

definition in_bounds :: "draws \<Rightarrow> bool" where
  "in_bounds rnd \<longleftrightarrow> (\<forall>k n. 1 \<le> n \<longrightarrow> 1 \<le> rnd k n \<and> rnd k n \<le> n)"

definition getRand :: "draws \<Rightarrow> nat \<Rightarrow> int \<Rightarrow> int res" where
  "getRand rnd k n = (if n < 1 then Inl BadRange else Inr (rnd k n))"

text \<open>The visit of the node the search stopped at.\<close>

definition inflight_at ::
  "select_in \<Rightarrow> server_info list \<Rightarrow> nat \<Rightarrow> int \<Rightarrow> shared \<Rightarrow> (shared \<times> bool) res" where
  "inflight_at inp tree index dice sh =
     ubind (AddInflight inp index dice (weight_of tree index sh)) (\<lambda>(w, result).
     ubind (add_diff tree (weight_diff result) index (set_weight (sv_weight (tree ! index)) w sh))
       (\<lambda>sh. Inr (sh, chosen result)))"

function select_loop ::
  "select_in \<Rightarrow> draws \<Rightarrow> server_info list \<Rightarrow> nat \<Rightarrow> nat \<Rightarrow> nat \<Rightarrow> int \<Rightarrow> int \<Rightarrow> select_out \<Rightarrow> shared \<Rightarrow>
   (shared \<times> int \<times> select_out) res" where
  "select_loop inp rnd tree k n_try index tw dice out sh =
     (let n = length tree in
      if \<not> tw > 0 then Inr (sh, -1, out)
      else if \<not> index < n then Inl OutOfBounds
      else let node = tree ! index; left = lheap sh (sv_left node);
               self = volatile_value (weight_of tree index sh) in
        if dice < left
        then select_loop inp rnd tree k n_try (2 * index + 1) tw dice out sh
        else ubind (chk64 (left + self)) (\<lambda>upto.
        if dice \<ge> upto then
          ubind (chk64 (dice - upto)) (\<lambda>dice.
          if 2 * index + 2 < n
          then select_loop inp rnd tree k n_try (2 * index + 2) tw dice out sh
          else if n_try + 1 \<ge> n then Inr (sh, -1, out)
          else ubind (getRand rnd k (total_weight sh)) (\<lambda>dice.
            select_loop inp rnd tree (k + 1) (n_try + 1) 0 (total_weight sh) dice out sh))
        else
          ubind (chk64 (dice - left)) (\<lambda>d.
          ubind (inflight_at inp tree index d sh) (\<lambda>(sh, chosen).
          if chosen then Inr (sh, 0, out\<lparr>so_node := sv_name node, so_need_feedback := True\<rparr>)
          else if n_try + 1 \<ge> n then Inr (sh, -1, out)
          else if n_try + 2 \<ge> n then Inr (sh, -1, out)
          else ubind (getRand rnd k (total_weight sh)) (\<lambda>dice.
            select_loop inp rnd tree (k + 1) (n_try + 2) 0 (total_weight sh) dice out sh)))))"
  by pat_completeness auto
termination
  by (relation "measures [\<lambda>(inp, rnd, tree, k, n_try, index, tw, dice, out, sh). length tree - n_try,
                          \<lambda>(inp, rnd, tree, k, n_try, index, tw, dice, out, sh). length tree - index]")
     auto

declare select_loop.simps [simp del]

definition select_on ::
  "select_in \<Rightarrow> draws \<Rightarrow> servers \<Rightarrow> select_out \<Rightarrow> shared \<Rightarrow> (shared \<times> int \<times> select_out) res" where
  "select_on inp rnd servers out sh =
     ubind (getRand rnd 0 (total_weight sh)) (\<lambda>dice.
     select_loop inp rnd (weight_tree servers) 1 0 0 (total_weight sh) dice out sh)"

definition select_server ::
  "select_in \<Rightarrow> draws \<Rightarrow> select_out \<Rightarrow> lalb \<Rightarrow> (lalb \<times> int \<times> select_out) res" where
  "select_server inp rnd out lb =
     ubind (select_on inp rnd (UnsafeRead (lb_servers lb)) out (lb_shared lb))
       (\<lambda>(sh, r, out). Inr (lb\<lparr>lb_shared := sh\<rparr>, r, out))"

section \<open>Feedback\<close>

definition update_at ::
  "int \<Rightarrow> call_info \<Rightarrow> server_info list \<Rightarrow> nat \<Rightarrow> shared \<Rightarrow> shared res" where
  "update_at now info tree index sh =
     ubind (Update now info index (weight_of tree index sh)) (\<lambda>(w, diff).
     add_diff tree diff index (set_weight (sv_weight (tree ! index)) w sh))"

definition feedback_on :: "int \<Rightarrow> call_info \<Rightarrow> servers \<Rightarrow> shared \<Rightarrow> shared res" where
  "feedback_on now info servers sh =
     ubind (of_opt NullDeref (server_map servers (ci_node info))) (\<lambda>index.
     if index < length (weight_tree servers)
     then update_at now info (weight_tree servers) index sh
     else Inl OutOfBounds)"

definition Feedback :: "int \<Rightarrow> call_info \<Rightarrow> lalb \<Rightarrow> lalb res" where
  "Feedback now info lb =
     (if lb_map lb (ci_node info) = None then Inr lb
      else ubind (feedback_on now info (UnsafeRead (lb_servers lb)) (lb_shared lb)) (\<lambda>sh.
             Inr (lb\<lparr>lb_shared := sh\<rparr>)))"

end
