(* ===== verification/BalancerInvariant.thy ===== *)
theory BalancerInvariant
  imports LocalityAware
begin

text \<open>
  The invariant of the locality-aware balancer, and that additions and removals keep it, with
  the steps of readers on either buffer between the two phases of \<open>Modify\<close>.

  \<open>accounted as ls sh\<close> is the heart: position \<open>i\<close> of the tree has its left sum at address
  \<open>ls ! i\<close> and its weight at \<open>as ! i\<close>, and the left sums and the total are the sums of the
  virtual weights \<open>vw i\<close>. Between the phases of a removal one weight stands at two positions,
  its old one and its new one; \<open>MarkOld\<close> splits it: what readers of the old buffer changed
  counts at the old position, the rest at the new one.
\<close>

section \<open>Sums over positions\<close>

definition lsums :: "nat list \<Rightarrow> (nat \<Rightarrow> int) \<Rightarrow> (nat \<Rightarrow> int) \<Rightarrow> bool" where
  "lsums ls V lh \<longleftrightarrow> (\<forall>p < length ls. lh (ls ! p) = s64 (subsum V (length ls) (2 * p + 1)))"

definition sums :: "nat list \<Rightarrow> (nat \<Rightarrow> int) \<Rightarrow> shared \<Rightarrow> bool" where
  "sums ls V sh \<longleftrightarrow>
     lsums ls V (lheap sh) \<and> total_weight sh = s64 (\<Sum>i < length ls. V i)"

lemma lsums_cong: "lsums ls V lh \<Longrightarrow> (\<And>i. i < length ls \<Longrightarrow> V i = V' i) \<Longrightarrow> lsums ls V' lh"
  unfolding lsums_def using subsum_cong [of "length ls" V V'] by simp

lemma sums_cong: "sums ls V sh \<Longrightarrow> (\<And>i. i < length ls \<Longrightarrow> V i = V' i) \<Longrightarrow> sums ls V' sh"
  unfolding sums_def using lsums_cong by (metis (no_types, lifting) lessThan_iff sum.cong)

text \<open>The nodes of the tree have their left sums at the addresses \<open>ls\<close>, as far as both go.\<close>

definition agrees :: "nat list \<Rightarrow> server_info list \<Rightarrow> bool" where
  "agrees ls tree \<longleftrightarrow> distinct (map sv_left tree) \<and>
     (\<forall>p < length tree. p < length ls \<longrightarrow> sv_left (tree ! p) = ls ! p)"

lemma agrees_nth: "agrees ls tree \<Longrightarrow> p < length tree \<Longrightarrow> p < length ls \<Longrightarrow> sv_left (tree ! p) = ls ! p"
  by (simp add: agrees_def)

text \<open>The climb of a difference from a position that is accounted for.\<close>

lemma touched_agrees:
  assumes "agrees ls tree" "i < length ls" "a \<in> touched tree i"
  shows "\<exists>q. q < length tree \<and> q < length ls \<and> a = ls ! q \<and> insub (2 * q + 1) i"
proof -
  obtain q where q: "q < length tree" "insub (2 * q + 1) i" "a = sv_left (tree ! q)"
    using assms(3) by (auto simp: touched_def)
  moreover have "q < length ls" using insub_ge [OF q(2)] assms(2) by simp
  ultimately show ?thesis using agrees_nth [OF assms(1)] by blast
qed

lemma climb_lsums:
  assumes "agrees ls tree" "distinct ls" "i \<le> 2 * length tree" "i < length ls" "lsums ls V lh"
  shows "\<exists>lh'. UpdateParentWeight tree d i lh = Inr lh' \<and> lsums ls (V(i := V i + d)) lh' \<and>
           (\<forall>a. a \<notin> set ls \<longrightarrow> lh' a = lh a)"
proof -
  have dist: "distinct (map sv_left tree)" using assms(1) by (simp add: agrees_def)
  let ?lh = "bump (touched tree i) d lh"
  have "?lh (ls ! p) = s64 (subsum (V(i := V i + d)) (length ls) (2 * p + 1))"
    if p: "p < length ls" for p
  proof (cases "p < length tree")
    case True
    have "lh (ls ! p) = s64 (subsum V (length ls) (2 * p + 1))"
      using assms(5) p by (simp add: lsums_def)
    then show ?thesis
      using bump_left [OF dist True, of i d lh] agrees_nth [OF assms(1) True p]
      by (simp add: subsum_upd [OF assms(4)])
  next
    case False
    then have no: "\<not> insub (2 * p + 1) i" using insub_ge [of "2 * p + 1" i] assms(3) by auto
    have "ls ! p \<notin> touched tree i"
    proof
      assume "ls ! p \<in> touched tree i"
      from touched_agrees [OF assms(1,4) this] obtain q where
        "q < length tree" "q < length ls" "ls ! p = ls ! q" by blast
      then show False using assms(2) p False nth_eq_iff_index_eq [of ls p q] by simp
    qed
    then show ?thesis
      using no assms(5) p by (simp add: bump_def lsums_def subsum_upd [OF assms(4)])
  qed
  moreover have "?lh a = lh a" if "a \<notin> set ls" for a
    using touched_agrees [OF assms(1,4), of a] that by (auto simp: bump_def)
  ultimately show ?thesis
    using UpdateParentWeight_bump [OF dist assms(3), of d lh] by (auto simp: lsums_def)
qed

lemma climb_sums:
  assumes "agrees ls tree" "distinct ls" "i \<le> 2 * length tree" "i < length ls"
    and "lsums ls V (lheap sh)"
  shows "\<exists>lh. climb tree d i sh = Inr (sh\<lparr>lheap := lh\<rparr>) \<and> lsums ls (V(i := V i + d)) lh \<and>
           (\<forall>a. a \<notin> set ls \<longrightarrow> lh a = lheap sh a)"
proof (cases "d = 0")
  case True
  then have "climb tree d i sh = Inr (sh\<lparr>lheap := lheap sh\<rparr>)" by (simp add: climb_def)
  then show ?thesis using True assms(5) by (intro exI [of _ "lheap sh"]) simp
next
  case False
  with climb_lsums [OF assms, of d] show ?thesis by (auto simp: climb_def)
qed

lemma add_diff_sums:
  assumes "agrees ls tree" "distinct ls" "i \<le> 2 * length tree" "i < length ls" "sums ls V sh"
  shows "\<exists>sh'. add_diff tree d i sh = Inr sh' \<and> sums ls (V(i := V i + d)) sh' \<and>
           wheap sh' = wheap sh \<and> next_ptr sh' = next_ptr sh \<and>
           (\<forall>a. a \<notin> set ls \<longrightarrow> lheap sh' a = lheap sh a)"
proof (cases "d = 0")
  case True
  then show ?thesis using assms(5) by (simp add: add_diff_def)
next
  case False
  have l: "lsums ls V (lheap sh)" and t: "total_weight sh = s64 (\<Sum>i < length ls. V i)"
    using assms(5) by (simp_all add: sums_def)
  from climb_lsums [OF assms(1-4) l, of d] obtain lh where
    lh: "UpdateParentWeight tree d i (lheap sh) = Inr lh" "lsums ls (V(i := V i + d)) lh"
        "\<forall>a. a \<notin> set ls \<longrightarrow> lh a = lheap sh a" by blast
  have "(\<Sum>j < length ls. (V(i := V i + d)) j) = (\<Sum>j < length ls. V j) + d"
    using assms(4) by (subst sum_fun_upd_add) auto
  then show ?thesis
    using False lh t by (simp add: add_diff_def sums_def fetch_add_def)
qed

section \<open>Accounting for every position\<close>

definition vw :: "nat \<Rightarrow> weight \<Rightarrow> int" where
  "vw i w = (if w_old_index w = i then w_old_weight w + w_old_diff_sum w
             else w_weight w - w_old_diff_sum w)"

definition good :: "weight \<Rightarrow> bool" where
  "good w \<longleftrightarrow> live w \<and> weight_inv w"

definition accounted :: "nat list \<Rightarrow> nat list \<Rightarrow> shared \<Rightarrow> bool" where
  "accounted as ls sh \<longleftrightarrow>
     length as = length ls \<and> length ls < NO_INDEX \<and> distinct ls \<and>
     (\<forall>i < length as. \<forall>j < length as. as ! i = as ! j \<longrightarrow> i \<noteq> j \<longrightarrow>
        w_old_index (wheap sh (as ! i)) = i \<or> w_old_index (wheap sh (as ! i)) = j) \<and>
     (\<forall>a \<in> set as. good (wheap sh a)) \<and>
     sums ls (\<lambda>i. vw i (wheap sh (as ! i))) sh"

text \<open>A buffer that a reader may hold: its nodes are the accounted ones or disabled.\<close>

definition view :: "nat list \<Rightarrow> nat list \<Rightarrow> shared \<Rightarrow> server_info list \<Rightarrow> bool" where
  "view as ls sh tree \<longleftrightarrow>
     agrees ls tree \<and>
     (\<forall>i < length tree.
        i < length as \<and> sv_weight (tree ! i) = as ! i \<or> disabled (weight_of tree i sh))"

lemma vw_step:
  assumes "weight_step i w w' d"
  shows "vw i w' = vw i w + d" and "w_old_index w' = w_old_index w"
    and "i \<noteq> j \<Longrightarrow> w_old_index w = i \<or> w_old_index w = j \<Longrightarrow> vw j w' = vw j w"
  using assms by (auto simp: weight_step_def vw_def)

text \<open>The step of a reader on a node: select visits it, or a feedback updates it.\<close>

datatype visit = Visit_Inflight select_in int | Visit_Update int call_info

fun visit_at :: "visit \<Rightarrow> server_info list \<Rightarrow> nat \<Rightarrow> shared \<Rightarrow> shared res" where
  "visit_at (Visit_Inflight inp dice) tree i sh =
     ubind (inflight_at inp tree i dice sh) (\<lambda>(sh, chosen). Inr sh)"
| "visit_at (Visit_Update now info) tree i sh = update_at now info tree i sh"

lemma visit_at_cases:
  assumes "visit_at v tree i sh = Inr sh'"
  shows "\<exists>w d. add_diff tree d i (set_weight (sv_weight (tree ! i)) w sh) = Inr sh' \<and>
    weight_step i (weight_of tree i sh) w d \<and>
    (good (weight_of tree i sh) \<longrightarrow> good w) \<and>
    (disabled (weight_of tree i sh) \<longrightarrow> w = weight_of tree i sh \<and> d = 0)"
proof (cases v)
  case (Visit_Inflight inp dice)
  with assms obtain w r where r: "AddInflight inp i dice (weight_of tree i sh) = Inr (w, r)"
    "add_diff tree (weight_diff r) i (set_weight (sv_weight (tree ! i)) w sh) = Inr sh'"
    by (auto simp: inflight_at_def)
  moreover have "disabled (weight_of tree i sh) \<longrightarrow> w = weight_of tree i sh \<and> weight_diff r = 0"
    using r(1) by (auto simp: AddInflight_def)
  moreover have "good (weight_of tree i sh) \<longrightarrow> good w"
    using AddInflight_live [OF r(1)] by (auto simp: good_def)
  ultimately show ?thesis using AddInflight_step [OF r(1)] by blast
next
  case (Visit_Update now info)
  with assms obtain w d where r: "Update now info i (weight_of tree i sh) = Inr (w, d)"
    "add_diff tree d i (set_weight (sv_weight (tree ! i)) w sh) = Inr sh'"
    by (auto simp: update_at_def)
  moreover have "disabled (weight_of tree i sh) \<longrightarrow> w = weight_of tree i sh \<and> d = 0"
    using r(1) by (auto simp: Update_def)
  moreover have "good (weight_of tree i sh) \<longrightarrow> good w"
    using Update_live [OF r(1)] by (auto simp: good_def)
  ultimately show ?thesis using Update_step [OF r(1)] by blast
qed

lemma set_weight_simps [simp]:
  "wheap (set_weight a w sh) = (wheap sh)(a := w)" "lheap (set_weight a w sh) = lheap sh"
  "next_ptr (set_weight a w sh) = next_ptr sh" "total_weight (set_weight a w sh) = total_weight sh"
  by (simp_all add: set_weight_def)

lemma set_weight_same [simp]: "set_weight a (wheap sh a) sh = sh"
  by (simp add: set_weight_def)

lemma sums_set_weight [simp]: "sums ls V (set_weight a w sh) \<longleftrightarrow> sums ls V sh"
  by (simp add: sums_def)

text \<open>What a step of a reader on one node may do: \<open>frame\<close> is what it leaves alone.\<close>

definition node_frame :: "nat \<Rightarrow> nat list \<Rightarrow> shared \<Rightarrow> shared \<Rightarrow> bool" where
  "node_frame a ls sh sh' \<longleftrightarrow>
     next_ptr sh' = next_ptr sh \<and> (\<forall>x. x \<noteq> a \<longrightarrow> wheap sh' x = wheap sh x) \<and>
     w_old_index (wheap sh' a) = w_old_index (wheap sh a) \<and>
     w_old_weight (wheap sh' a) = w_old_weight (wheap sh a) \<and>
     (w_old_index (wheap sh a) = NO_INDEX \<longrightarrow>
        w_old_diff_sum (wheap sh' a) = w_old_diff_sum (wheap sh a)) \<and>
     (disabled (wheap sh a) \<longrightarrow> wheap sh' a = wheap sh a) \<and>
     (\<forall>x. x \<notin> set ls \<longrightarrow> lheap sh' x = lheap sh x)"

lemma visit_disabled:
  assumes "disabled (weight_of tree i sh)" "visit_at v tree i sh = Inr sh'"
  shows "sh' = sh"
proof -
  obtain w d where "add_diff tree d i (set_weight (sv_weight (tree ! i)) w sh) = Inr sh'"
      "w = weight_of tree i sh" "d = 0" using visit_at_cases [OF assms(2)] assms(1) by blast
  then show ?thesis by (simp add: add_diff_def weight_of_def)
qed

lemma node_frame_refl: "node_frame a ls sh sh"
  by (simp add: node_frame_def)

lemma visit_accounted:
  assumes acc: "accounted as ls sh" and v: "view as ls sh tree" and i: "i < length tree"
    and step: "visit_at v0 tree i sh = Inr sh'"
  shows "accounted as ls sh' \<and> node_frame (sv_weight (tree ! i)) ls sh sh'"
proof (cases "disabled (weight_of tree i sh)")
  case True
  from visit_disabled [OF this step] acc show ?thesis by (simp add: node_frame_refl)
next
  case False
  let ?a = "sv_weight (tree ! i)" and ?V = "\<lambda>j. vw j (wheap sh (as ! j))"
  have a: "?a = as ! i" and pre: "agrees ls tree" "distinct ls" "i \<le> 2 * length tree"
      "i < length ls" "length as = length ls" and idx: "i \<noteq> NO_INDEX"
    using acc v i False by (auto simp: accounted_def view_def)
  obtain w d where w: "add_diff tree d i (set_weight ?a w sh) = Inr sh'"
      "weight_step i (wheap sh ?a) w d" "good (wheap sh ?a) \<longrightarrow> good w"
    using visit_at_cases [OF step] by (auto simp: weight_of_def)
  have "sums ls ?V (set_weight ?a w sh)" using acc by (simp add: accounted_def)
  from add_diff_sums [OF pre(1-4) this, of d] w(1) have
    s: "sums ls (?V(i := ?V i + d)) sh'" "wheap sh' = (wheap sh)(?a := w)"
       "next_ptr sh' = next_ptr sh" "\<forall>x. x \<notin> set ls \<longrightarrow> lheap sh' x = lheap sh x"
    by auto
  have frame: "node_frame ?a ls sh sh'"
    using s w(2) idx False by (auto simp: node_frame_def weight_step_def weight_of_def)
  have gw: "good w" using w(3) acc pre(4,5) a by (simp add: accounted_def)
  have shared_pos: "w_old_index (wheap sh ?a) = i \<or> w_old_index (wheap sh ?a) = j"
    if "j < length ls" "as ! j = ?a" "j \<noteq> i" for j
    using acc that pre(4,5) a unfolding accounted_def by metis
  have new: "(?V(i := ?V i + d)) j = vw j (wheap sh' (as ! j))" if j: "j < length ls" for j
  proof (cases "as ! j = ?a")
    case False
    then have "j \<noteq> i" using a by auto
    with False show ?thesis by (simp add: s(2))
  next
    case True
    show ?thesis
    proof (cases "j = i")
      case True
      then show ?thesis using vw_step(1) [OF w(2)] a by (simp add: s(2))
    next
      case False
      with vw_step(3) [OF w(2), of j] shared_pos [OF j True False] True
      show ?thesis by (simp add: s(2))
    qed
  qed
  have "sums ls (\<lambda>j. vw j (wheap sh' (as ! j))) sh'"
    by (rule sums_cong [OF s(1)]) (rule new)
  moreover have old: "w_old_index (wheap sh' x) = w_old_index (wheap sh x)" for x
    using vw_step(2) [OF w(2)] by (simp add: s(2))
  moreover have "\<forall>x \<in> set as. good (wheap sh' x)"
    using acc gw by (simp add: accounted_def s(2))
  ultimately have "accounted as ls sh'"
    using acc unfolding accounted_def old by blast
  with frame show ?thesis by simp
qed

lemma disabled_frame:
  "node_frame a ls sh sh' \<Longrightarrow> disabled (wheap sh x) \<Longrightarrow> disabled (wheap sh' x)"
  by (cases "x = a") (auto simp: node_frame_def)

lemma view_frame: "view as ls sh tree \<Longrightarrow> node_frame a ls sh sh' \<Longrightarrow> view as ls sh' tree"
  by (auto simp: view_def weight_of_def dest: disabled_frame)

section \<open>A run of readers' steps\<close>

text \<open>What any number of readers' steps leaves alone.\<close>

definition frames :: "nat list \<Rightarrow> shared \<Rightarrow> shared \<Rightarrow> bool" where
  "frames ls sh sh' \<longleftrightarrow> next_ptr sh' = next_ptr sh \<and>
     (\<forall>a. w_old_index (wheap sh' a) = w_old_index (wheap sh a) \<and>
          w_old_weight (wheap sh' a) = w_old_weight (wheap sh a) \<and>
          (w_old_index (wheap sh a) = NO_INDEX \<longrightarrow>
             w_old_diff_sum (wheap sh' a) = w_old_diff_sum (wheap sh a)) \<and>
          (disabled (wheap sh a) \<longrightarrow> wheap sh' a = wheap sh a))"

lemma frames_refl [simp]: "frames ls sh sh"
  by (simp add: frames_def)

lemma frames_trans: "frames ls sh sh1 \<Longrightarrow> frames ls sh1 sh2 \<Longrightarrow> frames ls sh sh2"
  by (simp add: frames_def)

lemma node_frame_frames: "node_frame a ls sh sh' \<Longrightarrow> frames ls sh sh'"
  unfolding frames_def node_frame_def by metis

fun run_visits ::
  "(bool \<Rightarrow> server_info list) \<Rightarrow> (bool \<times> nat \<times> visit) list \<Rightarrow> shared \<Rightarrow> shared res" where
  "run_visits trees [] sh = Inr sh"
| "run_visits trees ((b, i, v) # vs) sh =
     (if i < length (trees b) then ubind (visit_at v (trees b) i sh) (run_visits trees vs)
      else Inl OutOfBounds)"

lemma run_visits_accounted:
  assumes "accounted as ls sh" "\<And>b. view as ls sh (trees b)" "run_visits trees vs sh = Inr sh'"
  shows "accounted as ls sh' \<and> frames ls sh sh'"
  using assms
proof (induction trees vs sh rule: run_visits.induct)
  case (2 trees b i v vs sh)
  from 2(4) obtain sh1 where i: "i < length (trees b)" and
    sh1: "visit_at v (trees b) i sh = Inr sh1" "run_visits trees vs sh1 = Inr sh'"
    by (auto split: if_splits)
  from visit_accounted [OF 2(2,3) i sh1(1)] have
    a: "accounted as ls sh1" and f: "node_frame (sv_weight (trees b ! i)) ls sh sh1" by auto
  have "view as ls sh1 (trees c)" for c using view_frame [OF 2(3) f] .
  from 2(1) [OF i sh1(1) a this sh1(2)] node_frame_frames [OF f] show ?case
    using frames_trans by blast
qed simp

section \<open>The balancer at rest\<close>

definition at_rest :: "weight \<Rightarrow> bool" where
  "at_rest w \<longleftrightarrow> w_old_index w = NO_INDEX \<and> w_old_diff_sum w = 0"

definition tree_shape :: "servers \<Rightarrow> nat \<Rightarrow> bool" where
  "tree_shape sv np \<longleftrightarrow>
     distinct (map sv_weight (weight_tree sv)) \<and> distinct (map sv_left (weight_tree sv)) \<and>
     distinct (map sv_name (weight_tree sv)) \<and>
     (\<forall>x i. server_map sv x = Some i \<longleftrightarrow>
        i < length (weight_tree sv) \<and> sv_name (weight_tree sv ! i) = x) \<and>
     (\<forall>nd \<in> set (weight_tree sv). sv_left nd < np \<and> sv_weight nd < np)"

definition tree_ok :: "servers \<Rightarrow> shared \<Rightarrow> bool" where
  "tree_ok sv sh \<longleftrightarrow>
     tree_shape sv (next_ptr sh) \<and>
     accounted (map sv_weight (weight_tree sv)) (map sv_left (weight_tree sv)) sh \<and>
     (\<forall>nd \<in> set (weight_tree sv). at_rest (wheap sh (sv_weight nd)))"

text \<open>The weight at a position.\<close>

definition wt :: "servers \<Rightarrow> shared \<Rightarrow> nat \<Rightarrow> int" where
  "wt sv sh i = w_weight (weight_of (weight_tree sv) i sh)"

lemma tree_ok_vw:
  assumes "tree_ok sv sh" "i < length (weight_tree sv)"
  shows "vw i (wheap sh (sv_weight (weight_tree sv ! i))) = wt sv sh i"
    and "good (weight_of (weight_tree sv) i sh)"
proof -
  have "at_rest (wheap sh (sv_weight (weight_tree sv ! i)))" "i < NO_INDEX"
    using assms by (auto simp: tree_ok_def accounted_def)
  then show "vw i (wheap sh (sv_weight (weight_tree sv ! i))) = wt sv sh i"
    by (simp add: vw_def wt_def at_rest_def weight_of_def)
  show "good (weight_of (weight_tree sv) i sh)"
    using assms by (simp add: tree_ok_def accounted_def weight_of_def)
qed

lemma tree_ok_sums:
  assumes "tree_ok sv sh"
  shows "sums (map sv_left (weight_tree sv)) (wt sv sh) sh"
proof -
  let ?t = "weight_tree sv"
  have "sums (map sv_left ?t) (\<lambda>i. vw i (wheap sh (map sv_weight ?t ! i))) sh"
    using assms by (simp add: tree_ok_def accounted_def)
  then show ?thesis by (rule sums_cong) (simp add: tree_ok_vw [OF assms])
qed

lemma agrees_self: "tree_shape sv np \<Longrightarrow> agrees (map sv_left (weight_tree sv)) (weight_tree sv)"
  by (simp add: agrees_def tree_shape_def)

text \<open>\<open>accounted\<close> for positions whose addresses differ.\<close>

lemma accountedI:
  assumes "length ls < NO_INDEX" "distinct ls" "length as = length ls" "distinct as"
    and "\<And>a. a \<in> set as \<Longrightarrow> good (wheap sh a) \<and> at_rest (wheap sh a)"
    and "sums ls (\<lambda>i. w_weight (wheap sh (as ! i))) sh"
  shows "accounted as ls sh"
proof -
  have "sums ls (\<lambda>i. vw i (wheap sh (as ! i))) sh"
    by (rule sums_cong [OF assms(6)]) (use assms(1,3,5) in \<open>auto simp: vw_def at_rest_def\<close>)
  then show ?thesis
    using assms nth_eq_iff_index_eq [of as] unfolding accounted_def by metis
qed

text \<open>A last position of virtual weight 0 can be dropped, or added with a fresh left sum.\<close>

lemma sums_shrink:
  assumes "sums ls V sh" "ls \<noteq> []" "V (length ls - 1) = 0"
  shows "sums (butlast ls) V sh"
proof -
  obtain m where m: "length ls = Suc m" using assms(2) by (cases ls) auto
  have "subsum V (length ls) j = subsum V m j" for j
    using assms(3) by (simp add: m subsum_Suc)
  moreover have "(\<Sum>i < length ls. V i) = (\<Sum>i < m. V i)" using assms(3) by (simp add: m)
  ultimately show ?thesis using assms(1) by (simp add: sums_def lsums_def m nth_butlast)
qed

lemma sums_extend:
  assumes "sums ls V sh" "V (length ls) = 0" "lheap sh a = 0"
  shows "sums (ls @ [a]) V sh"
proof -
  have "subsum V (Suc (length ls)) j = subsum V (length ls) j" for j
    using assms(2) by (simp add: subsum_Suc)
  then show ?thesis
    using assms by (auto simp: sums_def lsums_def nth_append less_Suc_eq)
qed

end
