(* ===== verification/BalancerChanges.thy ===== *)
theory BalancerChanges
  imports BalancerInvariant
begin

text \<open>
  The two phases of \<open>Add\<close> and \<open>Remove\<close> keep the balancer's invariant: what each closure does
  to the buffer it is given, what holds between the phases while readers work on both buffers,
  and that the second phase ends in the same buffer content with exact sums.
\<close>

section \<open>Removing the last node\<close>

definition disabled0 :: "weight \<Rightarrow> bool" where
  "disabled0 w \<longleftrightarrow> w_base_weight w = -1 \<and> w_weight w = 0"

lemma disabled0_disabled: "disabled0 w \<Longrightarrow> disabled w"
  by (simp add: disabled0_def disabled_def)

lemma Disable_twice: "disabled0 w \<Longrightarrow> Disable w = (w, 0)"
  by (cases w) (simp add: disabled0_def Disable_def)

lemma Disable_eq: "Disable w = (w\<lparr>w_base_weight := -1, w_weight := 0\<rparr>, w_weight w)"
  by (simp add: Disable_def Let_def)

lemma disabled0_Disable: "disabled0 (w\<lparr>w_base_weight := -1, w_weight := 0\<rparr>)"
  by (simp add: disabled0_def)

text \<open>The buffer after a removal; both phases compute it.\<close>

definition removed :: "server_name \<Rightarrow> nat \<Rightarrow> servers \<Rightarrow> servers" where
  "removed x k sv =
     (let t = weight_tree sv in
      if k + 1 = length t
      then sv\<lparr>server_map := (server_map sv)(x := None), weight_tree := butlast t\<rparr>
      else sv\<lparr>server_map := (server_map sv)(x := None, sv_name (last t) \<mapsto> k),
              weight_tree := swap_in k (last t) t\<rparr>)"

lemma length_swap_in [simp]: "length (swap_in k b t) = length t - 1"
  by (simp add: swap_in_def)

lemma swap_in_nth:
  "i < length t - 1 \<Longrightarrow> swap_in k b t ! i =
     (if i = k then (t ! k)\<lparr>sv_weight := sv_weight b, sv_name := sv_name b\<rparr> else t ! i)"
  by (simp add: swap_in_def nth_butlast nth_list_update)

lemma swap_in_left [simp]: "map sv_left (swap_in k b t) = butlast (map sv_left t)"
  by (rule nth_equalityI) (auto simp: swap_in_nth nth_butlast)

lemma swap_in_weight:
  "map sv_weight (swap_in k b t) = butlast ((map sv_weight t)[k := sv_weight b])"
  by (rule nth_equalityI) (auto simp: swap_in_nth nth_butlast nth_list_update)

lemma swap_in_name:
  "map sv_name (swap_in k b t) = butlast ((map sv_name t)[k := sv_name b])"
  by (rule nth_equalityI) (auto simp: swap_in_nth nth_butlast nth_list_update)

lemma distinct_swap_last:
  assumes "distinct xs" "k < length xs - 1"
  shows "distinct (butlast (xs[k := last xs]))"
proof -
  obtain ys y where xs: "xs = ys @ [y]" using assms(2) by (cases xs rule: rev_cases) auto
  with assms show ?thesis
    by (simp add: list_update_append distinct_list_update)
qed

lemma distinct_last_nth:
  assumes "distinct (map f t)" "i < length t - 1"
  shows "f (t ! i) \<noteq> f (last t)"
proof -
  have "last t = t ! (length t - 1)" using assms(2) by (intro last_conv_nth) auto
  then show ?thesis
    using assms nth_eq_iff_index_eq [of "map f t" i "length t - 1"] by auto
qed

lemma tree_shape_index:
  assumes "tree_shape sv np" "i < length (weight_tree sv)" "j < length (weight_tree sv)"
    "sv_name (weight_tree sv ! i) = sv_name (weight_tree sv ! j)"
  shows "i = j"
  using assms nth_eq_iff_index_eq [of "map sv_name (weight_tree sv)" i j]
  by (auto simp: tree_shape_def)

lemma removed_shape_last:
  assumes shape: "tree_shape sv np" and k: "server_map sv x = Some k" "k + 1 = length (weight_tree sv)"
  shows "tree_shape (removed x k sv) np"
proof -
  let ?t = "weight_tree sv"
  have n: "k < length ?t" "sv_name (?t ! k) = x" using assms by (auto simp: tree_shape_def)
  have "(y \<noteq> x \<and> server_map sv y = Some i) \<longleftrightarrow>
      i < length ?t - 1 \<and> sv_name (butlast ?t ! i) = y" for y i
  proof -
    have "i < length ?t \<and> sv_name (?t ! i) = y \<and> y \<noteq> x \<longleftrightarrow>
        i < length ?t - 1 \<and> sv_name (?t ! i) = y"
      using tree_shape_index [OF shape, of i k] n k(2)
      by (metis Suc_eq_plus1 diff_Suc_1 less_Suc_eq less_irrefl)
    then show ?thesis using shape by (auto simp: tree_shape_def nth_butlast)
  qed
  moreover have "set (butlast ?t) \<subseteq> set ?t" by (auto dest: in_set_butlastD)
  ultimately show ?thesis
    using shape k(2) by (auto simp: tree_shape_def removed_def Let_def map_butlast distinct_butlast)
qed

lemma swap_in_map:
  assumes shape: "tree_shape sv np" and k: "server_map sv x = Some k" "k + 1 < length (weight_tree sv)"
  defines "t \<equiv> weight_tree sv"
  shows "((server_map sv)(x := None, sv_name (last t) \<mapsto> k)) y = Some i \<longleftrightarrow>
    i < length (swap_in k (last t) t) \<and> sv_name (swap_in k (last t) t ! i) = y"
proof (cases "y = sv_name (last t)")
  case True
  have "i < length t - 1 \<Longrightarrow> sv_name (t ! i) \<noteq> sv_name (last t)" for i
    using shape by (intro distinct_last_nth) (simp_all add: tree_shape_def t_def)
  then show ?thesis using True k(2) by (auto simp: swap_in_nth t_def split: if_splits)
next
  case False
  have n: "k < length t" "sv_name (t ! k) = x" using shape k by (auto simp: tree_shape_def t_def)
  then have last: "last t = t ! (length t - 1)" "last t \<in> set t" by (cases t rule: rev_cases, auto)+
  have "i < length t \<and> sv_name (t ! i) = y \<and> y \<noteq> x \<longleftrightarrow>
      i < length t - 1 \<and> i \<noteq> k \<and> sv_name (t ! i) = y"
    using tree_shape_index [OF shape, of i k, folded t_def] n False last(1)
    by (metis One_nat_def Suc_pred length_pos_if_in_set last(2) less_Suc_eq)
  then show ?thesis using False shape k(2) by (auto simp: tree_shape_def t_def swap_in_nth)
qed

lemma swap_in_distinct:
  assumes shape: "tree_shape sv np" and k: "k + 1 < length (weight_tree sv)"
  defines "t' \<equiv> swap_in k (last (weight_tree sv)) (weight_tree sv)"
  shows "distinct (map sv_weight t')" "distinct (map sv_name t')" "distinct (map sv_left t')"
proof -
  let ?t = "weight_tree sv"
  have "?t \<noteq> []" using k by auto
  then show "distinct (map sv_weight t')" "distinct (map sv_name t')"
    using shape k distinct_swap_last [of "map sv_weight ?t" k] distinct_swap_last [of "map sv_name ?t" k]
      last_map [of ?t sv_weight] last_map [of ?t sv_name]
    by (auto simp: swap_in_weight swap_in_name tree_shape_def t'_def)
  show "distinct (map sv_left t')" using shape by (simp add: tree_shape_def distinct_butlast t'_def)
qed

lemma set_swap_in: "k + 1 < length t \<Longrightarrow> nd \<in> set (swap_in k b t) \<Longrightarrow>
    \<exists>p \<in> set t. \<exists>q \<in> insert b (set t). sv_left nd = sv_left p \<and> sv_weight nd = sv_weight q"
  unfolding in_set_conv_nth length_swap_in
  by (auto simp: swap_in_nth split: if_splits intro!: bexI [OF _ nth_mem])

lemma removed_shape:
  assumes shape: "tree_shape sv np" and k: "server_map sv x = Some k"
  shows "tree_shape (removed x k sv) np"
proof (cases "k + 1 = length (weight_tree sv)")
  case True
  with removed_shape_last [OF assms] show ?thesis .
next
  case False
  let ?t = "weight_tree sv"
  have k': "k + 1 < length ?t" using False assms by (auto simp: tree_shape_def)
  then have "last ?t \<in> set ?t" by (intro last_in_set) auto
  then have "sv_left nd < np \<and> sv_weight nd < np" if "nd \<in> set (swap_in k (last ?t) ?t)" for nd
    using set_swap_in [OF k' that] shape unfolding tree_shape_def by (metis insertE)
  then show ?thesis
    using False swap_in_distinct [OF shape k'] swap_in_map [OF shape k k']
    unfolding tree_shape_def by (simp add: removed_def Let_def)
qed

lemma removed_dom:
  assumes "tree_shape sv np" "server_map sv x = Some k"
  shows "dom (server_map (removed x k sv)) = dom (server_map sv) - {x}"
    and "Suc (length (weight_tree (removed x k sv))) = length (weight_tree sv)"
proof -
  let ?t = "weight_tree sv"
  have k: "k < length ?t" "sv_name (?t ! k) = x" using assms by (auto simp: tree_shape_def)
  then show "Suc (length (weight_tree (removed x k sv))) = length ?t"
    by (simp add: removed_def Let_def)
  show "dom (server_map (removed x k sv)) = dom (server_map sv) - {x}"
  proof (cases "k + 1 = length ?t")
    case False
    then have "k < length ?t - 1" using k(1) by simp
    then have "sv_name (last ?t) \<noteq> x"
      using distinct_last_nth [of sv_name ?t k] assms(1) k by (auto simp: tree_shape_def)
    moreover have "?t \<noteq> []" using k by auto
    then have "server_map sv (sv_name (last ?t)) = Some (length ?t - 1)"
      using assms(1) k by (simp add: tree_shape_def last_conv_nth)
    ultimately show ?thesis using False by (auto simp: removed_def Let_def)
  qed (auto simp: removed_def Let_def)
qed

text \<open>The first phase, when the server stands last: it disables it and takes it out of the sums.\<close>

lemma Remove_last_first:
  assumes ok: "tree_ok sv sh" and x: "server_map sv x = Some k"
    and last: "k + 1 = length (weight_tree sv)" and bound: "wt sv sh k < 2 ^ 63"
  shows "\<exists>sh'. Remove sv x sh = Inr (removed x k sv, sh', 0) \<and> tree_ok (removed x k sv) sh' \<and>
     disabled0 (weight_of (weight_tree sv) k sh') \<and> next_ptr sh' = next_ptr sh \<and>
     (\<forall>i < k. weight_of (weight_tree sv) i sh' = weight_of (weight_tree sv) i sh)"
proof -
  let ?t = "weight_tree sv" and ?ls = "map sv_left (weight_tree sv)"
  let ?a = "sv_weight (?t ! k)"
  let ?w = "(wheap sh ?a)\<lparr>w_base_weight := -1, w_weight := 0\<rparr>"
  let ?sh = "set_weight ?a ?w sh" and ?V = "(wt sv sh)(k := wt sv sh k + - wt sv sh k)"
  have shape: "tree_shape sv (next_ptr sh)" using ok by (simp add: tree_ok_def)
  have len: "length ?t < NO_INDEX" and dl: "distinct ?ls" and dw: "distinct (map sv_weight ?t)"
    using ok by (auto simp: tree_ok_def accounted_def tree_shape_def)
  have ag: "agrees ?ls (butlast ?t)"
    using agrees_self [OF shape] dl by (auto simp: agrees_def nth_butlast map_butlast distinct_butlast)
  have "sums ?ls (wt sv sh) ?sh" using tree_ok_sums [OF ok] by simp
  moreover have "k \<le> 2 * length (butlast ?t)" "k < length ?ls" using last by auto
  ultimately
  obtain sh' where sh': "add_diff (butlast ?t) (- wt sv sh k) k ?sh = Inr sh'"
    "sums ?ls ?V sh'" "wheap sh' = (wheap sh)(?a := ?w)" "next_ptr sh' = next_ptr sh"
    using add_diff_sums [OF ag dl, of k "wt sv sh" ?sh "- wt sv sh k"] by auto
  have "0 \<le> wt sv sh k"
    using tree_ok_vw(2) [OF ok, of k] last by (simp add: good_def live_def wt_def FLAGS_min_weight_def)
  then have "chk64 (- wt sv sh k) = Inr (- wt sv sh k)" using bound by (simp add: in64_def)
  then have run: "Remove sv x sh = Inr (removed x k sv, sh', 0)"
    using x last sh'(1)
    by (simp add: Remove_def Let_def Disable_eq removed_def wt_def weight_of_def)
  have other: "wheap sh' (sv_weight (?t ! i)) = wheap sh (sv_weight (?t ! i))" if "i < k" for i
    using that last dw nth_eq_iff_index_eq [of "map sv_weight ?t" i k] by (simp add: sh'(3))
  have rt: "weight_tree (removed x k sv) = butlast ?t" using last by (simp add: removed_def Let_def)
  have nthm: "map sv_weight (butlast ?t) ! i = sv_weight (?t ! i)" if "i < k" for i
    using that last by (simp add: nth_butlast)
  have "?t \<noteq> []" using last by auto
  then have "sums (butlast ?ls) ?V sh'" by (intro sums_shrink [OF sh'(2)]) (simp_all add: last [symmetric])
  then have s: "sums (butlast ?ls) (\<lambda>i. w_weight (wheap sh' (map sv_weight (butlast ?t) ! i))) sh'"
    by (rule sums_cong) (use last nthm other in \<open>auto simp: wt_def weight_of_def\<close>)
  have gr: "good (wheap sh' a) \<and> at_rest (wheap sh' a)" if "a \<in> sv_weight ` set (butlast ?t)" for a
  proof -
    from that obtain i where i: "i < k" "a = sv_weight (?t ! i)"
      by (auto simp: in_set_conv_nth nth_butlast last [symmetric])
    then have "?t ! i \<in> set ?t" using last by simp
    then show ?thesis using other i ok tree_ok_vw(2) [OF ok, of i] last
      by (auto simp: tree_ok_def weight_of_def)
  qed
  have "accounted (map sv_weight (butlast ?t)) (map sv_left (butlast ?t)) sh'"
  proof (rule accountedI)
    show "good (wheap sh' a) \<and> at_rest (wheap sh' a)" if "a \<in> set (map sv_weight (butlast ?t))" for a
      using gr [of a] that by simp
    show "sums (map sv_left (butlast ?t))
        (\<lambda>i. w_weight (wheap sh' (map sv_weight (butlast ?t) ! i))) sh'"
      using s by (simp add: map_butlast)
  qed (use len dl dw in \<open>simp_all add: map_butlast distinct_butlast\<close>)
  then have "tree_ok (removed x k sv) sh'"
    using gr removed_shape [OF shape x] by (simp add: tree_ok_def rt sh'(4))
  with run show ?thesis
    using sh' other last
    by (auto simp: weight_of_def disabled0_Disable)
qed

text \<open>The second phase finds the weight disabled and only drops the node.\<close>

lemma Remove_last_second:
  assumes "server_map sv x = Some k" "k + 1 = length (weight_tree sv)"
    and "disabled0 (weight_of (weight_tree sv) k sh)"
  shows "Remove sv x sh = Inr (removed x k sv, sh, 0)"
proof -
  have "Disable (wheap sh (sv_weight (weight_tree sv ! k))) =
      (wheap sh (sv_weight (weight_tree sv ! k)), 0)"
    using Disable_twice assms(3) by (simp add: weight_of_def)
  then show ?thesis
    using assms(1,2) by (simp add: Remove_def Let_def add_diff_def removed_def in64_def)
qed

section \<open>Removing a node in the middle\<close>

text \<open>
  Between the two phases: the last node's weight stands at its old and its new position, marked
  with the old one, and the removed weight is disabled.
\<close>

definition swapped :: "servers \<Rightarrow> nat \<Rightarrow> shared \<Rightarrow> bool" where
  "swapped sv k sh \<longleftrightarrow>
     (let t = weight_tree sv; b = sv_weight (last t) in
      accounted ((map sv_weight t)[k := b]) (map sv_left t) sh \<and>
      disabled0 (weight_of t k sh) \<and> w_old_index (wheap sh b) = length t - 1 \<and>
      (\<forall>i < length t - 1. i \<noteq> k \<longrightarrow> at_rest (weight_of t i sh)))"

lemma MarkOld_eq:
  "MarkOld i w = (w\<lparr>w_old_weight := w_weight w, w_old_diff_sum := 0, w_old_index := i\<rparr>, w_weight w)"
  by (simp add: MarkOld_def Let_def)

lemma ClearOld_eq:
  "ClearOld w = (w\<lparr>w_old_diff_sum := 0, w_old_index := NO_INDEX, w_old_weight := 0\<rparr>,
     (w_old_weight w, w_old_diff_sum w))"
  by (simp add: ClearOld_def Let_def)

lemma good_old [simp]:
  "good (w\<lparr>w_old_weight := a, w_old_diff_sum := b, w_old_index := i\<rparr>) = good w"
  "good (w\<lparr>w_old_diff_sum := b, w_old_index := i, w_old_weight := a\<rparr>) = good w"
  by (simp_all add: good_def live_def weight_inv_def)

lemma weights_differ:
  assumes "tree_shape sv np" "i < length (weight_tree sv)" "j < length (weight_tree sv)" "i \<noteq> j"
  shows "sv_weight (weight_tree sv ! i) \<noteq> sv_weight (weight_tree sv ! j)"
  using assms nth_eq_iff_index_eq [of "map sv_weight (weight_tree sv)" i j]
  by (auto simp: tree_shape_def)

lemma agrees_swap:
  assumes "tree_shape sv np"
  shows "agrees (map sv_left (weight_tree sv)) (swap_in k b (weight_tree sv))"
proof -
  let ?t = "weight_tree sv" and ?t' = "swap_in k b (weight_tree sv)"
  have d: "distinct (map sv_left ?t)" using assms by (simp add: tree_shape_def)
  have "sv_left (?t' ! p) = map sv_left ?t ! p" if "p < length ?t - 1" for p
    using that by (auto simp: swap_in_nth)
  with d show ?thesis by (simp add: agrees_def distinct_butlast)
qed

text \<open>What the two addresses of the swap look like, for the proofs below.\<close>

lemma swap_addresses:
  assumes "tree_shape sv np" "k + 1 < length (weight_tree sv)"
  defines "t \<equiv> weight_tree sv" and "b \<equiv> sv_weight (last (weight_tree sv))"
  shows "b = sv_weight (t ! (length t - 1))" "sv_weight (t ! k) \<noteq> b"
    and "\<And>i. i < length t - 1 \<Longrightarrow> sv_weight (t ! i) \<noteq> b"
    and "\<And>i. i < length t \<Longrightarrow> i \<noteq> k \<Longrightarrow> sv_weight (t ! i) \<noteq> sv_weight (t ! k)"
    and "\<And>i. i < length t \<Longrightarrow> (map sv_weight t)[k := b] ! i = (if i = k then b else sv_weight (t ! i))"
proof -
  have ne: "t \<noteq> []" using assms(2) by (auto simp: t_def)
  show b: "b = sv_weight (t ! (length t - 1))" using ne by (simp add: b_def t_def last_conv_nth)
  show diff: "sv_weight (t ! i) \<noteq> b" if "i < length t - 1" for i
    unfolding b t_def by (rule weights_differ [OF assms(1)]) (use that t_def in auto)
  show "sv_weight (t ! k) \<noteq> b" using diff [of k] assms(2) by (simp add: t_def)
  show "sv_weight (t ! i) \<noteq> sv_weight (t ! k)" if "i < length t" "i \<noteq> k" for i
    unfolding t_def by (rule weights_differ [OF assms(1)]) (use that assms(2) t_def in auto)
  show "(map sv_weight t)[k := b] ! i = (if i = k then b else sv_weight (t ! i))"
    if "i < length t" for i
    using that by (simp add: nth_list_update)
qed

text \<open>
  The weights after the first phase of a removal that moves the last node: the removed weight is
  disabled, and the last one is marked with its old position and its weight there.
\<close>

definition marked_heap :: "servers \<Rightarrow> nat \<Rightarrow> shared \<Rightarrow> nat \<Rightarrow> weight" where
  "marked_heap sv k sh = (let t = weight_tree sv; a = sv_weight (t ! k); b = sv_weight (last t) in
     (wheap sh)(a := (wheap sh a)\<lparr>w_base_weight := -1, w_weight := 0\<rparr>,
       b := (wheap sh b)\<lparr>w_old_weight := w_weight (wheap sh b), w_old_diff_sum := 0,
         w_old_index := length t - 1\<rparr>))"

lemma marked_heap_at:
  assumes "tree_shape sv np" "k + 1 < length (weight_tree sv)" "i < length (weight_tree sv)"
  defines "t \<equiv> weight_tree sv" and "n \<equiv> length (weight_tree sv) - 1"
  shows "marked_heap sv k sh ((map sv_weight t)[k := sv_weight (last t)] ! i) =
     (let w = wheap sh (sv_weight (t ! n)) in
      if i = k \<or> i = n then w\<lparr>w_old_weight := w_weight w, w_old_diff_sum := 0, w_old_index := n\<rparr>
      else wheap sh (sv_weight (t ! i)))"
proof -
  note ad = swap_addresses [OF assms(1,2), folded t_def, folded n_def]
  have "i < n \<or> i = n" using assms(3) by (auto simp: n_def)
  then show ?thesis
    using ad(3) [of i] ad(4) [of i] ad(5) [of i] ad(1) assms(2,3)
    by (auto simp: marked_heap_def Let_def t_def n_def)
qed

lemma marked_heap_weight:
  assumes "tree_shape sv np" "k + 1 < length (weight_tree sv)"
  shows "i < length (weight_tree sv) \<Longrightarrow> i \<noteq> k \<Longrightarrow>
      w_weight (marked_heap sv k sh (sv_weight (weight_tree sv ! i))) = wt sv sh i"
    and "disabled0 (marked_heap sv k sh (sv_weight (weight_tree sv ! k)))"
    and "w_old_index (marked_heap sv k sh (sv_weight (last (weight_tree sv)))) = length (weight_tree sv) - 1"
    and "w_old_diff_sum (marked_heap sv k sh (sv_weight (last (weight_tree sv)))) = 0"
    and "w_old_weight (marked_heap sv k sh (sv_weight (last (weight_tree sv)))) =
      wt sv sh (length (weight_tree sv) - 1)"
  using swap_addresses(2) [OF assms] swap_addresses(4) [OF assms, of i] swap_addresses(1) [OF assms]
  by (auto simp: marked_heap_def Let_def weight_of_def wt_def disabled0_Disable)

lemma tree_ok_weight:
  assumes "tree_ok sv sh" "i < length (weight_tree sv)"
  shows "0 < wt sv sh i" "good (wheap sh (sv_weight (weight_tree sv ! i)))"
  using tree_ok_vw(2) [OF assms] by (simp_all add: good_def live_def wt_def weight_of_def FLAGS_min_weight_def)

lemma Remove_swap_run:
  assumes ok: "tree_ok sv sh" and x: "server_map sv x = Some k"
    and k: "k + 1 < length (weight_tree sv)"
    and bound: "\<And>i. i < length (weight_tree sv) \<Longrightarrow> wt sv sh i < 2 ^ 63"
  shows "\<exists>sh'. Remove sv x sh = Inr (removed x k sv, sh', 0) \<and>
     sums (map sv_left (weight_tree sv)) ((wt sv sh)(k := wt sv sh (length (weight_tree sv) - 1))) sh' \<and>
     wheap sh' = marked_heap sv k sh \<and> next_ptr sh' = next_ptr sh"
proof -
  define t where "t = weight_tree sv"
  define b where "b = sv_weight (last (weight_tree sv))"
  define a where "a = sv_weight (t ! k)"
  define n where "n = length t - 1"
  let ?ls = "map sv_left t"
  let ?wd = "(wheap sh a)\<lparr>w_base_weight := -1, w_weight := 0\<rparr>"
  let ?wo = "(wheap sh b)\<lparr>w_old_weight := w_weight (wheap sh b), w_old_diff_sum := 0,
      w_old_index := n\<rparr>"
  let ?sh = "set_weight b ?wo (set_weight a ?wd sh)" and ?d = "wt sv sh n - wt sv sh k"
  have shape: "tree_shape sv (next_ptr sh)" using ok by (simp add: tree_ok_def)
  have dl: "distinct ?ls" using ok by (simp add: tree_ok_def accounted_def t_def)
  note ad = swap_addresses [OF shape k, folded t_def b_def]
  have kn: "k < n" "k < length t" "n < length t" using k by (auto simp: n_def t_def)
  have ab: "a \<noteq> b" using ad(2) by (simp add: a_def)
  have wb: "w_weight (wheap sh b) = wt sv sh n" using ad(1) by (simp add: wt_def weight_of_def n_def t_def)
  have pos: "0 < wt sv sh k" "0 < wt sv sh n"
    using tree_ok_weight(1) [OF ok] kn(2,3) by (simp_all add: t_def)
  have chk: "chk64 ?d = Inr ?d"
    using pos bound [of k] bound [of n] kn by (simp add: in64_def t_def)
  have "sums ?ls (wt sv sh) ?sh" using tree_ok_sums [OF ok] by (simp add: t_def)
  moreover have "k \<le> 2 * length (swap_in k (last t) t)" "k < length ?ls" using kn by (auto simp: n_def)
  ultimately obtain sh' where sh': "add_diff (swap_in k (last t) t) ?d k ?sh = Inr sh'"
    "sums ?ls ((wt sv sh)(k := wt sv sh k + ?d)) sh'" "wheap sh' = (wheap sh)(a := ?wd, b := ?wo)"
    "next_ptr sh' = next_ptr sh"
    using add_diff_sums [OF agrees_swap [OF shape, of k "last t", folded t_def] dl, of k "wt sv sh" ?sh ?d]
    by auto
  have "Suc k \<noteq> length (weight_tree sv)" "wt sv sh k \<noteq> 0" using k pos by simp_all
  then have "Remove sv x sh = Inr (removed x k sv, sh', 0)"
    using x chk sh'(1) ab kn(2) wb
    by (simp add: Remove_def Let_def Disable_eq MarkOld_eq removed_def wt_def weight_of_def
        t_def b_def a_def n_def)
  then show ?thesis
    using sh' by (intro exI [of _ sh']) (simp add: marked_heap_def Let_def t_def a_def b_def n_def)
qed

lemma marked_accounted:
  assumes ok: "tree_ok sv sh" and k: "k + 1 < length (weight_tree sv)"
    and s: "sums (map sv_left (weight_tree sv)) ((wt sv sh)(k := wt sv sh (length (weight_tree sv) - 1))) sh'"
    and h: "wheap sh' = marked_heap sv k sh"
  shows "accounted ((map sv_weight (weight_tree sv))[k := sv_weight (last (weight_tree sv))])
     (map sv_left (weight_tree sv)) sh'"
proof -
  let ?t = "weight_tree sv" and ?n = "length (weight_tree sv) - 1"
  let ?ls = "map sv_left ?t" and ?as = "(map sv_weight ?t)[k := sv_weight (last ?t)]"
  have shape: "tree_shape sv (next_ptr sh)" using ok by (simp add: tree_ok_def)
  have n: "?n < length ?t" using k by simp
  have w: "wheap sh' (?as ! i) = (let w = wheap sh (sv_weight (?t ! ?n)) in
      if i = k \<or> i = ?n then w\<lparr>w_old_weight := w_weight w, w_old_diff_sum := 0, w_old_index := ?n\<rparr>
      else wheap sh (sv_weight (?t ! i)))" if "i < length ?t" for i
    using marked_heap_at [OF shape k that] by (simp add: h)
  have "sums ?ls (\<lambda>i. vw i (wheap sh' (?as ! i))) sh'"
  proof (rule sums_cong [OF s])
    fix i assume "i < length ?ls"
    then show "((wt sv sh)(k := wt sv sh ?n)) i = vw i (wheap sh' (?as ! i))"
      using w [of i] tree_ok_vw(1) [OF ok, of i] k by (auto simp: Let_def vw_def wt_def weight_of_def)
  qed
  moreover have "w_old_index (wheap sh' (?as ! i)) = i \<or> w_old_index (wheap sh' (?as ! i)) = j"
    if ij: "i < length ?t" "j < length ?t" "?as ! i = ?as ! j" "i \<noteq> j" for i j
  proof -
    note ad = swap_addresses [OF shape k]
    have "\<And>m. m < length ?t \<Longrightarrow> \<not> m < ?n \<Longrightarrow> m = ?n" by auto
    then have "i = k \<and> j = ?n \<or> i = ?n \<and> j = k"
      using ij ad(3) [of i] ad(3) [of j] ad(5) [of i] ad(5) [of j] weights_differ [OF shape, of i j]
      by (auto split: if_splits)
    then show ?thesis using w [OF ij(1)] by (auto simp: Let_def)
  qed
  moreover have "good (wheap sh' y)" if y: "y \<in> set ?as" for y
  proof -
    obtain i where "i < length ?t" "y = ?as ! i" using y unfolding in_set_conv_nth by auto
    then show ?thesis using w [of i] tree_ok_weight(2) [OF ok] n by (simp add: Let_def)
  qed
  ultimately show ?thesis using ok unfolding accounted_def tree_ok_def by simp
qed

lemma Remove_swap_first:
  assumes ok: "tree_ok sv sh" and x: "server_map sv x = Some k"
    and k: "k + 1 < length (weight_tree sv)"
    and bound: "\<And>i. i < length (weight_tree sv) \<Longrightarrow> wt sv sh i < 2 ^ 63"
  shows "\<exists>sh'. Remove sv x sh = Inr (removed x k sv, sh', 0) \<and> swapped sv k sh' \<and>
     next_ptr sh' = next_ptr sh \<and>
     (\<forall>i < length (weight_tree sv). i \<noteq> k \<longrightarrow>
        w_weight (weight_of (weight_tree sv) i sh') = wt sv sh i) \<and>
     w_old_diff_sum (wheap sh' (sv_weight (last (weight_tree sv)))) = 0 \<and>
     w_old_weight (wheap sh' (sv_weight (last (weight_tree sv)))) =
       wt sv sh (length (weight_tree sv) - 1)"
proof -
  let ?t = "weight_tree sv"
  have shape: "tree_shape sv (next_ptr sh)" using ok by (simp add: tree_ok_def)
  obtain sh' where sh': "Remove sv x sh = Inr (removed x k sv, sh', 0)"
    "sums (map sv_left ?t) ((wt sv sh)(k := wt sv sh (length ?t - 1))) sh'"
    "wheap sh' = marked_heap sv k sh" "next_ptr sh' = next_ptr sh"
    using Remove_swap_run [OF assms] by blast
  note mw = marked_heap_weight [OF shape k]
  have "at_rest (weight_of ?t i sh')" if i: "i < length ?t - 1" "i \<noteq> k" for i
  proof -
    have "weight_of ?t i sh' = weight_of ?t i sh"
      using marked_heap_at [OF shape k, of i] swap_addresses(5) [OF shape k, of i] i
      by (simp add: weight_of_def sh'(3))
    then show ?thesis using ok i(1) by (simp add: tree_ok_def weight_of_def)
  qed
  then have "swapped sv k sh'"
    using marked_accounted [OF ok k sh'(2,3)] mw by (simp add: swapped_def Let_def weight_of_def sh'(3))
  then show ?thesis using sh'(1,4) mw by (intro exI [of _ sh']) (simp add: weight_of_def sh'(3))
qed

text \<open>Both buffers are views of the marked state, and readers keep it.\<close>

lemma swapped_views:
  assumes "tree_shape sv np" "k + 1 < length (weight_tree sv)" "swapped sv k sh"
  defines "t \<equiv> weight_tree sv"
  shows "view ((map sv_weight t)[k := sv_weight (last t)]) (map sv_left t) sh t"
    and "view ((map sv_weight t)[k := sv_weight (last t)]) (map sv_left t) sh (swap_in k (last t) t)"
proof -
  have "disabled (weight_of t k sh)"
    using assms(3) disabled0_disabled by (auto simp: swapped_def Let_def t_def)
  then show "view ((map sv_weight t)[k := sv_weight (last t)]) (map sv_left t) sh t"
    using agrees_self [OF assms(1)] nth_list_update_neq [of k _ "map sv_weight (weight_tree sv)"]
    unfolding view_def t_def by (metis length_list_update length_map nth_map)
  show "view ((map sv_weight t)[k := sv_weight (last t)]) (map sv_left t) sh (swap_in k (last t) t)"
    using agrees_swap [OF assms(1), of k "last t"] assms(2)
    by (auto simp: view_def t_def nth_list_update swap_in_nth)
qed

lemma frames_at_rest:
  "frames ls sh sh' \<Longrightarrow> at_rest (wheap sh a) \<Longrightarrow> at_rest (wheap sh' a)"
  by (simp add: frames_def at_rest_def)

lemma frames_disabled0:
  "frames ls sh sh' \<Longrightarrow> disabled0 (wheap sh a) \<Longrightarrow> disabled0 (wheap sh' a)"
  using disabled0_disabled [of "wheap sh a"] by (simp add: frames_def)

lemma swapped_run:
  assumes "tree_shape sv np" "k + 1 < length (weight_tree sv)" "swapped sv k sh"
    and "\<And>b. trees b = weight_tree sv \<or> trees b = weight_tree (removed x k sv)"
    and "run_visits trees vs sh = Inr sh'"
  shows "swapped sv k sh' \<and> next_ptr sh' = next_ptr sh"
proof -
  let ?t = "weight_tree sv"
  let ?as = "(map sv_weight ?t)[k := sv_weight (last ?t)]" and ?ls = "map sv_left ?t"
  have acc: "accounted ?as ?ls sh" using assms(3) by (simp add: swapped_def Let_def)
  have "weight_tree (removed x k sv) = swap_in k (last ?t) ?t"
    using assms(2) by (simp add: removed_def Let_def)
  with assms(4) swapped_views [OF assms(1-3)] have "view ?as ?ls sh (trees b)" for b by metis
  from run_visits_accounted [OF acc this assms(5)] have
    a: "accounted ?as ?ls sh'" and f: "frames ?ls sh sh'" by auto
  have "w_old_index (wheap sh' (sv_weight (last ?t))) = length ?t - 1"
    using f assms(3) by (simp add: frames_def swapped_def Let_def)
  with a assms(3) frames_at_rest [OF f] frames_disabled0 [OF f] f show ?thesis
    by (auto simp: swapped_def Let_def weight_of_def frames_def)
qed

text \<open>
  The second phase: the old position's virtual weight leaves the sums, what readers of the old
  buffer changed moves to the new position, and the marks are cleared.
\<close>

definition cleared :: "weight \<Rightarrow> weight" where
  "cleared p = p\<lparr>w_old_diff_sum := 0, w_old_index := NO_INDEX, w_old_weight := 0\<rparr>"

lemma swapped_virtual:
  assumes "tree_shape sv np" "k + 1 < length (weight_tree sv)" "swapped sv k sh"
  defines "t \<equiv> weight_tree sv" and "p \<equiv> wheap sh (sv_weight (last (weight_tree sv)))"
  shows "vw k (wheap sh ((map sv_weight t)[k := sv_weight (last t)] ! k)) = w_weight p - w_old_diff_sum p"
    and "vw (length t - 1) (wheap sh ((map sv_weight t)[k := sv_weight (last t)] ! (length t - 1))) =
       w_old_weight p + w_old_diff_sum p"
  using assms(2,3) swap_addresses(1) [OF assms(1,2)] swap_addresses(5) [OF assms(1,2), of k]
    swap_addresses(5) [OF assms(1,2), of "length t - 1"]
  by (auto simp: vw_def swapped_def Let_def t_def p_def)

lemma Remove_swap_rerun:
  assumes shape: "tree_shape sv (next_ptr sh)" and x: "server_map sv x = Some k"
    and k: "k + 1 < length (weight_tree sv)" and sw: "swapped sv k sh"
  defines "t \<equiv> weight_tree sv" and "b \<equiv> sv_weight (last (weight_tree sv))"
  defines "V \<equiv> \<lambda>i. vw i (wheap sh ((map sv_weight t)[k := b] ! i))" and "p \<equiv> wheap sh b"
  assumes fits: "in64 (- w_old_weight p)" "in64 (- w_old_weight p - w_old_diff_sum p)"
  shows "\<exists>sh'. Remove sv x sh = Inr (removed x k sv, sh', 0) \<and>
     sums (butlast (map sv_left t)) (V(k := w_weight p)) sh' \<and>
     wheap sh' = (wheap sh)(b := cleared p) \<and> next_ptr sh' = next_ptr sh"
proof -
  define n where "n = length t - 1"
  let ?ls = "map sv_left t" and ?t' = "swap_in k (last t) t" and ?sh = "set_weight b (cleared p) sh"
  let ?od = "- w_old_weight p - w_old_diff_sum p"
  have kn: "k < n" "k < length t" "n < length t" "length t = Suc n" using k by (auto simp: n_def t_def)
  have acc: "accounted ((map sv_weight t)[k := b]) ?ls sh" and dis: "disabled0 (wheap sh (sv_weight (t ! k)))"
    and oi: "w_old_index p = n"
    using sw by (auto simp: swapped_def Let_def t_def b_def n_def weight_of_def p_def)
  have dl: "distinct ?ls" and s0: "lsums ?ls V (lheap ?sh)" and tot: "total_weight sh = s64 (\<Sum>i < length ?ls. V i)"
    using acc by (simp_all add: accounted_def sums_def V_def)
  have V: "V k = w_weight p - w_old_diff_sum p" "V n = w_old_weight p + w_old_diff_sum p"
    using swapped_virtual [OF shape k sw] by (simp_all add: V_def p_def b_def t_def n_def)
  note ag = agrees_swap [OF shape, of k "last t", folded t_def]
  from climb_sums [OF ag dl _ _ s0, of k "w_old_diff_sum p"] kn V(1) obtain lh1 where
    lh1: "climb ?t' (w_old_diff_sum p) k ?sh = Inr (?sh\<lparr>lheap := lh1\<rparr>)" "lsums ?ls (V(k := w_weight p)) lh1"
    by auto
  let ?V = "V(k := w_weight p)" and ?sh1 = "?sh\<lparr>lheap := lh1\<rparr>"
  have "lsums ?ls ?V (lheap ?sh1)" "n \<le> 2 * length ?t'" "n < length ?ls" using lh1(2) kn by auto
  from climb_sums [OF ag dl this(2,3,1), of ?od] V(2) kn(1) obtain lh2 where
    lh2: "climb ?t' ?od n ?sh1 = Inr (?sh1\<lparr>lheap := lh2\<rparr>)" "lsums ?ls (?V(n := 0)) lh2" by auto
  let ?sh2 = "(?sh1\<lparr>lheap := lh2\<rparr>)\<lparr>total_weight := fetch_add (total_weight sh) (- w_old_weight p)\<rparr>"
  have nk: "Suc k \<noteq> length (weight_tree sv)" "k < length (weight_tree sv)" "length ?t' = n"
    using k by (simp_all add: n_def)
  have run: "Remove sv x sh = Inr (removed x k sv, ?sh2, 0)"
    using x nk fits lh1(1) lh2(1) Disable_twice [OF dis]
    by (simp add: Remove_def Let_def ClearOld_eq removed_def t_def b_def p_def cleared_def)
  have "(\<Sum>i < length ?ls. (?V(n := ?V n + ?od)) i) = (\<Sum>i < length ?ls. ?V i) + ?od"
    using kn(3) by (subst sum_fun_upd_add) simp_all
  moreover have "(\<Sum>i < length ?ls. (V(k := V k + w_old_diff_sum p)) i) =
      (\<Sum>i < length ?ls. V i) + w_old_diff_sum p"
    using kn(2) by (subst sum_fun_upd_add) simp_all
  ultimately have "(\<Sum>i < length ?ls. (?V(n := 0)) i) = (\<Sum>i < length ?ls. V i) + - w_old_weight p"
    using V kn(1) by simp
  then have "sums ?ls (?V(n := 0)) ?sh2" using lh2(2) tot by (simp add: sums_def fetch_add_def)
  moreover have "?ls \<noteq> []" using kn by auto
  ultimately have "sums (butlast ?ls) (?V(n := 0)) ?sh2" by (intro sums_shrink) (simp_all add: kn(4))
  then have "sums (butlast ?ls) ?V ?sh2" by (rule sums_cong) (simp add: n_def)
  with run show ?thesis by (intro exI [of _ ?sh2]) simp
qed

lemma cleared_tree_ok:
  assumes shape: "tree_shape sv (next_ptr sh)" and x: "server_map sv x = Some k"
    and k: "k + 1 < length (weight_tree sv)" and sw: "swapped sv k sh"
  defines "t \<equiv> weight_tree sv" and "b \<equiv> sv_weight (last (weight_tree sv))"
  defines "V \<equiv> \<lambda>i. vw i (wheap sh ((map sv_weight t)[k := b] ! i))" and "p \<equiv> wheap sh b"
  assumes s: "sums (butlast (map sv_left t)) (V(k := w_weight p)) sh'"
    and h: "wheap sh' = (wheap sh)(b := cleared p)" and np: "next_ptr sh' = next_ptr sh"
  shows "tree_ok (removed x k sv) sh'"
proof -
  define n where "n = length t - 1"
  let ?as = "(map sv_weight t)[k := b]" and ?t' = "swap_in k (last t) t"
  note ad = swap_addresses [OF shape k, folded t_def b_def]
  have kn: "k < n" "k < length t" "length ?t' = n" "length t = Suc n" using k by (auto simp: n_def t_def)
  have rest: "at_rest (wheap sh (sv_weight (t ! i)))" if "i < n" "i \<noteq> k" for i
    using that sw by (simp add: swapped_def Let_def t_def n_def weight_of_def)
  have acc: "accounted ?as (map sv_left t) sh" using sw by (simp add: swapped_def Let_def t_def b_def)
  then have len: "length t < NO_INDEX" by (simp add: accounted_def)
  have gd: "good (wheap sh (?as ! i))" if "i < length t" for i
    using acc that nth_mem [of i ?as] by (simp add: accounted_def)
  have w: "wheap sh' (map sv_weight ?t' ! i) = (if i = k then cleared p else wheap sh (sv_weight (t ! i)))"
    if "i < n" for i
    using that ad(3) [of i] kn by (simp add: swap_in_nth n_def b_def t_def h)
  have "sums (butlast (map sv_left t)) (\<lambda>i. w_weight (wheap sh' (map sv_weight ?t' ! i))) sh'"
  proof (rule sums_cong [OF s])
    fix i assume "i < length (butlast (map sv_left t))"
    then have i: "i < n" by (simp add: n_def)
    then have "i < NO_INDEX" using len kn by simp
    then show "(V(k := w_weight p)) i = w_weight (wheap sh' (map sv_weight ?t' ! i))"
      unfolding w [OF i] using i rest [of i] ad(5) [of i] kn
      by (cases "i = k") (simp_all add: V_def vw_def at_rest_def cleared_def)
  qed
  moreover have gr: "good (wheap sh' y) \<and> at_rest (wheap sh' y)" if "y \<in> set (map sv_weight ?t')" for y
  proof -
    from that kn(3) obtain i where i: "i < n" "y = map sv_weight ?t' ! i"
      by (metis in_set_conv_nth length_map)
    then show ?thesis
      unfolding i(2) w [OF i(1)] using gd [of i] gd [of k] rest [of i] ad(5) [of i] ad(5) [of k] kn
      by (auto simp: p_def at_rest_def cleared_def)
  qed
  moreover have shape': "tree_shape (removed x k sv) (next_ptr sh)" by (rule removed_shape [OF shape x])
  moreover have rt: "weight_tree (removed x k sv) = ?t'" using k by (simp add: removed_def Let_def t_def)
  ultimately have "accounted (map sv_weight ?t') (map sv_left ?t') sh'"
    using len kn by (intro accountedI) (simp_all add: tree_shape_def)
  then show ?thesis using gr shape' by (simp add: tree_ok_def rt np)
qed

lemma Remove_swap_second:
  assumes shape: "tree_shape sv (next_ptr sh)" and x: "server_map sv x = Some k"
    and k: "k + 1 < length (weight_tree sv)" and sw: "swapped sv k sh"
  defines "p \<equiv> wheap sh (sv_weight (last (weight_tree sv)))"
  assumes fits: "in64 (- w_old_weight p)" "in64 (- w_old_weight p - w_old_diff_sum p)"
  shows "\<exists>sh'. Remove sv x sh = Inr (removed x k sv, sh', 0) \<and> tree_ok (removed x k sv) sh' \<and>
     next_ptr sh' = next_ptr sh \<and>
     (\<forall>a. w_weight (wheap sh' a) = w_weight (wheap sh a))"
  using Remove_swap_rerun [OF shape x k sw fits [unfolded p_def]] cleared_tree_ok [OF shape x k sw]
  by (fastforce simp: cleared_def)

section \<open>Adding a node\<close>

definition added :: "server_name \<Rightarrow> nat \<Rightarrow> servers \<Rightarrow> servers" where
  "added x a sv = sv\<lparr>server_map := (server_map sv)(x \<mapsto> length (weight_tree sv)),
     weight_tree := weight_tree sv @ [\<lparr>sv_name = x, sv_left = a, sv_weight = a\<rparr>]\<rparr>"

lemma added_shape:
  assumes "tree_shape sv np" "server_map sv x = None"
  shows "tree_shape (added x np sv) (Suc np)"
proof -
  let ?t = "weight_tree sv"
  have "x \<notin> sv_name ` set ?t"
  proof
    assume "x \<in> sv_name ` set ?t"
    then obtain i where "i < length ?t" "sv_name (?t ! i) = x" by (auto simp: in_set_conv_nth)
    with assms show False unfolding tree_shape_def by (metis option.distinct(1))
  qed
  moreover have "np \<notin> sv_left ` set ?t" "np \<notin> sv_weight ` set ?t"
    using assms(1) by (auto simp: tree_shape_def)
  moreover have "server_map (added x np sv) y = Some i \<longleftrightarrow>
      i < Suc (length ?t) \<and> sv_name (weight_tree (added x np sv) ! i) = y" for y i
  proof (cases "i = length ?t")
    case True
    have "server_map sv y \<noteq> Some (length ?t)" using assms(1) by (simp add: tree_shape_def)
    then show ?thesis using True by (simp add: added_def)
  next
    case False
    have "server_map sv y = Some i \<longleftrightarrow> i < length ?t \<and> sv_name (?t ! i) = y"
      using assms(1) by (simp add: tree_shape_def)
    moreover have "i < length ?t \<Longrightarrow> sv_name (?t ! i) \<noteq> x"
      using \<open>x \<notin> sv_name ` set ?t\<close> by (metis image_eqI nth_mem)
    ultimately show ?thesis using False by (auto simp: added_def nth_append)
  qed
  ultimately show ?thesis
    using assms(1) unfolding tree_shape_def by (auto simp: added_def less_Suc_eq)
qed

lemma good_new: "FLAGS_min_weight \<le> w \<Longrightarrow> good (new_weight now w) \<and> at_rest (new_weight now w)"
  using new_weight_inv [of now w]
  by (simp add: good_def live_def new_weight_def at_rest_def FLAGS_min_weight_def)

lemma Add_first:
  assumes ok: "tree_ok sv sh" and x: "server_map sv x = None" "server_map fg x = None"
    and w: "FLAGS_min_weight \<le> inital_weight (length (weight_tree sv)) sh"
    and len: "Suc (length (weight_tree sv)) < NO_INDEX"
  shows "\<exists>sh'. Add sv fg x now sh = Inr (added x (next_ptr sh) sv, sh', 0) \<and>
     tree_ok (added x (next_ptr sh) sv) sh' \<and> next_ptr sh' = Suc (next_ptr sh) \<and>
     (\<forall>i < length (weight_tree sv). wt (added x (next_ptr sh) sv) sh' i = wt sv sh i) \<and>
     wt (added x (next_ptr sh) sv) sh' (length (weight_tree sv)) =
       inital_weight (length (weight_tree sv)) sh"
proof -
  let ?t = "weight_tree sv" and ?a = "next_ptr sh" and ?n = "length (weight_tree sv)"
  let ?iw = "inital_weight ?n sh" and ?sv = "added x (next_ptr sh) sv"
  let ?ls = "map sv_left ?t" and ?t' = "weight_tree ?sv"
  let ?sh = "sh\<lparr>wheap := (wheap sh)(?a := new_weight now ?iw), lheap := (lheap sh)(?a := 0),
      next_ptr := ?a + 1\<rparr>"
  let ?V = "\<lambda>i. if i < ?n then wt sv sh i else 0"
  have shape: "tree_shape sv ?a" using ok by (simp add: tree_ok_def)
  note shape' = added_shape [OF shape x(1)]
  have fresh: "?a \<notin> set ?ls" "\<And>nd. nd \<in> set ?t \<Longrightarrow> sv_weight nd \<noteq> ?a"
    using shape by (auto simp: tree_shape_def)
  have t': "?t' = ?t @ [\<lparr>sv_name = x, sv_left = ?a, sv_weight = ?a\<rparr>]" by (simp add: added_def)
  have ls': "map sv_left ?t' = ?ls @ [?a]" by (simp add: t')
  have "sums ?ls ?V sh" by (rule sums_cong [OF tree_ok_sums [OF ok]]) simp
  moreover have "lheap ?sh (?ls ! p) = lheap sh (?ls ! p)" if "p < length ?ls" for p
    using fresh(1) nth_mem [OF that] by auto
  ultimately have "sums ?ls ?V ?sh" by (simp add: sums_def lsums_def)
  then have s1: "sums (map sv_left ?t') ?V ?sh" unfolding ls' by (rule sums_extend) simp_all
  have ag: "agrees (map sv_left ?t') ?t'" and dl: "distinct (map sv_left ?t')"
    using agrees_self [OF shape'] shape' by (simp_all add: tree_shape_def)
  from add_diff_sums [OF ag dl _ _ s1, of ?n ?iw] obtain sh' where
    sh': "add_diff ?t' ?iw ?n ?sh = Inr sh'" "sums (map sv_left ?t') (?V(?n := ?V ?n + ?iw)) sh'"
      "wheap sh' = wheap ?sh" "next_ptr sh' = Suc ?a" by (auto simp: t')
  have run: "Add sv fg x now sh = Inr (?sv, sh', 0)"
    using x(2) sh'(1)
    by (simp add: Add_def new_server_info_def Let_def added_def volatile_value_def new_weight_def)
  have wts: "wt ?sv sh' i = (?V(?n := ?V ?n + ?iw)) i" if "i < length ?t'" for i
    using that fresh(2) [of "?t ! i"]
    by (auto simp: wt_def weight_of_def sh'(3) t' nth_append new_weight_def)
  have "sums (map sv_left ?t') (\<lambda>i. w_weight (wheap sh' (map sv_weight ?t' ! i))) sh'"
    by (rule sums_cong [OF sh'(2)]) (use wts in \<open>simp add: wt_def weight_of_def\<close>)
  moreover have gr: "good (wheap sh' (sv_weight nd)) \<and> at_rest (wheap sh' (sv_weight nd))"
    if nd: "nd \<in> set ?t'" for nd
  proof (cases "nd \<in> set ?t")
    case True
    then obtain i where "i < ?n" "nd = ?t ! i" by (auto simp: in_set_conv_nth)
    with tree_ok_vw(2) [OF ok, of i] fresh(2) [OF True] ok True show ?thesis
      by (simp add: sh'(3) tree_ok_def weight_of_def)
  next
    case False
    then show ?thesis using nd good_new [OF w] by (simp add: t' sh'(3))
  qed
  ultimately have "accounted (map sv_weight ?t') (map sv_left ?t') sh'"
    using len shape' dl gr by (intro accountedI) (fastforce simp: tree_shape_def t')+
  then have "tree_ok ?sv sh'" using gr shape' sh'(4) by (simp add: tree_ok_def)
  with run sh'(4) wts show ?thesis by (intro exI [of _ sh']) (simp add: t')
qed

lemma Add_second:
  "Add sv (added x a sv) x now sh = Inr (added x a sv, sh, 0)"
  by (simp add: Add_def added_def)

text \<open>With an exact total the initial weight is the mean of the others.\<close>

lemma inital_weight_mean:
  assumes ok: "tree_ok sv sh" and total: "(\<Sum>i < length (weight_tree sv). wt sv sh i) < 2 ^ 63"
  defines "n \<equiv> length (weight_tree sv)"
  shows "FLAGS_min_weight \<le> inital_weight n sh" and "Suc n < NO_INDEX"
    and "n \<noteq> 0 \<Longrightarrow> inital_weight n sh = (\<Sum>i < n. wt sv sh i) div int n"
proof -
  let ?S = "\<Sum>i < n. wt sv sh i"
  have each: "FLAGS_min_weight \<le> wt sv sh i" if "i < n" for i
    using tree_ok_vw(2) [OF ok, of i] that by (simp add: good_def live_def wt_def n_def)
  have "(\<Sum>i < n. FLAGS_min_weight) \<le> ?S" by (rule sum_mono) (simp add: each)
  then have low: "FLAGS_min_weight * int n \<le> ?S" by (simp add: mult.commute)
  then have n63: "int n < 2 ^ 63" using total unfolding n_def FLAGS_min_weight_def by linarith
  then show "Suc n < NO_INDEX" by (simp add: NO_INDEX_def)
  have "0 \<le> ?S" using low by (simp add: FLAGS_min_weight_def)
  then have t: "total_weight sh = ?S"
    using tree_ok_sums [OF ok] total by (simp add: sums_def s64_id in64_def n_def)
  show mean: "inital_weight n sh = ?S div int n" if "n \<noteq> 0"
    using that total n63 \<open>0 \<le> ?S\<close> t by (simp add: inital_weight_def s64_u64_div n_def)
  show "FLAGS_min_weight \<le> inital_weight n sh"
  proof (cases "n = 0")
    case True
    then show ?thesis by (simp add: inital_weight_def FLAGS_min_weight_def)
  next
    case False
    have "FLAGS_min_weight * int n div int n \<le> ?S div int n"
      using low False by (intro zdiv_mono1) simp_all
    then show ?thesis using False mean by simp
  qed
qed

end
