(* ===== verification/BalancerMembers.thy ===== *)
theory BalancerMembers
  imports BalancerChanges
begin

text \<open>
  \<open>add_server\<close> and \<open>remove_server\<close> as a whole: the invariant \<open>lb_ok\<close> of the balancer at rest,
  that both operations keep it and change the membership as they should, also when readers
  select and give feedback on both buffers between the two phases, and the interpretation of
  the interface \<open>server_registry\<close>.
\<close>

section \<open>The invariant of the balancer\<close>

definition lb_view :: "lalb \<Rightarrow> servers" where
  "lb_view lb = UnsafeRead (lb_servers lb)"

definition lb_size :: "lalb \<Rightarrow> nat" where
  "lb_size lb = length (weight_tree (lb_view lb))"

definition lb_weight :: "lalb \<Rightarrow> nat \<Rightarrow> int" where
  "lb_weight lb i = wt (lb_view lb) (lb_shared lb) i"

definition lb_ok :: "lalb \<Rightarrow> bool" where
  "lb_ok lb \<longleftrightarrow>
     both (lb_view lb) (lb_servers lb) \<and> tree_ok (lb_view lb) (lb_shared lb) \<and>
     dom (server_map (lb_view lb)) = dom (lb_map lb) \<and> 0 \<notin> ran (lb_map lb)"

definition lb_members :: "lalb \<Rightarrow> server_name set" where
  "lb_members lb = dom (lb_map lb)"

text \<open>The sums have room for \<open>k\<close> more servers of the weight that new ones get.\<close>

definition lb_room :: "lalb \<Rightarrow> nat \<Rightarrow> bool" where
  "lb_room lb k \<longleftrightarrow>
     (\<exists>M. WEIGHT_SCALE \<le> M \<and> (\<forall>i < lb_size lb. lb_weight lb i \<le> M) \<and>
          (int (lb_size lb) + int k) * M < 2 ^ 63)"

lemma empty_tree_ok: "lheap sh = (\<lambda>_. 0) \<Longrightarrow> total_weight sh = 0 \<Longrightarrow> tree_ok empty_servers sh"
  by (simp add: tree_ok_def tree_shape_def accounted_def sums_def lsums_def empty_servers_def
      NO_INDEX_def)

lemma lalb_new_ok: "lb_ok lalb_new" "lb_members lalb_new = {}" "lb_size lalb_new = 0"
  by (simp_all add: lb_ok_def lalb_new_def lb_view_def UnsafeRead_def lb_members_def lb_size_def
      dbd_new_def both_def empty_tree_ok) (simp_all add: empty_servers_def)

lemma lalb_new_room: "k \<le> 1000000 \<Longrightarrow> lb_room lalb_new k"
  unfolding lb_room_def by (intro exI [of _ WEIGHT_SCALE]) (simp add: lalb_new_ok)

lemma room_sum:
  assumes "\<And>i. i < n \<Longrightarrow> W i \<le> M" "(int n + int k) * M < 2 ^ 63" "0 \<le> M"
  shows "(\<Sum>i < n. W i) < (2 ^ 63 :: int)"
proof -
  have "(\<Sum>i < n. W i) \<le> (\<Sum>i < n. M)" by (rule sum_mono) (simp add: assms(1))
  also have "\<dots> \<le> (int n + int k) * M" using assms(3) by (simp add: distrib_right)
  finally show ?thesis using assms(2) by linarith
qed

section \<open>Both phases, with readers between them\<close>

definition readers_between :: "(bool \<times> nat \<times> visit) list \<Rightarrow> servers dbd \<Rightarrow> shared \<Rightarrow> shared res" where
  "readers_between vs d sh = run_visits (\<lambda>b. weight_tree (dbd_data d b)) vs sh"

lemma readers_between_Nil [simp]: "readers_between [] d sh = Inr sh"
  by (simp add: readers_between_def)

abbreviation remove_closure :: "server_name \<Rightarrow> (servers, shared) closure" where
  "remove_closure x \<equiv> Closure2 (\<lambda>bg name (_ :: unit). Remove bg name) x ()"

lemma both_cases:
  assumes "both x d"
  obtains b dat where "d = \<lparr>dbd_data = dat, dbd_index = b\<rparr>" "\<And>c. dat c = x"
  using assms by (cases d) (auto simp: both_def)

text \<open>When the last server leaves, both trees are views of what remains, with its weight disabled.\<close>

lemma removed_last_views:
  assumes shape: "tree_shape sv np" and k: "k + 1 = length (weight_tree sv)"
    and ok: "tree_ok (removed x k sv) sh" and off: "disabled0 (weight_of (weight_tree sv) k sh)"
  defines "t' \<equiv> weight_tree (removed x k sv)"
  shows "view (map sv_weight t') (map sv_left t') sh (weight_tree sv)"
    and "view (map sv_weight t') (map sv_left t') sh t'"
proof -
  let ?t = "weight_tree sv"
  have rt: "t' = butlast ?t" using k by (simp add: removed_def Let_def t'_def)
  have "i < length t' \<and> sv_weight (?t ! i) = map sv_weight t' ! i \<or> disabled (weight_of ?t i sh)"
    if "i < length ?t" for i
    using that k disabled0_disabled [OF off] by (cases "i = k") (auto simp: rt nth_butlast)
  moreover have "agrees (map sv_left t') ?t" using agrees_self [OF shape] by (simp add: agrees_def rt nth_butlast)
  ultimately show "view (map sv_weight t') (map sv_left t') sh ?t" by (simp add: view_def)
  show "view (map sv_weight t') (map sv_left t') sh t'"
    using agrees_self [of "removed x k sv"] ok by (auto simp: view_def tree_ok_def t'_def)
qed

text \<open>The last server of the tree is removed by dropping it, another by moving the last one to its place.\<close>

lemma Modify_Remove_last:
  assumes d: "both sv d" and ok: "tree_ok sv sh" and x: "server_map sv x = Some k"
    and bound: "\<And>i. i < length (weight_tree sv) \<Longrightarrow> wt sv sh i < 2 ^ 63"
    and readers: "\<forall>d1 sh1 bg r. Modify_first (remove_closure x) d sh = Inr (d1, sh1, bg, r) \<longrightarrow>
      (\<exists>sh2. readers_between vs d1 sh1 = Inr sh2 \<and>
        (k + 1 < length (weight_tree sv) \<longrightarrow>
         (let w = weight_of (weight_tree sv) (length (weight_tree sv) - 1) sh2 in
         in64 (- w_old_weight w) \<and> in64 (- w_old_weight w - w_old_diff_sum w))))"
    and True: "k + 1 = length (weight_tree sv)"
  shows "\<exists>d' sh'. Modify_between (readers_between vs) (remove_closure x) d sh = Inr (d', sh') \<and>
     both (removed x k sv) d' \<and> tree_ok (removed x k sv) sh' \<and> next_ptr sh' = next_ptr sh \<and>
     (vs = [] \<longrightarrow> (\<forall>i < length (weight_tree (removed x k sv)).
        wt (removed x k sv) sh' i = wt sv sh (if i = k then length (weight_tree sv) - 1 else i)))"
proof -
  let ?t = "weight_tree sv" and ?sv = "removed x k sv"
  obtain b dat where d': "d = \<lparr>dbd_data = dat, dbd_index = b\<rparr>" "\<And>c. dat c = sv"
    using both_cases [OF d] by blast
  let ?d1 = "\<lparr>dbd_data = dat(\<not> b := ?sv), dbd_index = \<not> b\<rparr>"
  have shape: "tree_shape sv (next_ptr sh)" using ok by (simp add: tree_ok_def)
  have k: "k < length ?t" using shape x by (auto simp: tree_shape_def)
  have views: "weight_tree (dbd_data ?d1 c) = ?t \<or> weight_tree (dbd_data ?d1 c) = weight_tree ?sv" for c
    by (simp add: d'(2))
  obtain sh1 where sh1: "Remove sv x sh = Inr (?sv, sh1, 0)" "tree_ok ?sv sh1"
    "disabled0 (weight_of ?t k sh1)" "next_ptr sh1 = next_ptr sh" "\<forall>i < k. weight_of ?t i sh1 = weight_of ?t i sh"
    using Remove_last_first [OF ok x True bound [OF k]] by blast
  have "Modify_first (remove_closure x) d sh = Inr (?d1, sh1, \<not> b, 0)"
    by (simp add: Modify_first_def Closure2_def Let_def d' sh1(1))
  from readers [rule_format, OF this] obtain sh2 where sh2: "readers_between vs ?d1 sh1 = Inr sh2" by blast
  let ?as = "map sv_weight (weight_tree ?sv)" and ?ls = "map sv_left (weight_tree ?sv)"
  have rt: "weight_tree ?sv = butlast ?t" using True by (simp add: removed_def Let_def)
  have v: "view ?as ?ls sh1 (weight_tree (dbd_data ?d1 c))" for c
    using views [of c] removed_last_views [OF shape True sh1(2,3)] by metis
  have "accounted ?as ?ls sh1" using sh1(2) by (simp add: tree_ok_def)
  from run_visits_accounted [OF this v] sh2 have
    acc: "accounted ?as ?ls sh2" and f: "frames ?ls sh1 sh2" by (auto simp: readers_between_def)
  have ok2: "tree_ok ?sv sh2"
    using sh1(2) acc frames_at_rest [OF f] f by (auto simp: tree_ok_def frames_def)
  have "disabled0 (weight_of ?t k sh2)"
    using frames_disabled0 [OF f] sh1(3) by (simp add: weight_of_def)
  from Remove_last_second [OF x True this] have "Remove sv x sh2 = Inr (?sv, sh2, 0)" .
  then have "Modify_between (readers_between vs) (remove_closure x) d sh =
      Inr (\<lparr>dbd_data = (dat(\<not> b := ?sv))(b := ?sv), dbd_index = \<not> b\<rparr>, sh2)"
    unfolding d'(1) using sh1(1)
    by (intro Modify_between_eq [where dat = dat and b = b and y' = ?sv and
        between = "readers_between vs", OF _ sh2]) (simp_all add: Closure2_def d'(2))
  moreover have "wt ?sv sh2 i = wt sv sh (if i = k then length ?t - 1 else i)"
    if "vs = []" "i < length (weight_tree ?sv)" for i
  proof -
    have "i < k" using that(2) True by (simp add: rt)
    moreover have "sh2 = sh1" using sh2 that(1) by simp
    ultimately show ?thesis
      using sh1(5) that(2) by (simp add: wt_def weight_of_def rt nth_butlast)
  qed
  ultimately show ?thesis using ok2 f sh1(4) by (auto simp: frames_def)
qed

lemma Modify_Remove_swap:
  assumes d: "both sv d" and ok: "tree_ok sv sh" and x: "server_map sv x = Some k"
    and bound: "\<And>i. i < length (weight_tree sv) \<Longrightarrow> wt sv sh i < 2 ^ 63"
    and readers: "\<forall>d1 sh1 bg r. Modify_first (remove_closure x) d sh = Inr (d1, sh1, bg, r) \<longrightarrow>
      (\<exists>sh2. readers_between vs d1 sh1 = Inr sh2 \<and>
        (k + 1 < length (weight_tree sv) \<longrightarrow>
         (let w = weight_of (weight_tree sv) (length (weight_tree sv) - 1) sh2 in
         in64 (- w_old_weight w) \<and> in64 (- w_old_weight w - w_old_diff_sum w))))"
    and k': "k + 1 < length (weight_tree sv)"
  shows "\<exists>d' sh'. Modify_between (readers_between vs) (remove_closure x) d sh = Inr (d', sh') \<and>
     both (removed x k sv) d' \<and> tree_ok (removed x k sv) sh' \<and> next_ptr sh' = next_ptr sh \<and>
     (vs = [] \<longrightarrow> (\<forall>i < length (weight_tree (removed x k sv)).
        wt (removed x k sv) sh' i = wt sv sh (if i = k then length (weight_tree sv) - 1 else i)))"
proof -
  let ?t = "weight_tree sv" and ?sv = "removed x k sv"
  obtain b dat where d': "d = \<lparr>dbd_data = dat, dbd_index = b\<rparr>" "\<And>c. dat c = sv"
    using both_cases [OF d] by blast
  let ?d1 = "\<lparr>dbd_data = dat(\<not> b := ?sv), dbd_index = \<not> b\<rparr>"
  have shape: "tree_shape sv (next_ptr sh)" using ok by (simp add: tree_ok_def)
  have k: "k < length ?t" using shape x by (auto simp: tree_shape_def)
  have views: "weight_tree (dbd_data ?d1 c) = ?t \<or> weight_tree (dbd_data ?d1 c) = weight_tree ?sv" for c
    by (simp add: d'(2))
  obtain sh1 where sh1: "Remove sv x sh = Inr (?sv, sh1, 0)" "swapped sv k sh1"
    "next_ptr sh1 = next_ptr sh"
    "\<forall>i < length ?t. i \<noteq> k \<longrightarrow> w_weight (weight_of ?t i sh1) = wt sv sh i"
    using Remove_swap_first [OF ok x k' bound] by blast
  have "Modify_first (remove_closure x) d sh = Inr (?d1, sh1, \<not> b, 0)"
    by (simp add: Modify_first_def Closure2_def Let_def d' sh1(1))
  from readers [rule_format, OF this] obtain sh2 where sh2: "readers_between vs ?d1 sh1 = Inr sh2"
    and fits: "in64 (- w_old_weight (weight_of ?t (length ?t - 1) sh2))"
      "in64 (- w_old_weight (weight_of ?t (length ?t - 1) sh2) -
             w_old_diff_sum (weight_of ?t (length ?t - 1) sh2))"
    using k' by (auto simp: Let_def)
  have "?t \<noteq> []" using k by auto
  then have lw: "weight_of ?t (length ?t - 1) sh2 = wheap sh2 (sv_weight (last ?t))"
    by (simp add: weight_of_def last_conv_nth)
  from swapped_run [where trees = "\<lambda>c. weight_tree (dbd_data ?d1 c)",
      OF shape k' sh1(2) views sh2 [unfolded readers_between_def]]
  have sw: "swapped sv k sh2" "next_ptr sh2 = next_ptr sh1" by auto
  have shape2: "tree_shape sv (next_ptr sh2)" using shape sw(2) sh1(3) by simp
  from Remove_swap_second [OF shape2 x k' sw(1)] fits obtain sh3 where
    sh3: "Remove sv x sh2 = Inr (?sv, sh3, 0)" "tree_ok ?sv sh3" "next_ptr sh3 = next_ptr sh2"
      "\<forall>a. w_weight (wheap sh3 a) = w_weight (wheap sh2 a)"
    unfolding lw by blast
  have "Modify_between (readers_between vs) (remove_closure x) d sh =
      Inr (\<lparr>dbd_data = (dat(\<not> b := ?sv))(b := ?sv), dbd_index = \<not> b\<rparr>, sh3)"
    unfolding d'(1) by (rule Modify_between_eq [where dat = dat and b = b and y' = ?sv and
        between = "readers_between vs", OF _ sh2]) (simp_all add: Closure2_def d'(2) sh1(1) sh3(1))
  moreover have "wt ?sv sh3 i = wt sv sh (if i = k then length ?t - 1 else i)"
    if "vs = []" "i < length (weight_tree ?sv)" for i
  proof -
    have rt: "weight_tree ?sv = swap_in k (last ?t) ?t" using k' by (simp add: removed_def Let_def)
    have "sh2 = sh1" using sh2 that(1) by simp
    then show ?thesis
      using sh1(4) sh3(4) that(2) k' \<open>?t \<noteq> []\<close>
      by (auto simp: wt_def weight_of_def rt swap_in_nth last_conv_nth)
  qed
  ultimately show ?thesis using sh3 sw(2) sh1(3) by auto
qed

lemma Modify_Remove:
  assumes d: "both sv d" and ok: "tree_ok sv sh" and x: "server_map sv x = Some k"
    and bound: "\<And>i. i < length (weight_tree sv) \<Longrightarrow> wt sv sh i < 2 ^ 63"
    and readers: "\<forall>d1 sh1 bg r. Modify_first (remove_closure x) d sh = Inr (d1, sh1, bg, r) \<longrightarrow>
      (\<exists>sh2. readers_between vs d1 sh1 = Inr sh2 \<and>
        (k + 1 < length (weight_tree sv) \<longrightarrow>
         (let w = weight_of (weight_tree sv) (length (weight_tree sv) - 1) sh2 in
         in64 (- w_old_weight w) \<and> in64 (- w_old_weight w - w_old_diff_sum w))))"
  shows "\<exists>d' sh'. Modify_between (readers_between vs) (remove_closure x) d sh = Inr (d', sh') \<and>
     both (removed x k sv) d' \<and> tree_ok (removed x k sv) sh' \<and> next_ptr sh' = next_ptr sh \<and>
     (vs = [] \<longrightarrow> (\<forall>i < length (weight_tree (removed x k sv)).
        wt (removed x k sv) sh' i = wt sv sh (if i = k then length (weight_tree sv) - 1 else i)))"
proof -
  have "k < length (weight_tree sv)" using ok x by (auto simp: tree_ok_def tree_shape_def)
  then consider "k + 1 = length (weight_tree sv)" | "k + 1 < length (weight_tree sv)" by linarith
  then show ?thesis
    using Modify_Remove_last [OF assms] Modify_Remove_swap [OF assms] by cases
qed

abbreviation add_closure :: "server_name \<Rightarrow> int \<Rightarrow> (servers, shared) closure" where
  "add_closure x now \<equiv> WithFg2 Add x now"

lemma added_views:
  assumes "tree_ok (added x a sv) sh" "tree_shape sv a"
  defines "t \<equiv> weight_tree (added x a sv)"
  shows "view (map sv_weight t) (map sv_left t) sh t"
    and "view (map sv_weight t) (map sv_left t) sh (weight_tree sv)"
proof -
  have "agrees (map sv_left t) t"
    using agrees_self [of "added x a sv"] assms(1) by (auto simp: tree_ok_def t_def)
  then show "view (map sv_weight t) (map sv_left t) sh t" by (simp add: view_def)
  have "t = weight_tree sv @ [\<lparr>sv_name = x, sv_left = a, sv_weight = a\<rparr>]"
    by (simp add: t_def added_def)
  then show "view (map sv_weight t) (map sv_left t) sh (weight_tree sv)"
    using assms(2) by (auto simp: view_def agrees_def tree_shape_def nth_append)
qed

lemma Modify_Add:
  assumes d: "both sv d" and ok: "tree_ok sv sh" and x: "server_map sv x = None"
    and total: "(\<Sum>i < length (weight_tree sv). wt sv sh i) < 2 ^ 63"
    and readers: "\<forall>d1 sh1 bg r. Modify_first (add_closure x now) d sh = Inr (d1, sh1, bg, r) \<longrightarrow>
      (\<exists>sh2. readers_between vs d1 sh1 = Inr sh2)"
  shows "\<exists>d' sh'. Modify_between (readers_between vs) (add_closure x now) d sh = Inr (d', sh') \<and>
     both (added x (next_ptr sh) sv) d' \<and> tree_ok (added x (next_ptr sh) sv) sh' \<and>
     (vs = [] \<longrightarrow>
        (\<forall>i < length (weight_tree sv). wt (added x (next_ptr sh) sv) sh' i = wt sv sh i) \<and>
        wt (added x (next_ptr sh) sv) sh' (length (weight_tree sv)) =
          inital_weight (length (weight_tree sv)) sh)"
proof -
  let ?t = "weight_tree sv" and ?sv = "added x (next_ptr sh) sv"
  obtain b dat where d': "d = \<lparr>dbd_data = dat, dbd_index = b\<rparr>" "\<And>c. dat c = sv"
    using both_cases [OF d] by blast
  let ?d1 = "\<lparr>dbd_data = dat(\<not> b := ?sv), dbd_index = \<not> b\<rparr>"
  note mean = inital_weight_mean [OF ok total]
  from Add_first [OF ok x x mean(1,2), of now] obtain sh1 where
    sh1: "Add sv sv x now sh = Inr (?sv, sh1, 0)" "tree_ok ?sv sh1"
      "\<forall>i < length ?t. wt ?sv sh1 i = wt sv sh i"
      "wt ?sv sh1 (length ?t) = inital_weight (length ?t) sh" by blast
  have "Modify_first (add_closure x now) d sh = Inr (?d1, sh1, \<not> b, 0)"
    by (simp add: Modify_first_def WithFg2_def Let_def d' sh1(1))
  from readers [rule_format, OF this] obtain sh2 where sh2: "readers_between vs ?d1 sh1 = Inr sh2" by blast
  have shape: "tree_shape sv (next_ptr sh)" using ok by (simp add: tree_ok_def)
  let ?as = "map sv_weight (weight_tree ?sv)" and ?ls = "map sv_left (weight_tree ?sv)"
  have v: "view ?as ?ls sh1 (weight_tree (dbd_data ?d1 c))" for c
    using added_views [OF sh1(2) shape] by (simp add: d'(2))
  have "accounted ?as ?ls sh1" using sh1(2) by (simp add: tree_ok_def)
  from run_visits_accounted [OF this v sh2 [unfolded readers_between_def]] have
    acc: "accounted ?as ?ls sh2" and f: "frames ?ls sh1 sh2" by auto
  have ok2: "tree_ok ?sv sh2"
    using sh1(2) acc frames_at_rest [OF f] f by (auto simp: tree_ok_def frames_def)
  have "Modify_between (readers_between vs) (add_closure x now) d sh =
      Inr (\<lparr>dbd_data = (dat(\<not> b := ?sv))(b := ?sv), dbd_index = \<not> b\<rparr>, sh2)"
    unfolding d'(1) using sh1(1) Add_second [of sv x "next_ptr sh" now sh2]
    by (intro Modify_between_eq [where dat = dat and b = b and y' = ?sv and
          between = "readers_between vs", OF _ sh2]) (simp_all add: WithFg2_def d'(2))
  moreover have "vs = [] \<Longrightarrow> sh2 = sh1" using sh2 by simp
  ultimately show ?thesis using ok2 sh1(3,4) by auto
qed

section \<open>\<open>add_server\<close> and \<open>remove_server\<close>\<close>

lemma lb_ok_view:
  assumes "both sv (lb_servers lb)" "tree_ok sv (lb_shared lb)"
    "dom (server_map sv) = dom (lb_map lb)" "0 \<notin> ran (lb_map lb)"
  shows "lb_ok lb" "lb_view lb = sv"
  using assms by (simp_all add: lb_ok_def lb_view_def both_read)

lemma lb_room_sum: "lb_ok lb \<Longrightarrow> lb_room lb k \<Longrightarrow> (\<Sum>i < lb_size lb. lb_weight lb i) < 2 ^ 63"
  unfolding lb_room_def using room_sum [of "lb_size lb" "lb_weight lb"] by force

lemma lb_weight_pos: "lb_ok lb \<Longrightarrow> i < lb_size lb \<Longrightarrow> FLAGS_min_weight \<le> lb_weight lb i"
  using tree_ok_vw(2) [of "lb_view lb" "lb_shared lb" i]
  by (simp add: lb_ok_def lb_size_def lb_weight_def good_def live_def wt_def)

lemma lb_room_weight:
  assumes "lb_ok lb" "lb_room lb k" "i < lb_size lb"
  shows "lb_weight lb i < 2 ^ 63"
proof -
  have "lb_weight lb i \<le> (\<Sum>j < lb_size lb. lb_weight lb j)"
    using assms(3) lb_weight_pos [OF assms(1)]
    by (intro member_le_sum) (fastforce simp: FLAGS_min_weight_def)+
  with lb_room_sum [OF assms(1,2)] show ?thesis by linarith
qed

text \<open>A known server only has its counter raised; a new one gets the mean weight.\<close>

lemma add_server_known:
  assumes "lb_ok lb" "x \<in> lb_members lb"
  shows "\<exists>c. add_server now x lb = Inr (lb\<lparr>lb_map := (lb_map lb)(x \<mapsto> c)\<rparr>) \<and> c \<noteq> 0"
proof -
  obtain c where c: "lb_map lb x = Some c" using assms(2) by (auto simp: lb_members_def)
  then have "c \<noteq> 0" using assms(1) by (metis lb_ok_def ranI)
  with c show ?thesis by (intro exI [of _ "c + 1"]) (simp add: add_server_def Let_def)
qed

lemma lb_ok_raise:
  assumes "lb_ok lb" "x \<in> lb_members lb" "c \<noteq> 0"
  defines "lb' \<equiv> lb\<lparr>lb_map := (lb_map lb)(x \<mapsto> c)\<rparr>"
  shows "lb_ok lb'" "lb_members lb' = lb_members lb" "lb_view lb' = lb_view lb"
    "lb_shared lb' = lb_shared lb"
  using assms by (auto simp: lb_ok_def lb_members_def lb_view_def ran_def dom_def)

lemma add_server_new:
  assumes ok: "lb_ok lb" and x: "x \<notin> lb_members lb"
    and total: "(\<Sum>i < lb_size lb. lb_weight lb i) < 2 ^ 63"
  shows "\<exists>lb'. add_server now x lb = Inr lb' \<and> lb_ok lb' \<and>
     lb_members lb' = insert x (lb_members lb) \<and> lb_size lb' = Suc (lb_size lb) \<and>
     (\<forall>i < lb_size lb. lb_weight lb' i = lb_weight lb i) \<and>
     lb_weight lb' (lb_size lb) = inital_weight (lb_size lb) (lb_shared lb)"
proof -
  let ?sv = "lb_view lb" and ?sh = "lb_shared lb"
  let ?sv' = "added x (next_ptr ?sh) ?sv"
  have xn: "lb_map lb x = None" using x by (auto simp: lb_members_def)
  have "server_map ?sv x = None" using ok xn unfolding lb_ok_def by (metis domIff)
  from Modify_Add [of ?sv "lb_servers lb" ?sh x now "[]"] this ok total obtain d' sh' where
    m: "Modify_between (readers_between []) (add_closure x now) (lb_servers lb) ?sh = Inr (d', sh')"
      "both ?sv' d'" "tree_ok ?sv' sh'"
      "\<forall>i < lb_size lb. wt ?sv' sh' i = wt ?sv ?sh i"
      "wt ?sv' sh' (lb_size lb) = inital_weight (lb_size lb) ?sh"
    by (auto simp: lb_ok_def lb_size_def lb_weight_def)
  let ?lb = "lb\<lparr>lb_map := (lb_map lb)(x \<mapsto> 1), lb_servers := d', lb_shared := sh'\<rparr>"
  have "readers_between [] = (\<lambda>d sh. Inr sh)" by (rule ext)+ simp
  then have run: "add_server now x lb = Inr ?lb"
    using xn m(1)
    by (simp add: add_server_def Let_def ModifyWithForeground2_def Modify_def)
  have "dom (server_map ?sv') = dom (lb_map ?lb)"
    using ok by (simp add: added_def lb_ok_def)
  moreover have "0 \<notin> ran (lb_map ?lb)"
    using ok xn by (auto simp: lb_ok_def ran_def split: if_splits)
  ultimately have l: "lb_ok ?lb" "lb_view ?lb = ?sv'"
    using lb_ok_view [of ?sv' ?lb] m(2,3) by simp_all
  have "length (weight_tree ?sv') = Suc (lb_size lb)" by (simp add: added_def lb_size_def)
  then have "lb_size ?lb = Suc (lb_size lb)" by (simp only: lb_size_def [of ?lb] l(2))
  moreover have "lb_weight ?lb i = wt ?sv' sh' i" for i by (simp only: lb_weight_def l(2)) simp
  ultimately show ?thesis
    using run l(1) m(4,5) by (intro exI [of _ ?lb]) (simp add: lb_members_def lb_weight_def)
qed

text \<open>The differences the second phase of a removal takes stay in range when the weights do.\<close>

lemma removed_mark_fits:
  assumes ok: "lb_ok lb" and x: "server_map (lb_view lb) x = Some k"
    and bound: "\<And>i. i < lb_size lb \<Longrightarrow> lb_weight lb i < 2 ^ 63"
    and first: "Modify_first (remove_closure x) (lb_servers lb) (lb_shared lb) = Inr (d1, sh1, bg, r)"
  defines "t \<equiv> weight_tree (lb_view lb)"
  shows "\<exists>sh2. readers_between [] d1 sh1 = Inr sh2 \<and> (k + 1 < length t \<longrightarrow>
     (let w = weight_of t (length t - 1) sh2 in
      in64 (- w_old_weight w) \<and> in64 (- w_old_weight w - w_old_diff_sum w)))"
proof (cases "k + 1 < length t")
  case True
  let ?sv = "lb_view lb" and ?sh = "lb_shared lb"
  have tok: "tree_ok ?sv ?sh" and bth: "both ?sv (lb_servers lb)" using ok by (simp_all add: lb_ok_def)
  have rem: "\<exists>sv1. Remove ?sv x ?sh = Inr (sv1, sh1, r)"
    using first bth by (auto simp: Modify_first_def Closure2_def Let_def both_def)
  have b: "0 \<le> wt ?sv ?sh i \<and> wt ?sv ?sh i < 2 ^ 63" if "i < length t" for i
    using bound [of i] lb_weight_pos [OF ok, of i] that
    by (simp add: lb_size_def lb_weight_def FLAGS_min_weight_def t_def)
  have ne: "t \<noteq> []" using True by auto
  have l: "last (weight_tree ?sv) = t ! (length t - 1)" using last_conv_nth [OF ne] by (simp add: t_def)
  from Remove_swap_first [OF tok x True [unfolded t_def]] b rem
  have "w_old_diff_sum (weight_of t (length t - 1) sh1) = 0 \<and>
      w_old_weight (weight_of t (length t - 1) sh1) = wt ?sv ?sh (length t - 1)"
    unfolding weight_of_def l by (auto simp: t_def)
  then show ?thesis using b [of "length t - 1"] ne by (simp add: Let_def in64_def)
qed simp

lemma remove_server_member:
  assumes ok: "lb_ok lb" and x: "server_map (lb_view lb) x = Some k"
    and bound: "\<And>i. i < lb_size lb \<Longrightarrow> lb_weight lb i < 2 ^ 63"
  shows "\<exists>lb'. remove_server x lb = Inr lb' \<and> lb_ok lb' \<and>
     lb_members lb' = lb_members lb - {x} \<and> Suc (lb_size lb') = lb_size lb \<and>
     (\<forall>i < lb_size lb'. lb_weight lb' i = lb_weight lb (if i = k then lb_size lb - 1 else i))"
proof -
  let ?sv = "lb_view lb" and ?sh = "lb_shared lb"
  let ?sv' = "removed x k ?sv" and ?t = "weight_tree (lb_view lb)"
  have x': "x \<in> dom (lb_map lb)" using ok x unfolding lb_ok_def by (metis domI)
  have tok: "tree_ok ?sv ?sh" and bth: "both ?sv (lb_servers lb)" using ok by (simp_all add: lb_ok_def)
  then have k: "k < length ?t" "sv_name (?t ! k) = x"
    using x by (auto simp: tree_ok_def tree_shape_def)
  have readers': "\<forall>d1 sh1 bg r.
      Modify_first (remove_closure x) (lb_servers lb) ?sh = Inr (d1, sh1, bg, r) \<longrightarrow>
      (\<exists>sh2. readers_between [] d1 sh1 = Inr sh2 \<and> (k + 1 < length ?t \<longrightarrow>
         (let w = weight_of ?t (length ?t - 1) sh2 in
          in64 (- w_old_weight w) \<and> in64 (- w_old_weight w - w_old_diff_sum w))))"
    using removed_mark_fits [OF ok x bound] by blast
  have "wt ?sv ?sh i < 2 ^ 63" if "i < length ?t" for i
    using bound [of i] that by (simp add: lb_size_def lb_weight_def)
  from Modify_Remove [OF bth tok x this readers'] obtain d' sh' where
    m: "Modify_between (readers_between []) (remove_closure x) (lb_servers lb) ?sh = Inr (d', sh')"
      "both ?sv' d'" "tree_ok ?sv' sh'"
      "\<forall>i < length (weight_tree ?sv'). wt ?sv' sh' i = wt ?sv ?sh (if i = k then lb_size lb - 1 else i)"
    by (auto simp: lb_size_def)
  let ?lb = "lb\<lparr>lb_map := (lb_map lb)(x := None), lb_servers := d', lb_shared := sh'\<rparr>"
  have "readers_between [] = (\<lambda>d sh. Inr sh)" by (rule ext)+ simp
  then have run: "remove_server x lb = Inr ?lb"
    using x' m(1) by (auto simp: remove_server_def Let_def Modify2_def Modify_def)
  have "dom (server_map ?sv') = dom (lb_map ?lb)"
    using removed_dom(1) [OF conjunct1 [OF tok [unfolded tree_ok_def]] x] ok
    by (simp add: lb_ok_def)
  moreover have "0 \<notin> ran (lb_map ?lb)"
    using ok by (auto simp: lb_ok_def ran_def split: if_splits)
  ultimately have l: "lb_ok ?lb" "lb_view ?lb = ?sv'"
    using lb_ok_view [of ?sv' ?lb] m(2,3) by simp_all
  have "Suc (length (weight_tree ?sv')) = length ?t" using k by (simp add: removed_def Let_def)
  then have "Suc (lb_size ?lb) = lb_size lb" "lb_size ?lb = length (weight_tree ?sv')"
    by (simp_all only: lb_size_def l(2))
  moreover have "lb_weight ?lb i = wt ?sv' sh' i" for i by (simp only: lb_weight_def l(2)) simp
  ultimately show ?thesis
    using run l(1) m(4) by (intro exI [of _ ?lb]) (auto simp: lb_members_def lb_weight_def)
qed

section \<open>The interface\<close>

lemma lb_room_mono: "lb_room lb j \<Longrightarrow> i \<le> j \<Longrightarrow> lb_room lb i"
proof -
  assume r: "lb_room lb j" and le: "i \<le> j"
  from r obtain M where M: "WEIGHT_SCALE \<le> M" "\<forall>i < lb_size lb. lb_weight lb i \<le> M"
    "(int (lb_size lb) + int j) * M < 2 ^ 63" by (auto simp: lb_room_def)
  have "0 \<le> M" using M(1) by simp
  then have "(int (lb_size lb) + int i) * M \<le> (int (lb_size lb) + int j) * M"
    using le by (intro mult_right_mono) auto
  then have "(int (lb_size lb) + int i) * M < 2 ^ 63" using M(3) by linarith
  with M(1,2) show "lb_room lb i" unfolding lb_room_def by blast
qed


lemma add_server_room:
  assumes ok: "lb_ok lb" and room: "lb_room lb (Suc k)"
  shows "\<exists>lb'. add_server now x lb = Inr lb' \<and> lb_ok lb' \<and> lb_room lb' k \<and>
     lb_members lb' = insert x (lb_members lb)"
proof -
  let ?n = "lb_size lb"
  obtain M where M: "WEIGHT_SCALE \<le> M" "\<And>i. i < ?n \<Longrightarrow> lb_weight lb i \<le> M"
    "(int ?n + int (Suc k)) * M < 2 ^ 63" using room by (auto simp: lb_room_def)
  have le: "(int ?n + int k) * M \<le> (int ?n + int (Suc k)) * M"
    using M(1) by (intro mult_right_mono) simp_all
  show ?thesis
  proof (cases "x \<in> lb_members lb")
    case True
    from add_server_known [OF ok True] obtain c where
      c: "add_server now x lb = Inr (lb\<lparr>lb_map := (lb_map lb)(x \<mapsto> c)\<rparr>)" "c \<noteq> 0" by blast
    let ?lb = "lb\<lparr>lb_map := (lb_map lb)(x \<mapsto> c)\<rparr>"
    note r = lb_ok_raise [OF ok True c(2)]
    have same: "lb_size ?lb = ?n" "lb_weight ?lb i = lb_weight lb i" for i
      unfolding lb_size_def lb_weight_def r(3,4) by (rule refl)+
    have "(int ?n + int k) * M < 2 ^ 63" using M(3) le by linarith
    then have "lb_room ?lb k" unfolding lb_room_def same using M(1,2) by blast
    then show ?thesis using c(1) r(1,2) True by (intro exI [of _ ?lb]) (simp add: insert_absorb)
  next
    case False
    have total: "(\<Sum>i < ?n. lb_weight lb i) < 2 ^ 63" by (rule lb_room_sum [OF ok room])
    from add_server_new [OF ok False total, of now] obtain lb' where
      lb': "add_server now x lb = Inr lb'" "lb_ok lb'" "lb_members lb' = insert x (lb_members lb)"
        "lb_size lb' = Suc ?n" "\<forall>i < ?n. lb_weight lb' i = lb_weight lb i"
        "lb_weight lb' ?n = inital_weight ?n (lb_shared lb)" by blast
    have "inital_weight ?n (lb_shared lb) \<le> M"
    proof (cases "?n = 0")
      case True
      then show ?thesis using M(1) by (simp add: inital_weight_def)
    next
      case False
      have "(\<Sum>i < ?n. lb_weight lb i) \<le> (\<Sum>i < ?n. M)" by (rule sum_mono) (simp add: M(2))
      then have "(\<Sum>i < ?n. lb_weight lb i) div int ?n \<le> (M * int ?n) div int ?n"
        using False by (intro zdiv_mono1) (simp_all add: mult.commute)
      then show ?thesis
        using False inital_weight_mean(3) [of "lb_view lb" "lb_shared lb"] ok total
        by (simp add: lb_ok_def lb_size_def lb_weight_def)
    qed
    then have "\<forall>i < lb_size lb'. lb_weight lb' i \<le> M"
      using lb'(4-6) M(2) by (auto simp: less_Suc_eq)
    moreover have "(int (lb_size lb') + int k) * M < 2 ^ 63"
      using M(3) by (simp add: lb'(4) algebra_simps)
    ultimately have "lb_room lb' k" unfolding lb_room_def using M(1) by blast
    then show ?thesis using lb' by blast
  qed
qed

lemma remove_server_unknown: "x \<notin> lb_members lb \<Longrightarrow> remove_server x lb = Inr lb"
  by (auto simp: lb_members_def remove_server_def split: option.splits)

lemma remove_server_room:
  assumes ok: "lb_ok lb" and room: "lb_room lb k"
  shows "\<exists>lb'. remove_server x lb = Inr lb' \<and> lb_ok lb' \<and> lb_room lb' k \<and>
     lb_members lb' = lb_members lb - {x}"
proof (cases "x \<in> lb_members lb")
  case False
  then show ?thesis using assms by (simp add: remove_server_unknown)
next
  case True
  let ?n = "lb_size lb"
  obtain M where M: "WEIGHT_SCALE \<le> M" "\<And>i. i < ?n \<Longrightarrow> lb_weight lb i \<le> M"
    "(int ?n + int k) * M < 2 ^ 63" using room by (auto simp: lb_room_def)
  have "x \<in> dom (server_map (lb_view lb))" using ok True by (simp add: lb_ok_def lb_members_def)
  then obtain j where "server_map (lb_view lb) x = Some j" by blast
  from remove_server_member [OF ok this] lb_room_weight [OF ok room] obtain lb' where
    lb': "remove_server x lb = Inr lb'" "lb_ok lb'" "lb_members lb' = lb_members lb - {x}"
      "Suc (lb_size lb') = ?n"
      "\<forall>i < lb_size lb'. lb_weight lb' i = lb_weight lb (if i = j then ?n - 1 else i)" by blast
  have "\<forall>i < lb_size lb'. lb_weight lb' i \<le> M"
    using lb'(4,5) M(2) by (metis diff_Suc_1 less_Suc_eq)
  moreover have "(int (lb_size lb') + int k) * M \<le> (int ?n + int k) * M"
    using M(1) lb'(4) by (intro mult_right_mono) auto
  then have "(int (lb_size lb') + int k) * M < 2 ^ 63" using M(3) by linarith
  ultimately have "lb_room lb' k" unfolding lb_room_def using M(1) by blast
  then show ?thesis using lb' by blast
qed

interpretation lalb: monotone_registry lb_ok lb_members lb_room "add_server now" remove_server for now
  by unfold_locales (rule add_server_room remove_server_room lb_room_mono; assumption)+

text \<open>A balancer with the given servers, for the witnesses.\<close>

definition lalb_of :: "server_name list \<Rightarrow> lalb res" where
  "lalb_of xs = run_res (add_server 0) xs lalb_new"

lemma lalb_of_ok:
  assumes "length xs + k \<le> 1000000"
  shows "\<exists>lb. lalb_of xs = Inr lb \<and> lb_ok lb \<and> lb_room lb k \<and> lb_members lb = set xs"
  using lalb.run_add [OF lalb_new_ok(1) lalb_new_room [OF assms]]
  by (simp add: lalb_of_def lalb_new_ok)

section \<open>Properties\<close>

text \<open>
  C24: adding a server keeps the balancer's invariant (both buffers hold the same tree, the map
  is the index of the names, every left sum is the weight of its subtree and the total is the
  sum of all weights, every weight is live) and adds exactly this server, at the mean of the
  weights of the others, whose own weights do not change; a known server changes no weight.
\<close>

theorem add_server_correct:
  assumes "lb_ok lb" "lb_room lb (Suc k)"
  shows "\<exists>lb'. add_server now x lb = Inr lb' \<and> lb_ok lb' \<and>
     lb_members lb' = insert x (lb_members lb) \<and>
     (\<forall>i < lb_size lb. lb_weight lb' i = lb_weight lb i) \<and>
     (x \<notin> lb_members lb \<longrightarrow> lb_size lb' = Suc (lb_size lb) \<and>
        lb_weight lb' (lb_size lb) =
          (if lb_size lb = 0 then WEIGHT_SCALE
           else (\<Sum>i < lb_size lb. lb_weight lb i) div int (lb_size lb)))"
proof (cases "x \<in> lb_members lb")
  case True
  from add_server_known [OF assms(1) True, of now] obtain c where
    c: "add_server now x lb = Inr (lb\<lparr>lb_map := (lb_map lb)(x \<mapsto> c)\<rparr>)" "c \<noteq> 0" by blast
  note r = lb_ok_raise [OF assms(1) True c(2)]
  have "lb_weight (lb\<lparr>lb_map := (lb_map lb)(x \<mapsto> c)\<rparr>) i = lb_weight lb i" for i
    unfolding lb_weight_def r(3,4) by (rule refl)
  then show ?thesis
    using c(1) r(1,2) True by (intro exI [of _ "lb\<lparr>lb_map := (lb_map lb)(x \<mapsto> c)\<rparr>"]) (simp add: insert_absorb)
next
  case False
  have total: "(\<Sum>i < lb_size lb. lb_weight lb i) < 2 ^ 63" by (rule lb_room_sum [OF assms])
  from inital_weight_mean(3) [of "lb_view lb" "lb_shared lb"] assms(1) total
  have "inital_weight (lb_size lb) (lb_shared lb) =
     (if lb_size lb = 0 then WEIGHT_SCALE
      else (\<Sum>i < lb_size lb. lb_weight lb i) div int (lb_size lb))"
    by (simp add: lb_ok_def lb_size_def lb_weight_def inital_weight_def)
  with add_server_new [OF assms(1) False total, of now] False show ?thesis by auto
qed

lemma add_server_correct_witness:
  "\<exists>lb lb'. lalb_of [''a''] = Inr lb \<and> add_server 7 ''b'' lb = Inr lb' \<and> lb_ok lb' \<and>
     lb_members lb' = {''a'', ''b''}"
proof -
  obtain lb where lb: "lalb_of [''a''] = Inr lb" "lb_ok lb" "lb_room lb (Suc 0)"
    "lb_members lb = {''a''}" using lalb_of_ok [of "[''a'']" "Suc 0"] by auto
  from add_server_correct [OF lb(2,3), of 7 "''b''"] lb(1,4) show ?thesis by auto
qed

text \<open>
  C25: removing a server keeps the invariant, takes exactly this server out, moves the last
  node into its place and leaves every other weight alone; removing an unknown server does
  nothing.
\<close>

theorem remove_server_correct:
  assumes "lb_ok lb" "lb_room lb k"
  shows "\<exists>lb'. remove_server x lb = Inr lb' \<and> lb_ok lb' \<and>
     lb_members lb' = lb_members lb - {x} \<and>
     (x \<notin> lb_members lb \<longrightarrow> lb' = lb) \<and>
     (\<forall>j. server_map (lb_view lb) x = Some j \<longrightarrow> Suc (lb_size lb') = lb_size lb \<and>
        (\<forall>i < lb_size lb'. lb_weight lb' i =
           lb_weight lb (if i = j then lb_size lb - 1 else i)))"
proof (cases "x \<in> lb_members lb")
  case False
  moreover have "server_map (lb_view lb) x = None"
    using False assms(1) by (metis domIff lb_members_def lb_ok_def)
  ultimately show ?thesis using assms(1) by (simp add: remove_server_unknown)
next
  case True
  have "x \<in> dom (server_map (lb_view lb))" using assms(1) True by (simp add: lb_ok_def lb_members_def)
  then obtain j where j: "server_map (lb_view lb) x = Some j" by blast
  from remove_server_member [OF assms(1) this] lb_room_weight [OF assms] j True show ?thesis
    by auto
qed

lemma remove_server_correct_witness:
  "\<exists>lb lb'. lalb_of [''a'', ''b'', ''c''] = Inr lb \<and> remove_server ''a'' lb = Inr lb' \<and> lb_ok lb' \<and>
     lb_members lb' = {''b'', ''c''}"
proof -
  obtain lb where lb: "lalb_of [''a'', ''b'', ''c''] = Inr lb" "lb_ok lb" "lb_room lb 0"
    "lb_members lb = {''a'', ''b'', ''c''}" using lalb_of_ok [of "[''a'', ''b'', ''c'']" 0] by auto
  from remove_server_correct [OF lb(2,3), of "''a''"] lb(1,4) show ?thesis by auto
qed

text \<open>
  C7: a removal is right under concurrency: whatever selections and feedbacks run on the two
  buffers between the phases of \<open>Modify\<close> (readers of the old buffer still see the removed
  server and the moved one at its old place), the second phase ends with both buffers equal
  to the tree without the server and with exact sums, as \<open>tree_ok\<close> says. The bounds on the
  moved weight are that the old weight and the recorded difference fit their 64 bits.
\<close>

theorem removal_with_readers:
  assumes "both sv d" "tree_ok sv sh" "server_map sv x = Some k"
    and "\<forall>i < length (weight_tree sv). wt sv sh i < 2 ^ 63"
    and "\<forall>d1 sh1 bg r.
      Modify_first (Closure2 (\<lambda>bg name _. Remove bg name) x ()) d sh = Inr (d1, sh1, bg, r) \<longrightarrow>
      (\<exists>sh2. readers_between vs d1 sh1 = Inr sh2 \<and>
         (k + 1 < length (weight_tree sv) \<longrightarrow>
          (let w = weight_of (weight_tree sv) (length (weight_tree sv) - 1) sh2 in
           in64 (- w_old_weight w) \<and> in64 (- w_old_weight w - w_old_diff_sum w))))"
  shows "\<exists>d' sh'. Modify_between (readers_between vs)
       (Closure2 (\<lambda>bg name _. Remove bg name) x ()) d sh = Inr (d', sh') \<and>
     both (removed x k sv) d' \<and> tree_ok (removed x k sv) sh'"
  using Modify_Remove [OF assms(1-3) _ assms(5)] assms(4) by blast

definition demo_servers :: servers where
  "demo_servers = \<lparr>weight_tree = [\<lparr>sv_name = ''a'', sv_left = 0, sv_weight = 0\<rparr>,
     \<lparr>sv_name = ''b'', sv_left = 1, sv_weight = 1\<rparr>], server_map = [''a'' \<mapsto> 0, ''b'' \<mapsto> 1]\<rparr>"

definition demo_shared :: shared where
  "demo_shared = \<lparr>wheap = (\<lambda>_. new_weight 0 5000), lheap = (\<lambda>_. 0)(0 := 5000), next_ptr = 2,
     total_weight = 10000\<rparr>"

definition demo_in :: select_in where
  "demo_in = \<lparr>si_begin_time_us = 9, si_changable_weights = False, si_has_request_code = False,
     si_request_code = 0\<rparr>"

lemma less_2_cases: "i < 2 \<longleftrightarrow> i = 0 \<or> i = (1 :: nat)"
  by auto

lemma demo_ok: "tree_ok demo_servers demo_shared"
proof -
  have "insub (Suc 0) (Suc 0)" "\<not> insub 3 0" "\<not> insub 3 (Suc 0)" "\<not> insub (Suc 0) 0"
    using insub_ge by fastforce+
  then have "subsum (\<lambda>_. 5000) 2 1 = 5000" "subsum (\<lambda>_. 5000) 2 3 = (0 :: int)"
    by (simp_all add: numeral_2_eq_2 subsum_Suc)
  moreover have "sums [0, 1] (\<lambda>i. w_weight (wheap demo_shared ([0, 1] ! i))) demo_shared
      \<longleftrightarrow> subsum (\<lambda>_. 5000) 2 1 = 5000 \<and> subsum (\<lambda>_. 5000) 2 3 = (0 :: int)"
    by (auto simp: sums_def lsums_def demo_shared_def less_2_cases numeral_2_eq_2 new_weight_def
        s64_def less_Suc_eq numeral_3_eq_3 subsum_Suc)
  ultimately have "sums [0, 1] (\<lambda>i. w_weight (wheap demo_shared ([0, 1] ! i))) demo_shared" by blast
  then have "accounted [0, 1] [0, 1] demo_shared"
    by (rule accountedI [rotated 5])
      (simp_all add: demo_shared_def NO_INDEX_def good_new FLAGS_min_weight_def)
  then show ?thesis
    by (auto simp: tree_ok_def tree_shape_def demo_servers_def demo_shared_def less_Suc_eq
        new_weight_def at_rest_def nth_Cons' split: if_splits)
qed

text \<open>A selection through the old buffer and one through the new, on both places of the node.\<close>

lemma demo_readers:
  assumes "Modify_first (Closure2 (\<lambda>bg name (_ :: unit). Remove bg name) ''a'' ())
      (dbd_new demo_servers) demo_shared = Inr (d1, sh1, bg, r)"
  shows "\<exists>sh2. readers_between [(False, 1, Visit_Inflight demo_in 1), (True, 0, Visit_Inflight demo_in 1)]
       d1 sh1 = Inr sh2 \<and> w_old_weight (wheap sh2 1) = 5000 \<and> w_old_diff_sum (wheap sh2 1) = 0"
proof -
  let ?sv' = "swap_in 0 \<lparr>sv_name = ''b'', sv_left = 1, sv_weight = 1\<rparr> (weight_tree demo_servers)"
  have "Remove demo_servers ''a'' demo_shared = Inr (removed ''a'' 0 demo_servers,
      demo_shared\<lparr>wheap := (wheap demo_shared)(0 := fst (Disable (new_weight 0 5000)),
        1 := fst (MarkOld 1 (new_weight 0 5000)))\<rparr>, 0)"
    by (simp add: Remove_def Let_def demo_servers_def demo_shared_def Disable_eq MarkOld_eq
        new_weight_def add_diff_def set_weight_def removed_def in64_def)
  then have "d1 = \<lparr>dbd_data = (\<lambda>_. demo_servers)(True := removed ''a'' 0 demo_servers), dbd_index = True\<rparr>"
    and "sh1 = demo_shared\<lparr>wheap := (wheap demo_shared)(0 := fst (Disable (new_weight 0 5000)),
        1 := fst (MarkOld 1 (new_weight 0 5000)))\<rparr>"
    using assms by (simp_all add: Modify_first_def Closure2_def Let_def dbd_new_def)
  then show ?thesis
    by (simp add: readers_between_def removed_def demo_servers_def swap_in_def Let_def
        inflight_at_def AddInflight_def disabled_def weight_of_def MarkOld_eq new_weight_def
        ResetWeight_def punished_weight_def demo_in_def FLAGS_min_weight_def add_diff_def in64_def)
qed

lemma removal_with_readers_witness:
  "\<exists>d' sh'. Modify_between
       (readers_between [(False, 1, Visit_Inflight demo_in 1), (True, 0, Visit_Inflight demo_in 1)])
       (Closure2 (\<lambda>bg name _. Remove bg name) ''a'' ()) (dbd_new demo_servers) demo_shared = Inr (d', sh') \<and>
     tree_ok (removed ''a'' 0 demo_servers) sh'"
proof -
  have b: "\<forall>i < length (weight_tree demo_servers). wt demo_servers demo_shared i < 2 ^ 63"
    by (simp add: wt_def weight_of_def demo_shared_def new_weight_def)
  have m: "server_map demo_servers ''a'' = Some 0" and l: "length (weight_tree demo_servers) = 2"
    and w: "weight_of (weight_tree demo_servers) (2 - 1) sh = wheap sh 1" for sh
    by (simp_all add: demo_servers_def weight_of_def)
  have "\<forall>d1 sh1 bg r. Modify_first (Closure2 (\<lambda>bg name (_ :: unit). Remove bg name) ''a'' ())
        (dbd_new demo_servers) demo_shared = Inr (d1, sh1, bg, r) \<longrightarrow>
      (\<exists>sh2. readers_between [(False, 1, Visit_Inflight demo_in 1), (True, 0, Visit_Inflight demo_in 1)]
          d1 sh1 = Inr sh2 \<and>
         (0 + 1 < length (weight_tree demo_servers) \<longrightarrow>
          (let w = weight_of (weight_tree demo_servers) (length (weight_tree demo_servers) - 1) sh2 in
           in64 (- w_old_weight w) \<and> in64 (- w_old_weight w - w_old_diff_sum w))))"
  proof (intro allI impI)
    fix d1 sh1 bg r
    assume "Modify_first (Closure2 (\<lambda>bg name (_ :: unit). Remove bg name) ''a'' ())
        (dbd_new demo_servers) demo_shared = Inr (d1, sh1, bg, r)"
    from demo_readers [OF this] show "\<exists>sh2. readers_between
        [(False, 1, Visit_Inflight demo_in 1), (True, 0, Visit_Inflight demo_in 1)] d1 sh1 = Inr sh2 \<and>
         (0 + 1 < length (weight_tree demo_servers) \<longrightarrow>
          (let w = weight_of (weight_tree demo_servers) (length (weight_tree demo_servers) - 1) sh2 in
           in64 (- w_old_weight w) \<and> in64 (- w_old_weight w - w_old_diff_sum w)))"
      unfolding l w Let_def by (force simp: in64_def)
  qed
  from removal_with_readers [OF both_new demo_ok m b this] show ?thesis by blast
qed

end
