(* ===== verification/BalancerSelect.thy ===== *)
theory BalancerSelect
  imports BalancerMembers
begin

text \<open>
  Selection: on exact sums the search of \<open>select_server\<close> is a search in the prefix sums of the
  weights, in the order of an in-order walk of the tree. \<open>find_node\<close> is that search on plain
  weights, \<open>node_offset\<close> the sum of the weights that come before a node. From them: which
  server a draw selects, how many draws select a given server, and that a selection always
  comes to an answer without undefined behaviour.
\<close>

section \<open>The search on plain weights\<close>

function find_node :: "(nat \<Rightarrow> int) \<Rightarrow> nat \<Rightarrow> nat \<Rightarrow> int \<Rightarrow> (nat \<times> int) option" where
  "find_node W n j d =
     (if j < n then
        let l = subsum W n (2 * j + 1) in
        if d < l then find_node W n (2 * j + 1) d
        else if d \<ge> l + W j then find_node W n (2 * j + 2) (d - (l + W j))
        else Some (j, d - l)
      else None)"
  by pat_completeness auto
termination by (relation "measure (\<lambda>(W, n, j, d). n - j)") auto

declare find_node.simps [simp del]

function node_offset :: "(nat \<Rightarrow> int) \<Rightarrow> nat \<Rightarrow> nat \<Rightarrow> nat \<Rightarrow> int" where
  "node_offset W n j i =
     (if j < n then
        if i = j then subsum W n (2 * j + 1)
        else if insub (2 * j + 1) i then node_offset W n (2 * j + 1) i
        else subsum W n (2 * j + 1) + W j + node_offset W n (2 * j + 2) i
      else 0)"
  by pat_completeness auto
termination by (relation "measure (\<lambda>(W, n, j, i). n - j)") auto

declare node_offset.simps [simp del]

lemma find_node_sub:
  "find_node W n j d = Some (i, e) \<Longrightarrow> insub j i \<and> i < n \<and> 0 \<le> e \<and> e < W i"
proof (induction W n j d rule: find_node.induct)
  case (1 W n j d)
  let ?l = "subsum W n (2 * j + 1)"
  from 1(3) have j: "j < n" by (subst (asm) find_node.simps) (auto split: if_splits)
  consider "d < ?l" | "\<not> d < ?l" "d \<ge> ?l + W j" | "\<not> d < ?l" "\<not> d \<ge> ?l + W j" by blast
  then show ?case
  proof cases
    case 1
    then have "find_node W n (2 * j + 1) d = Some (i, e)"
      using "1.prems" j by (subst (asm) find_node.simps) simp
    from "1.IH"(1) [OF j refl 1 this] insub_trans [OF insub_left] show ?thesis by blast
  next
    case 2
    then have "find_node W n (2 * j + 2) (d - (?l + W j)) = Some (i, e)"
      using "1.prems" j by (subst (asm) find_node.simps) simp
    from "1.IH"(2) [OF j refl 2 this] insub_trans [OF insub_right] show ?thesis by blast
  next
    case 3
    then show ?thesis using "1.prems" j by (subst (asm) find_node.simps) auto
  qed
qed

lemma insub_step:
  assumes "insub j i" "i \<noteq> j" "i < n"
  shows "j < n" and "insub (2 * j + 1) i \<or> insub (2 * j + 2) i"
  using assms insub_split [of j i] insub_ge [OF assms(1)] by auto

lemma node_offset_bounds:
  assumes W: "\<And>i. i < n \<Longrightarrow> 0 \<le> W i"
  shows "insub j i \<Longrightarrow> i < n \<Longrightarrow> 0 \<le> node_offset W n j i \<and> node_offset W n j i + W i \<le> subsum W n j"
proof (induction "n - j" arbitrary: j rule: less_induct)
  case less
  have nonneg: "0 \<le> subsum W n k" for k by (rule subsum_nonneg) (rule W)
  have j: "j < n" using insub_ge [OF less.prems(1)] less.prems(2) by simp
  note split = subsum_split [OF j, of W]
  consider "i = j" | "i \<noteq> j" "insub (2 * j + 1) i" | "i \<noteq> j" "\<not> insub (2 * j + 1) i" "insub (2 * j + 2) i"
    using insub_step [OF less.prems(1) _ less.prems(2)] by blast
  then show ?case
  proof cases
    case 1
    then show ?thesis
      using split nonneg [of "2 * j + 1"] nonneg [of "2 * j + 2"] j
      by (subst (1 2) node_offset.simps) (simp add: Let_def)
  next
    case 2
    have "n - (2 * j + 1) < n - j" using j by linarith
    from less.hyps [OF this 2(2) less.prems(2)] show ?thesis
      using split nonneg [of "2 * j + 2"] W [OF j] 2 j
      by (subst (1 2) node_offset.simps) (simp add: Let_def)
  next
    case 3
    have "n - (2 * j + 2) < n - j" using j by linarith
    from less.hyps [OF this 3(3) less.prems(2)] show ?thesis
      using split nonneg [of "2 * j + 1"] W [OF j] 3 j
      by (subst (1 2) node_offset.simps) (simp add: Let_def)
  qed
qed

text \<open>The draws that find a node are the interval that starts at its offset.\<close>

lemma find_node_offset:
  assumes W: "\<And>i. i < n \<Longrightarrow> 0 \<le> W i"
  shows "insub j i \<Longrightarrow> i < n \<Longrightarrow>
    (find_node W n j d = Some (i, e) \<longleftrightarrow>
       node_offset W n j i \<le> d \<and> d < node_offset W n j i + W i \<and> e = d - node_offset W n j i)"
proof (induction "n - j" arbitrary: j d rule: less_induct)
  case less
  let ?l = "subsum W n (2 * j + 1)"
  have j: "j < n" using insub_ge [OF less.prems(1)] less.prems(2) by simp
  have find: "find_node W n j d =
      (if d < ?l then find_node W n (2 * j + 1) d
       else if d \<ge> ?l + W j then find_node W n (2 * j + 2) (d - (?l + W j)) else Some (j, d - ?l))"
    using j by (subst find_node.simps) (simp add: Let_def)
  have off: "node_offset W n j i =
      (if i = j then ?l else if insub (2 * j + 1) i then node_offset W n (2 * j + 1) i
       else ?l + W j + node_offset W n (2 * j + 2) i)"
    using j by (subst node_offset.simps) simp
  have left: "find_node W n (2 * j + 1) d = Some (i, e) \<Longrightarrow> insub (2 * j + 1) i"
    and right: "find_node W n (2 * j + 2) d' = Some (i, e) \<Longrightarrow> insub (2 * j + 2) i" for d'
    using find_node_sub by blast+
  have big: "insub (2 * j + 1) j \<Longrightarrow> False" "insub (2 * j + 2) j \<Longrightarrow> False"
    using insub_ge by fastforce+
  note bounds = node_offset_bounds [of n W, OF W]
  consider "i = j" | "i \<noteq> j" "insub (2 * j + 1) i" | "i \<noteq> j" "\<not> insub (2 * j + 1) i" "insub (2 * j + 2) i"
    using insub_step [OF less.prems(1) _ less.prems(2)] by blast
  then show ?case
  proof cases
    case 1
    then show ?thesis unfolding find off using left right big by auto
  next
    case 2
    have "n - (2 * j + 1) < n - j" using j by linarith
    note ih = less.hyps [OF this 2(2) less.prems(2)]
    have "\<not> insub (2 * j + 2) i" using insub_disjoint 2(2) by blast
    then show ?thesis
      unfolding find off using 2 ih [of d] right bounds [OF _ 2(2) less.prems(2)] by auto
  next
    case 3
    have "n - (2 * j + 2) < n - j" using j by linarith
    note ih = less.hyps [OF this 3(3) less.prems(2)]
    have "0 \<le> node_offset W n (2 * j + 2) i" using bounds [OF _ 3(3) less.prems(2)] by simp
    then show ?thesis
      unfolding find off using 3 ih [of "d - (?l + W j)"] left W [OF j] by auto
  qed
qed

lemma find_node_some:
  assumes W: "\<And>i. i < n \<Longrightarrow> 0 \<le> W i"
  shows "0 \<le> d \<Longrightarrow> d < subsum W n j \<Longrightarrow> \<exists>i e. find_node W n j d = Some (i, e)"
proof (induction W n j d rule: find_node.induct)
  case (1 W n j d)
  then have j: "j < n" using subsum_outside [of n j W] by (cases "n \<le> j") auto
  then show ?case
    using 1 subsum_split [OF j, of W] by (subst find_node.simps) (auto simp: Let_def)
qed

lemma find_node_none:
  assumes W: "\<And>i. i < n \<Longrightarrow> 0 \<le> W i"
  shows "subsum W n j \<le> d \<Longrightarrow> find_node W n j d = None"
  using W
proof (induction W n j d rule: find_node.induct)
  case (1 W n j d)
  show ?case
  proof (cases "j < n")
    case False
    then show ?thesis by (subst find_node.simps) simp
  next
    case True
    let ?l = "subsum W n (2 * j + 1)"
    have r: "0 \<le> subsum W n (2 * j + 2)" by (rule subsum_nonneg) (rule 1(4))
    then have "?l + W j \<le> d" "\<not> d < ?l" "subsum W n (2 * j + 2) \<le> d - (?l + W j)"
      using 1(3) subsum_split [OF True, of W] 1(4) [OF True] by linarith+
    then show ?thesis
      using 1(2) [OF True refl _ _ _ 1(4)] True by (subst find_node.simps) (simp add: Let_def)
  qed
qed

section \<open>The search of the code\<close>

text \<open>The two ways to leave the descent, as the code continues from them.\<close>

definition select_retry ::
  "select_in \<Rightarrow> draws \<Rightarrow> server_info list \<Rightarrow> nat \<Rightarrow> nat \<Rightarrow> select_out \<Rightarrow> shared \<Rightarrow>
   (shared \<times> int \<times> select_out) res" where
  "select_retry inp rnd tree k n_try out sh =
     (if n_try + 1 \<ge> length tree then Inr (sh, -1, out)
      else ubind (getRand rnd k (total_weight sh)) (\<lambda>dice.
        select_loop inp rnd tree (k + 1) (n_try + 1) 0 (total_weight sh) dice out sh))"

definition select_stop ::
  "select_in \<Rightarrow> draws \<Rightarrow> server_info list \<Rightarrow> nat \<Rightarrow> nat \<Rightarrow> nat \<Rightarrow> int \<Rightarrow> select_out \<Rightarrow> shared \<Rightarrow>
   (shared \<times> int \<times> select_out) res" where
  "select_stop inp rnd tree k n_try index d out sh =
     ubind (inflight_at inp tree index d sh) (\<lambda>(sh, chosen).
       if chosen
       then Inr (sh, 0, out\<lparr>so_node := sv_name (tree ! index), so_need_feedback := True\<rparr>)
       else if n_try + 1 \<ge> length tree then Inr (sh, -1, out)
       else select_retry inp rnd tree k (n_try + 1) out sh)"

text \<open>The left sums and the total are the plain sums, as long as those fit 64 bits.\<close>

definition exact :: "servers \<Rightarrow> shared \<Rightarrow> bool" where
  "exact sv sh \<longleftrightarrow> tree_ok sv sh \<and> (\<Sum>i < length (weight_tree sv). wt sv sh i) < 2 ^ 63"

lemma wt_nonneg: "tree_ok sv sh \<Longrightarrow> i < length (weight_tree sv) \<Longrightarrow> FLAGS_min_weight \<le> wt sv sh i"
  using tree_ok_vw(2) [of sv sh i] by (simp add: good_def live_def wt_def)

lemma wt_nonneg0: "tree_ok sv sh \<Longrightarrow> i < length (weight_tree sv) \<Longrightarrow> 0 \<le> wt sv sh i"
  using wt_nonneg [of sv sh i] by (simp add: FLAGS_min_weight_def)

lemma subsum_le_total:
  assumes "\<And>i. i < n \<Longrightarrow> 0 \<le> W i"
  shows "subsum W n j \<le> (\<Sum>i < n. W i)"
  unfolding subsum_def by (rule sum_mono2) (auto simp: subtree_def assms)

lemma exact_left:
  assumes "exact sv sh" "j < length (weight_tree sv)"
  defines "n \<equiv> length (weight_tree sv)"
  shows "lheap sh (sv_left (weight_tree sv ! j)) = subsum (wt sv sh) n (2 * j + 1)"
proof -
  have ok: "tree_ok sv sh" and S: "(\<Sum>i < n. wt sv sh i) < 2 ^ 63"
    using assms(1) by (simp_all add: exact_def n_def)
  have W: "0 \<le> wt sv sh i" if "i < n" for i using wt_nonneg0 [OF ok] that by (simp add: n_def)
  have "0 \<le> subsum (wt sv sh) n (2 * j + 1)" by (rule subsum_nonneg) (rule W)
  moreover have "subsum (wt sv sh) n (2 * j + 1) \<le> (\<Sum>i < n. wt sv sh i)"
    by (rule subsum_le_total) (rule W)
  ultimately have "in64 (subsum (wt sv sh) n (2 * j + 1))" using S by (simp add: in64_def)
  then show ?thesis
    using tree_ok_sums [OF ok] assms(2) by (simp add: sums_def lsums_def s64_id n_def)
qed

lemma exact_total:
  assumes "exact sv sh"
  shows "total_weight sh = (\<Sum>i < length (weight_tree sv). wt sv sh i)"
    and "0 \<le> (\<Sum>i < length (weight_tree sv). wt sv sh i)"
proof -
  have ok: "tree_ok sv sh" using assms by (simp add: exact_def)
  show pos: "0 \<le> (\<Sum>i < length (weight_tree sv). wt sv sh i)"
    by (rule sum_nonneg) (simp add: wt_nonneg0 [OF ok])
  then have "in64 (\<Sum>i < length (weight_tree sv). wt sv sh i)"
    using assms by (simp add: exact_def in64_def)
  then show "total_weight sh = (\<Sum>i < length (weight_tree sv). wt sv sh i)"
    using tree_ok_sums [OF ok] by (simp add: sums_def s64_id)
qed

lemma exact_node_bounds:
  assumes "exact sv sh" "j < length (weight_tree sv)"
  defines "n \<equiv> length (weight_tree sv)"
  shows "0 \<le> subsum (wt sv sh) n (2 * j + 1)" "0 \<le> wt sv sh j"
    and "subsum (wt sv sh) n (2 * j + 1) + wt sv sh j < 2 ^ 63"
proof -
  have ok: "tree_ok sv sh" and S: "(\<Sum>i < n. wt sv sh i) < 2 ^ 63"
    using assms(1) by (simp_all add: exact_def n_def)
  have W: "0 \<le> wt sv sh i" if "i < n" for i using wt_nonneg0 [OF ok] that by (simp add: n_def)
  have nn: "0 \<le> subsum (wt sv sh) n m" for m by (rule subsum_nonneg) (rule W)
  then show "0 \<le> subsum (wt sv sh) n (2 * j + 1)" .
  have j: "j < n" using assms(2) by (simp add: n_def)
  then show "0 \<le> wt sv sh j" by (rule W)
  have "subsum (wt sv sh) n j \<le> (\<Sum>i < n. wt sv sh i)" by (rule subsum_le_total) (rule W)
  then show "subsum (wt sv sh) n (2 * j + 1) + wt sv sh j < 2 ^ 63"
    using subsum_split [OF j, of "wt sv sh"] nn [of "2 * j + 2"] S by linarith
qed

lemma select_loop_find:
  assumes ex: "exact sv sh" and tw: "0 < tw"
  defines "t \<equiv> weight_tree sv"
  shows "j < length t \<Longrightarrow> 0 \<le> d \<Longrightarrow> d < 2 ^ 63 \<Longrightarrow>
    select_loop inp rnd t k n_try j tw d out sh =
      (case find_node (wt sv sh) (length t) j d of
         Some (i, e) \<Rightarrow> select_stop inp rnd t k n_try i e out sh
       | None \<Rightarrow> select_retry inp rnd t k n_try out sh)"
proof (induction "length t - j" arbitrary: j d rule: less_induct)
  case less
  let ?W = "wt sv sh" and ?n = "length t"
  let ?l = "subsum ?W ?n (2 * j + 1)"
  have left: "lheap sh (sv_left (t ! j)) = ?l"
    using exact_left [OF ex] less.prems(1) by (simp add: t_def)
  have self: "volatile_value (weight_of t j sh) = ?W j"
    by (simp add: volatile_value_def wt_def t_def)
  note b = exact_node_bounds [OF ex less.prems(1) [unfolded t_def], folded t_def]
  have chk: "in64 (?l + ?W j)" using b unfolding in64_def by linarith
  have chk2: "in64 (d - (?l + ?W j))" if "?l + ?W j \<le> d"
    using that less.prems(2,3) b unfolding in64_def by linarith
  have chk3: "in64 (d - ?l)" if "\<not> d < ?l"
    using that less.prems(2,3) b unfolding in64_def by linarith
  have find: "find_node ?W ?n j d =
      (if d < ?l then find_node ?W ?n (2 * j + 1) d
       else if d \<ge> ?l + ?W j then find_node ?W ?n (2 * j + 2) (d - (?l + ?W j)) else Some (j, d - ?l))"
    using less.prems(1) by (subst find_node.simps) (simp add: Let_def)
  consider "d < ?l" | "\<not> d < ?l" "?l + ?W j \<le> d" | "\<not> d < ?l" "\<not> ?l + ?W j \<le> d" by blast
  then show ?case
  proof cases
    case 1
    have "2 * j + 1 < ?n" using 1 less.prems(2) subsum_outside [of ?n "2 * j + 1" ?W]
      by (cases "?n \<le> 2 * j + 1") auto
    moreover from this have "?n - (2 * j + 1) < ?n - j" by linarith
    ultimately show ?thesis
      using less.hyps [of "2 * j + 1" d] less.prems 1 tw left
      by (subst select_loop.simps) (simp add: find Let_def)
  next
    case 2
    show ?thesis
    proof (cases "2 * j + 2 < ?n")
      case True
      then have "?n - (2 * j + 2) < ?n - j" by linarith
      moreover have "0 \<le> d - (?l + ?W j)" "d - (?l + ?W j) < 2 ^ 63"
        using 2 less.prems(2,3) b by linarith+
      ultimately show ?thesis
        using less.hyps [of "2 * j + 2" "d - (?l + ?W j)"] less.prems 2 tw left self chk chk2 True
        by (subst select_loop.simps) (simp add: find Let_def)
    next
      case False
      then have "find_node ?W ?n (2 * j + 2) (d - (?l + ?W j)) = None"
        by (subst find_node.simps) simp
      then show ?thesis
        using less.prems 2 tw left self chk chk2 False
        by (subst select_loop.simps) (simp add: find Let_def select_retry_def)
    qed
  next
    case 3
    then show ?thesis
      using less.prems tw left self chk chk3
      by (subst select_loop.simps) (simp add: find Let_def select_stop_def select_retry_def cong: if_cong)
  qed
qed

section \<open>Idle balancers\<close>

text \<open>A server with no call in flight since its weight was last computed.\<close>

definition idle :: "weight \<Rightarrow> bool" where
  "idle w \<longleftrightarrow> w_begin_time_count w = 0 \<and> w_begin_time_sum w = 0 \<and> w_base_weight w = w_weight w"

lemma AddInflight_idle:
  assumes "idle w" "good w" "in64 (si_begin_time_us inp)" "e < w_weight w"
  shows "AddInflight inp i e w =
    Inr (w\<lparr>w_begin_time_sum := si_begin_time_us inp, w_begin_time_count := 1\<rparr>,
         \<lparr>chosen = True, weight_diff = 0\<rparr>)"
proof -
  have base: "\<not> w_base_weight w < FLAGS_min_weight" "w_base_weight w = w_weight w"
    using assms(1,2) by (simp_all add: idle_def good_def live_def)
  then have "punished_weight (si_begin_time_us inp) w = Inr (w_weight w)"
    using assms(1) by (simp add: punished_weight_def idle_def)
  then have "ResetWeight i (si_begin_time_us inp) w = Inr (w, 0)"
    using base by (simp add: ResetWeight_def Let_def in64_def)
  moreover have "\<not> disabled w" using assms(2) by (simp add: good_def live_not_disabled)
  moreover have "in64 (w_begin_time_sum w + si_begin_time_us inp)"
    using assms(1,3) by (simp add: idle_def)
  ultimately show ?thesis using assms(1,4) by (simp add: AddInflight_def idle_def)
qed

definition lb_idle :: "lalb \<Rightarrow> bool" where
  "lb_idle lb \<longleftrightarrow> (\<forall>i < lb_size lb. idle (weight_of (weight_tree (lb_view lb)) i (lb_shared lb)))"

definition lb_total :: "lalb \<Rightarrow> int" where
  "lb_total lb = (\<Sum>i < lb_size lb. lb_weight lb i)"

definition lb_name :: "lalb \<Rightarrow> nat \<Rightarrow> server_name" where
  "lb_name lb i = sv_name (weight_tree (lb_view lb) ! i)"

lemma lb_exact: "lb_ok lb \<Longrightarrow> lb_room lb k \<Longrightarrow> exact (lb_view lb) (lb_shared lb)"
  using lb_room_sum [of lb k] by (simp add: exact_def lb_ok_def lb_size_def lb_weight_def)

lemma lb_total_weight:
  assumes "lb_ok lb" "lb_room lb k"
  shows "total_weight (lb_shared lb) = lb_total lb" "0 \<le> lb_total lb" "lb_total lb < 2 ^ 63"
  using exact_total [OF lb_exact [OF assms]] lb_room_sum [OF assms]
  by (simp_all add: lb_total_def lb_size_def lb_weight_def)

lemma lb_weight_eta: "lb_weight lb = wt (lb_view lb) (lb_shared lb)"
  by (rule ext) (simp add: lb_weight_def)

lemma lb_total_pos: "lb_ok lb \<Longrightarrow> 0 < lb_size lb \<Longrightarrow> 0 < lb_total lb"
  unfolding lb_total_def using lb_weight_pos [of lb]
  by (intro sum_pos) (force simp: FLAGS_min_weight_def)+

lemma lb_names_members:
  assumes "lb_ok lb"
  shows "sv_name ` set (weight_tree (lb_view lb)) = lb_members lb"
proof -
  have "server_map (lb_view lb) x = Some i \<longleftrightarrow>
      i < length (weight_tree (lb_view lb)) \<and> sv_name (weight_tree (lb_view lb) ! i) = x" for x i
    using assms by (simp add: lb_ok_def tree_ok_def tree_shape_def)
  then have "x \<in> dom (server_map (lb_view lb)) \<longleftrightarrow>
      (\<exists>i < length (weight_tree (lb_view lb)). sv_name (weight_tree (lb_view lb) ! i) = x)" for x
    by (simp add: domIff)
  then have "dom (server_map (lb_view lb)) = sv_name ` set (weight_tree (lb_view lb))"
    by (simp add: set_eq_iff image_iff Bex_def in_set_conv_nth) blast
  moreover have "dom (server_map (lb_view lb)) = lb_members lb"
    using assms by (simp add: lb_ok_def lb_members_def)
  ultimately show ?thesis by simp
qed

text \<open>What the first draw decides.\<close>

lemma select_server_find:
  assumes ok: "lb_ok lb" and room: "lb_room lb k" and n: "0 < lb_size lb"
    and d: "1 \<le> rnd 0 (lb_total lb)" "rnd 0 (lb_total lb) \<le> lb_total lb"
  shows "select_server inp rnd out lb =
    ubind (case find_node (lb_weight lb) (lb_size lb) 0 (rnd 0 (lb_total lb)) of
        Some (i, e) \<Rightarrow> select_stop inp rnd (weight_tree (lb_view lb)) 1 0 i e out (lb_shared lb)
      | None \<Rightarrow> select_retry inp rnd (weight_tree (lb_view lb)) 1 0 out (lb_shared lb))
    (\<lambda>(sh, r, out). Inr (lb\<lparr>lb_shared := sh\<rparr>, r, out))"
proof -
  note tot = lb_total_weight [OF ok room]
  have pos: "0 < lb_total lb" using d by linarith
  have "rnd 0 (lb_total lb) < 2 ^ 63" "0 \<le> rnd 0 (lb_total lb)" using d tot(3) by linarith+
  with select_loop_find [OF lb_exact [OF ok room] pos, of 0 "rnd 0 (lb_total lb)" inp rnd 1 0 out] n
  show ?thesis
    using pos by (simp add: select_server_def select_on_def getRand_def tot(1) lb_weight_eta
        lb_size_def flip: lb_view_def)
qed

lemma select_server_idle:
  assumes ok: "lb_ok lb" and room: "lb_room lb k" and idle: "lb_idle lb"
    and t: "in64 (si_begin_time_us inp)"
    and d: "1 \<le> rnd 0 (lb_total lb)" "rnd 0 (lb_total lb) \<le> lb_total lb"
    and i: "find_node (lb_weight lb) (lb_size lb) 0 (rnd 0 (lb_total lb)) = Some (i, e)"
  shows "\<exists>lb'. select_server inp rnd out lb =
    Inr (lb', 0, out\<lparr>so_node := lb_name lb i, so_need_feedback := True\<rparr>)"
proof -
  let ?t = "weight_tree (lb_view lb)" and ?sh = "lb_shared lb"
  from find_node_sub [OF i] have ie: "i < lb_size lb" "e < lb_weight lb i" by auto
  then have g: "good (weight_of ?t i ?sh)" "idle (weight_of ?t i ?sh)"
    using tree_ok_vw(2) [of "lb_view lb" ?sh i] ok idle
    by (auto simp: lb_ok_def lb_size_def lb_idle_def)
  have "e < w_weight (weight_of ?t i ?sh)" using ie(2) by (simp add: lb_weight_def wt_def)
  note ai = AddInflight_idle [OF g(2,1) t this, of i]
  have "inflight_at inp ?t i e ?sh = Inr (set_weight (sv_weight (?t ! i))
      ((weight_of ?t i ?sh)\<lparr>w_begin_time_sum := si_begin_time_us inp, w_begin_time_count := 1\<rparr>) ?sh, True)"
    by (simp add: inflight_at_def ai add_diff_def)
  moreover have "0 < lb_size lb" using ie by simp
  ultimately show ?thesis
    using select_server_find [where rnd = rnd, OF ok room _ d, of inp out] i
    by (simp add: select_stop_def lb_name_def)
qed

text \<open>The largest draw finds nobody, and when it comes up each time, nobody is selected.\<close>

lemma select_retry_largest:
  assumes ex: "exact sv sh" and n: "weight_tree sv \<noteq> []"
    and rnd: "\<And>k. rnd k (total_weight sh) = total_weight sh"
  shows "select_retry inp rnd (weight_tree sv) k n_try out sh = Inr (sh, -1, out)"
proof (induction "length (weight_tree sv) - n_try" arbitrary: k n_try rule: less_induct)
  case less
  let ?t = "weight_tree sv" and ?T = "total_weight sh"
  have ok: "tree_ok sv sh" using ex by (simp add: exact_def)
  have W: "0 \<le> wt sv sh i" if "i < length ?t" for i using wt_nonneg0 [OF ok that] .
  have T: "?T = subsum (wt sv sh) (length ?t) 0" "0 \<le> ?T" "?T < 2 ^ 63"
    using exact_total [OF ex] ex by (simp_all add: subsum_root exact_def)
  show ?case
  proof (cases "n_try + 1 \<ge> length ?t")
    case True
    then show ?thesis by (simp add: select_retry_def)
  next
    case False
    have "wt sv sh 0 \<le> ?T"
      unfolding T(1) subsum_root using n W by (intro member_le_sum) auto
    moreover have "0 < wt sv sh 0"
      using wt_nonneg [OF ok, of 0] n by (simp add: FLAGS_min_weight_def)
    ultimately have pos: "0 < ?T" by linarith
    have none: "find_node (wt sv sh) (length ?t) 0 ?T = None"
      by (rule find_node_none) (use W T(1) in simp_all)
    have "select_retry inp rnd ?t k n_try out sh =
        select_loop inp rnd ?t (k + 1) (n_try + 1) 0 ?T ?T out sh"
      using False pos rnd by (simp add: select_retry_def getRand_def)
    also have "\<dots> = select_retry inp rnd ?t (k + 1) (n_try + 1) out sh"
      using select_loop_find [OF ex pos, of 0 ?T] n T none by simp
    also have "\<dots> = Inr (sh, -1, out)" by (rule less.hyps) (use False in linarith)
    finally show ?thesis .
  qed
qed

lemma select_server_largest:
  assumes ok: "lb_ok lb" and room: "lb_room lb j" and n: "0 < lb_size lb"
    and rnd: "\<And>k. rnd k (lb_total lb) = lb_total lb"
  shows "select_server inp rnd out lb = Inr (lb, -1, out)"
proof -
  note tot = lb_total_weight [OF ok room] and ex = lb_exact [OF ok room]
  have pos: "0 < lb_total lb" by (rule lb_total_pos [OF ok n])
  have W: "0 \<le> lb_weight lb i" if "i < lb_size lb" for i
    using lb_weight_pos [OF ok that] by (simp add: FLAGS_min_weight_def)
  have none: "find_node (lb_weight lb) (lb_size lb) 0 (lb_total lb) = None"
    by (rule find_node_none) (use W in \<open>simp_all add: subsum_root lb_total_def\<close>)
  have ne: "weight_tree (lb_view lb) \<noteq> []" using n by (auto simp: lb_size_def)
  have d: "1 \<le> rnd 0 (lb_total lb)" "rnd 0 (lb_total lb) \<le> lb_total lb"
    using rnd [of 0] pos by auto
  have "select_retry inp rnd (weight_tree (lb_view lb)) 1 0 out (lb_shared lb) =
      Inr (lb_shared lb, -1, out)"
    by (rule select_retry_largest [OF ex ne]) (simp add: tot(1) rnd)
  then show ?thesis
    using select_server_find [where rnd = rnd, OF ok room n d, of inp out] rnd [of 0] none by simp
qed

text \<open>Which server a draw selects, when it comes up each time.\<close>

definition selected :: "select_in \<Rightarrow> lalb \<Rightarrow> int \<Rightarrow> server_name option" where
  "selected inp lb dice =
     (case select_server inp (\<lambda>_ _. dice) select_out_init lb of
        Inr (lb', r, out) \<Rightarrow> if r = 0 then Some (so_node out) else None
      | Inl _ \<Rightarrow> None)"

lemma lb_name_inj:
  assumes "lb_ok lb" "i < lb_size lb" "j < lb_size lb"
  shows "lb_name lb j = lb_name lb i \<longleftrightarrow> j = i"
  using assms tree_shape_index [of "lb_view lb" _ j i]
  by (auto simp: lb_name_def lb_ok_def tree_ok_def lb_size_def)

lemma selected_idle:
  assumes "lb_ok lb" "lb_room lb 0" "lb_idle lb" "in64 (si_begin_time_us inp)" "i < lb_size lb"
    and dice: "1 \<le> dice" "dice \<le> lb_total lb"
  shows "selected inp lb dice = Some (lb_name lb i) \<longleftrightarrow>
    node_offset (lb_weight lb) (lb_size lb) 0 i \<le> dice \<and>
    dice < node_offset (lb_weight lb) (lb_size lb) 0 i + lb_weight lb i"
proof -
  let ?n = "lb_size lb" and ?W = "lb_weight lb" and ?T = "lb_total lb"
  have W: "0 \<le> ?W j" if "j < ?n" for j
    using lb_weight_pos [OF assms(1) that] by (simp add: FLAGS_min_weight_def)
  have root: "subsum ?W ?n 0 = ?T" by (simp add: subsum_root lb_total_def)
  note offset = find_node_offset [of ?n ?W 0 i dice, OF W insub_0 assms(5)]
  show ?thesis
  proof (cases "dice < ?T")
    case True
    then obtain j e where j: "find_node ?W ?n 0 dice = Some (j, e)"
      using find_node_some [of ?n ?W dice 0, OF W] dice root by auto
    from select_server_idle [where rnd = "\<lambda>_ _. dice", OF assms(1-4) dice j, of select_out_init]
    have "selected inp lb dice = Some (lb_name lb j)" by (auto simp: selected_def)
    moreover have "j < ?n" using find_node_sub [OF j] by simp
    ultimately show ?thesis
      using lb_name_inj [OF assms(1,5), of j] offset j by auto
  next
    case False
    then have "dice = ?T" using dice by simp
    then have "selected inp lb dice = None"
      using select_server_largest [where rnd = "\<lambda>_ _. dice", OF assms(1,2), of inp select_out_init] assms(5)
      by (simp add: selected_def)
    moreover have "node_offset ?W ?n 0 i + ?W i \<le> ?T"
      using node_offset_bounds [of ?n ?W 0 i, OF W insub_0 assms(5)] root by simp
    ultimately show ?thesis using False by simp
  qed
qed

text \<open>Two servers of weight 5000, for the witnesses.\<close>

definition demo_lb :: lalb where
  "demo_lb = \<lparr>lb_servers = dbd_new demo_servers, lb_map = [''a'' \<mapsto> 1, ''b'' \<mapsto> 1],
     lb_shared = demo_shared\<rparr>"

lemma demo_view: "lb_view demo_lb = demo_servers" "lb_shared demo_lb = demo_shared"
  by (simp_all add: lb_view_def demo_lb_def both_read [OF both_new])

lemma demo_lb_simps:
  "lb_size demo_lb = 2" "lb_total demo_lb = 10000" "lb_weight demo_lb i = 5000"
  "lb_name demo_lb 0 = ''a''"
  by (simp_all add: lb_size_def lb_total_def lb_weight_def lb_name_def demo_view wt_def
      weight_of_def demo_shared_def new_weight_def) (simp_all add: demo_servers_def)

lemma demo_lb_ok: "lb_ok demo_lb"
  unfolding lb_ok_def demo_view
  by (simp add: demo_ok) (simp add: demo_lb_def demo_servers_def insert_commute)

lemma demo_lb_room: "lb_room demo_lb 0"
  unfolding lb_room_def by (intro exI [of _ WEIGHT_SCALE]) (simp add: demo_lb_simps)

lemma demo_lb_idle: "lb_idle demo_lb"
  by (simp add: lb_idle_def demo_view weight_of_def demo_shared_def new_weight_def idle_def)

section \<open>Selection always comes to an answer\<close>

text \<open>
  What the surroundings keep of a weight while selections go on: its values and times are in
  range, and \<open>C\<close> bounds its present and its base weight.
\<close>

definition selectable :: "int \<Rightarrow> int \<Rightarrow> weight \<Rightarrow> bool" where
  "selectable now C w \<longleftrightarrow>
     0 \<le> w_base_weight w \<and> w_base_weight w < 2 ^ 62 \<and> 0 \<le> w_avg_latency w \<and>
     w_avg_latency w < 2 ^ 63 \<and> w_base_weight w * w_avg_latency w < 2 ^ 63 \<and> in_range w \<and>
     in64 (w_begin_time_sum w + now) \<and> max (w_base_weight w) FLAGS_min_weight \<le> C \<and> w_weight w \<le> C"

lemma AddInflight_selectable:
  assumes s: "selectable (si_begin_time_us inp) C w" and g: "good w" "at_rest w"
    and now: "0 \<le> si_begin_time_us inp" "si_begin_time_us inp < 2 ^ 62" and i: "i \<noteq> NO_INDEX"
  shows "\<exists>w' r. AddInflight inp i e w = Inr (w', r) \<and>
     (\<not> chosen r \<longrightarrow> selectable (si_begin_time_us inp) C w')"
proof -
  let ?now = "si_begin_time_us inp"
  obtain w1 d where r: "ResetWeight i ?now w = Inr (w1, d)"
    and le: "w_weight w1 \<le> max (w_base_weight w) FLAGS_min_weight"
    using ResetWeight_defined [of w ?now i] s now by (auto simp: selectable_def)
  note f = ResetWeight_frame [OF r] and st = ResetWeight_step [OF r]
  have nd: "\<not> disabled w" using g by (simp add: good_def live_not_disabled)
  have "w_old_diff_sum w1 = w_old_diff_sum w"
    using st g(2) i by (auto simp: weight_step_def at_rest_def)
  moreover have "w_weight w1 < 2 ^ 62" "0 \<le> w_weight w1"
    using le f s by (auto simp: selectable_def FLAGS_min_weight_def)
  ultimately have "in_range w1" using f s by (simp add: in_range_def selectable_def)
  then have s1: "selectable ?now C w1" using f le s by (auto simp: selectable_def)
  then have "in64 (w_begin_time_sum w1 + ?now)" by (simp add: selectable_def)
  then show ?thesis using r nd s1 by (simp add: AddInflight_def)
qed

definition selectable_tree :: "int \<Rightarrow> (nat \<Rightarrow> int) \<Rightarrow> servers \<Rightarrow> shared \<Rightarrow> bool" where
  "selectable_tree now C sv sh \<longleftrightarrow>
     tree_ok sv sh \<and> (\<Sum>i < length (weight_tree sv). C i) < 2 ^ 63 \<and>
     (\<forall>i < length (weight_tree sv). selectable now (C i) (weight_of (weight_tree sv) i sh))"

lemma selectable_exact: "selectable_tree now C sv sh \<Longrightarrow> exact sv sh"
proof -
  assume a: "selectable_tree now C sv sh"
  then have "(\<Sum>i < length (weight_tree sv). wt sv sh i) \<le> (\<Sum>i < length (weight_tree sv). C i)"
    by (intro sum_mono) (simp add: selectable_tree_def selectable_def wt_def)
  with a show ?thesis by (simp add: exact_def selectable_tree_def)
qed

lemma inflight_selectable:
  assumes sel: "selectable_tree (si_begin_time_us inp) C sv sh" and i: "i < length (weight_tree sv)"
    and now: "0 \<le> si_begin_time_us inp" "si_begin_time_us inp < 2 ^ 62"
  shows "\<exists>sh' c. inflight_at inp (weight_tree sv) i e sh = Inr (sh', c) \<and> tree_ok sv sh' \<and>
     (\<not> c \<longrightarrow> selectable_tree (si_begin_time_us inp) C sv sh')"
proof -
  let ?t = "weight_tree sv" and ?a = "sv_weight (weight_tree sv ! i)"
  let ?as = "map sv_weight (weight_tree sv)" and ?ls = "map sv_left (weight_tree sv)"
  have ok: "tree_ok sv sh" using sel by (simp add: selectable_tree_def)
  then have shape: "tree_shape sv (next_ptr sh)" and acc: "accounted ?as ?ls sh"
    by (simp_all add: tree_ok_def)
  then have len: "length ?t < NO_INDEX" and dl: "distinct ?ls" by (simp_all add: accounted_def)
  have g: "good (weight_of ?t i sh)" "at_rest (weight_of ?t i sh)"
    using tree_ok_vw(2) [OF ok i] ok i by (auto simp: tree_ok_def weight_of_def)
  from AddInflight_selectable [OF _ g now, of "C i" i e] sel i len obtain w r where
    w: "AddInflight inp i e (weight_of ?t i sh) = Inr (w, r)"
       "\<not> chosen r \<longrightarrow> selectable (si_begin_time_us inp) (C i) w"
    by (auto simp: selectable_tree_def)
  have "sums ?ls (wt sv sh) (set_weight ?a w sh)" using tree_ok_sums [OF ok] by simp
  from add_diff_sums [OF agrees_self [OF shape] dl _ _ this, of i "weight_diff r"] i obtain sh' where
    sh': "add_diff ?t (weight_diff r) i (set_weight ?a w sh) = Inr sh'"
      "wheap sh' = (wheap sh)(?a := w)" by auto
  have run: "inflight_at inp ?t i e sh = Inr (sh', chosen r)"
    using w(1) sh'(1) by (simp add: inflight_at_def)
  then have vis: "visit_at (Visit_Inflight inp e) ?t i sh = Inr sh'" by simp
  have "view ?as ?ls sh ?t" using agrees_self [OF shape] by (simp add: view_def)
  from visit_accounted [OF acc this i vis] have
    acc': "accounted ?as ?ls sh'" and nf: "node_frame ?a ?ls sh sh'" by auto
  have ok': "tree_ok sv sh'"
    using ok acc' frames_at_rest [OF node_frame_frames [OF nf]] nf
    by (auto simp: tree_ok_def node_frame_def)
  have "selectable (si_begin_time_us inp) (C j) (weight_of ?t j sh')"
    if "\<not> chosen r" "j < length ?t" for j
    using that w(2) sel weights_differ [OF shape that(2) i]
    by (cases "j = i") (auto simp: weight_of_def sh'(2) selectable_tree_def)
  with run ok' sel show ?thesis by (auto simp: selectable_tree_def)
qed

lemma select_retry_answers:
  assumes sel: "selectable_tree (si_begin_time_us inp) C sv sh" and ne: "weight_tree sv \<noteq> []"
    and now: "0 \<le> si_begin_time_us inp" "si_begin_time_us inp < 2 ^ 62" and rnd: "in_bounds rnd"
  shows "\<exists>sh' r out'. select_retry inp rnd (weight_tree sv) k n_try out sh = Inr (sh', r, out') \<and>
     tree_ok sv sh' \<and>
     (r = 0 \<and> so_node out' \<in> sv_name ` set (weight_tree sv) \<or> r = -1 \<and> out' = out)"
  using sel
proof (induction "length (weight_tree sv) - n_try" arbitrary: k n_try sh rule: less_induct)
  case less
  let ?t = "weight_tree sv" and ?T = "total_weight sh"
  have ex: "exact sv sh" and ok: "tree_ok sv sh"
    using less.prems selectable_exact by (auto simp: selectable_tree_def)
  show ?case
  proof (cases "n_try + 1 \<ge> length ?t")
    case True
    then show ?thesis using ok by (simp add: select_retry_def)
  next
    case False
    have "wt sv sh 0 \<le> ?T"
      unfolding exact_total(1) [OF ex] using ne wt_nonneg0 [OF ok] by (intro member_le_sum) auto
    then have pos: "1 \<le> ?T"
      using wt_nonneg [OF ok, of 0] ne by (simp add: FLAGS_min_weight_def)
    define dice where "dice = rnd k ?T"
    have dice: "1 \<le> dice" "dice \<le> ?T" using rnd pos by (simp_all add: in_bounds_def dice_def)
    have T: "?T < 2 ^ 63" using exact_total(1) [OF ex] ex by (simp add: exact_def)
    have "select_retry inp rnd ?t k n_try out sh =
        select_loop inp rnd ?t (k + 1) (n_try + 1) 0 ?T dice out sh"
      using False pos by (simp add: select_retry_def getRand_def dice_def)
    also have "\<dots> = (case find_node (wt sv sh) (length ?t) 0 dice of
         Some (i, e) \<Rightarrow> select_stop inp rnd ?t (k + 1) (n_try + 1) i e out sh
       | None \<Rightarrow> select_retry inp rnd ?t (k + 1) (n_try + 1) out sh)"
      by (rule select_loop_find [OF ex]) (use pos dice T ne in auto)
    finally have eq: "select_retry inp rnd ?t k n_try out sh = \<dots>" .
    show ?thesis
    proof (cases "find_node (wt sv sh) (length ?t) 0 dice")
      case None
      have "length ?t - (n_try + 1) < length ?t - n_try" using False by linarith
      from less.hyps [OF this less.prems, of "k + 1"] show ?thesis unfolding eq None by simp
    next
      case (Some p)
      obtain i e where p: "p = (i, e)" by (cases p)
      have i: "i < length ?t" using find_node_sub Some p by blast
      from inflight_selectable [OF less.prems i now, of e] obtain sh' c where
        c: "inflight_at inp ?t i e sh = Inr (sh', c)" "tree_ok sv sh'"
           "\<not> c \<longrightarrow> selectable_tree (si_begin_time_us inp) C sv sh'" by blast
      have "length ?t - (n_try + 2) < length ?t - n_try" using False by linarith
      from less.hyps [OF this, of sh' "k + 1"] c i show ?thesis
        unfolding eq Some p by (auto simp: select_stop_def)
    qed
  qed
qed

section \<open>Properties\<close>



text \<open>
  The largest draw selects nobody although servers are there: the search falls off to the
  right, and when the draw comes up on every try, \<open>select_server\<close> returns -1 and changes
  nothing. A balancer with one server has only one try.
\<close>

theorem select_server_misses:
  assumes "lb_ok lb" "lb_room lb j" "0 < lb_size lb" "\<forall>k. rnd k (lb_total lb) = lb_total lb"
  shows "select_server inp rnd out lb = Inr (lb, -1, out)"
  by (rule select_server_largest [OF assms(1-3)]) (simp add: assms(4))

lemma select_server_misses_witness:
  "select_server demo_in (\<lambda>_ n. n) select_out_init demo_lb = Inr (demo_lb, -1, select_out_init)"
  by (rule select_server_misses [OF demo_lb_ok demo_lb_room])
    (simp_all add: demo_lb_simps)

text \<open>
  On a balancer without servers \<open>select_server\<close> does not return -1: it draws from the
  empty range \<open>[1, 0]\<close>, which is undefined behaviour.
\<close>

theorem select_server_empty:
  "lb_ok lb \<Longrightarrow> lb_size lb = 0 \<Longrightarrow> select_server inp rnd out lb = Inl BadRange"
  using tree_ok_sums [of "lb_view lb" "lb_shared lb"]
  by (simp add: lb_ok_def lb_size_def select_server_def select_on_def getRand_def sums_def
      flip: lb_view_def)

lemma select_server_empty_witness:
  "select_server demo_in (\<lambda>k n. 1) select_out_init lalb_new = Inl BadRange"
  using select_server_empty [OF lalb_new_ok(1,3)] .

lemma select_on_answers:
  assumes ok: "tree_ok sv sh" and sel: "selectable_tree (si_begin_time_us inp) C sv sh"
    and ne: "weight_tree sv \<noteq> []" and inp: "0 \<le> si_begin_time_us inp" "si_begin_time_us inp < 2 ^ 62"
    and rnd: "in_bounds rnd"
  shows "\<exists>sh' r out'. select_on inp rnd sv out sh = Inr (sh', r, out') \<and> tree_ok sv sh' \<and>
    (r = 0 \<and> so_node out' \<in> sv_name ` set (weight_tree sv) \<or> r = -1 \<and> out' = out)"
proof -
  let ?t = "weight_tree sv"
  note ex = selectable_exact [OF sel]
  define dice where "dice = rnd 0 (total_weight sh)"
  have "wt sv sh 0 \<le> total_weight sh"
    unfolding exact_total(1) [OF ex] using ne wt_nonneg0 [OF ok] by (intro member_le_sum) auto
  then have pos: "1 \<le> total_weight sh"
    using wt_nonneg [OF ok, of 0] ne by (simp add: FLAGS_min_weight_def)
  then have dice: "1 \<le> dice" "dice \<le> total_weight sh"
    using rnd by (simp_all add: in_bounds_def dice_def)
  have T: "total_weight sh < 2 ^ 63" using exact_total(1) [OF ex] ex by (simp add: exact_def)
  have run: "select_on inp rnd sv out sh =
      (case find_node (wt sv sh) (length ?t) 0 dice of
         Some (i, e) \<Rightarrow> select_stop inp rnd ?t 1 0 i e out sh
       | None \<Rightarrow> select_retry inp rnd ?t 1 0 out sh)"
    using select_loop_find [OF ex, of "total_weight sh" 0 dice] pos dice T ne
    by (simp add: select_on_def getRand_def dice_def del: One_nat_def)
  note retry = select_retry_answers [OF _ ne inp rnd]
  show ?thesis
  proof (cases "find_node (wt sv sh) (length ?t) 0 dice")
    case None
    with retry [OF sel, of 1 0 out] show ?thesis unfolding run by simp
  next
    case (Some p)
    obtain i e where p: "p = (i, e)" by (cases p)
    have i: "i < length ?t" using find_node_sub Some p by blast
    from inflight_selectable [OF sel i inp, of e] obtain sh' c where
      c: "inflight_at inp ?t i e sh = Inr (sh', c)" "tree_ok sv sh'"
         "\<not> c \<longrightarrow> selectable_tree (si_begin_time_us inp) C sv sh'" by blast
    with retry [of C sh' 1 1 out] i show ?thesis
      unfolding run Some p by (auto simp: select_stop_def)
  qed
qed



section \<open>Feedback\<close>

lemma update_at_run:
  assumes ok: "tree_ok sv sh" and i: "i < length (weight_tree sv)"
  shows "(case Update now info i (weight_of (weight_tree sv) i sh) of
       Inl e \<Rightarrow> update_at now info (weight_tree sv) i sh = Inl e
     | Inr _ \<Rightarrow> \<exists>sh'. update_at now info (weight_tree sv) i sh = Inr sh' \<and> tree_ok sv sh')"
proof (cases "Update now info i (weight_of (weight_tree sv) i sh)")
  case (Inl e)
  then show ?thesis by (simp add: update_at_def)
next
  case (Inr p)
  let ?t = "weight_tree sv" and ?as = "map sv_weight (weight_tree sv)"
    and ?ls = "map sv_left (weight_tree sv)" and ?a = "sv_weight (weight_tree sv ! i)"
  obtain w d where p: "p = (w, d)" by (cases p)
  have shape: "tree_shape sv (next_ptr sh)" and acc: "accounted ?as ?ls sh"
    using ok by (simp_all add: tree_ok_def)
  then have dl: "distinct ?ls" by (simp add: accounted_def)
  have "sums ?ls (wt sv sh) (set_weight ?a w sh)" using tree_ok_sums [OF ok] by simp
  from add_diff_sums [OF agrees_self [OF shape] dl _ _ this, of i d] i obtain sh' where
    sh': "add_diff ?t d i (set_weight ?a w sh) = Inr sh'" by auto
  then have run: "update_at now info ?t i sh = Inr sh'" using Inr p by (simp add: update_at_def)
  then have vis: "visit_at (Visit_Update now info) ?t i sh = Inr sh'" by simp
  have "view ?as ?ls sh ?t" using agrees_self [OF shape] by (simp add: view_def)
  from visit_accounted [OF acc this i vis] have
    acc': "accounted ?as ?ls sh'" and nf: "node_frame ?a ?ls sh sh'" by auto
  have "tree_ok sv sh'"
    using ok acc' frames_at_rest [OF node_frame_frames [OF nf]] nf
    by (auto simp: tree_ok_def node_frame_def)
  with run Inr show ?thesis by simp
qed

text \<open>
  C18: a feedback finds the server it is about and keeps the invariant: the feedback of an
  unknown server changes nothing, the feedback of a member changes only shared sums and
  weights, and it fails only where the update of that member's weight does.
\<close>

theorem Feedback_correct:
  assumes "lb_ok lb"
  shows "case Feedback now info lb of
      Inr lb' \<Rightarrow> lb_ok lb' \<and> lb_members lb' = lb_members lb \<and> lb_view lb' = lb_view lb \<and>
        (ci_node info \<notin> lb_members lb \<longrightarrow> lb' = lb)
    | Inl e \<Rightarrow> \<exists>i < lb_size lb. lb_name lb i = ci_node info \<and>
        Update now info i (weight_of (weight_tree (lb_view lb)) i (lb_shared lb)) = Inl e"
proof (cases "ci_node info \<in> lb_members lb")
  case False
  then have "lb_map lb (ci_node info) = None" by (auto simp: lb_members_def)
  then show ?thesis using assms by (simp add: Feedback_def)
next
  case True
  let ?sv = "lb_view lb" and ?sh = "lb_shared lb"
  have ok: "tree_ok ?sv ?sh" using assms by (simp add: lb_ok_def)
  obtain c where c: "lb_map lb (ci_node info) = Some c" using True by (auto simp: lb_members_def)
  have "ci_node info \<in> dom (server_map ?sv)" using True assms by (simp add: lb_ok_def lb_members_def)
  then obtain i where i: "server_map ?sv (ci_node info) = Some i" by blast
  then have n: "i < length (weight_tree ?sv)" "sv_name (weight_tree ?sv ! i) = ci_node info"
    using ok by (simp_all add: tree_ok_def tree_shape_def)
  have run: "Feedback now info lb = ubind (update_at now info (weight_tree ?sv) i ?sh)
      (\<lambda>sh. Inr (lb\<lparr>lb_shared := sh\<rparr>))"
    using c i n by (simp add: Feedback_def feedback_on_def flip: lb_view_def)
  have v: "lb_view (lb\<lparr>lb_shared := sh\<rparr>) = ?sv" for sh by (simp add: lb_view_def)
  from update_at_run [OF ok n(1), of now info] run n v assms show ?thesis
    by (cases "Update now info i (weight_of (weight_tree ?sv) i ?sh)")
      (auto simp: lb_size_def lb_name_def lb_members_def lb_ok_def c)
qed

lemma Feedback_correct_witness:
  "\<exists>lb'. Feedback 5 \<lparr>ci_begin_time_us = 10, ci_node = ''a'', ci_error_code = 0\<rparr> demo_lb = Inr lb' \<and>
     lb_ok lb' \<and> lb_members lb' = {''a'', ''b''}"
proof -
  let ?ci = "\<lparr>ci_begin_time_us = 10, ci_node = ''a'', ci_error_code = 0\<rparr>"
  have "\<exists>p. Update 5 ?ci i (weight_of (weight_tree (lb_view demo_lb)) i (lb_shared demo_lb)) = Inr p" for i
    by (simp add: Update_def demo_view weight_of_def demo_shared_def new_weight_def disabled_def in64_def)
  then have "Update 5 ?ci i (weight_of (weight_tree (lb_view demo_lb)) i (lb_shared demo_lb)) \<noteq> Inl e" for i e
    by (metis Inl_Inr_False)
  moreover have "lb_members demo_lb = {''a'', ''b''}" by (auto simp: lb_members_def demo_lb_def)
  ultimately show ?thesis
    using Feedback_correct [where now = 5 and info = ?ci, OF demo_lb_ok]
    by (cases "Feedback 5 ?ci demo_lb") auto
qed

end
