(* ===== verification/WeightedRandom.thy ===== *)
theory WeightedRandom
  imports BalancerSelect
begin

text \<open>
  \<open>WeightedRandomLoadBalancer\<close> (\<open>src/rpc_proto/weighted_random_load_balancer.cc\<close> and its
  header). The class is a copy of the locality-aware balancer: the data, \<open>Add\<close>, \<open>Remove\<close>,
  \<open>MarkOld\<close>, \<open>ClearOld\<close>, \<open>Disable\<close>, \<open>UpdateParentWeight\<close> are the same text, and so the same
  functions here, under names of their own where a caller uses them. What differs is modelled
  anew: \<open>select_server\<close> takes the node the search stops at without visiting its weight,
  \<open>Update\<close> computes a base weight but never resets the weight, logs once a second and returns
  0, and \<open>Feedback\<close> does not touch the sums.

  The consequence is proved below: from a new balancer on, every server always has the weight
  \<open>WEIGHT_SCALE\<close>, so the choice is uniform up to one draw, whatever the feedbacks say.
\<close>

section \<open>The data\<close>

text \<open>The header declares the same fields again; the socket factory is not used.\<close>

type_synonym wr_weight = weight
type_synonym wr_server_info = server_info
type_synonym wr_servers = servers
type_synonym wr_balancer = lalb

definition wr_new :: wr_balancer where
  "wr_new = lalb_new"

section \<open>Membership\<close>

definition wr_Add ::
  "wr_servers \<Rightarrow> wr_servers \<Rightarrow> server_name \<Rightarrow> int \<Rightarrow> shared \<Rightarrow> (wr_servers \<times> shared \<times> nat) res" where
  "wr_Add = Add"

definition wr_Remove :: "wr_servers \<Rightarrow> server_name \<Rightarrow> shared \<Rightarrow> (wr_servers \<times> shared \<times> nat) res" where
  "wr_Remove = Remove"

definition wr_add_server :: "int \<Rightarrow> server_name \<Rightarrow> wr_balancer \<Rightarrow> wr_balancer res" where
  "wr_add_server now server_name lb =
     (let c = (case lb_map lb server_name of None \<Rightarrow> 0 | Some c \<Rightarrow> c) + 1;
          lb = lb\<lparr>lb_map := (lb_map lb)(server_name \<mapsto> c)\<rparr>
      in if c \<noteq> 1 then Inr lb
         else ubind (ModifyWithForeground2 wr_Add server_name now (lb_servers lb) (lb_shared lb))
                (\<lambda>(d, sh). Inr (lb\<lparr>lb_servers := d, lb_shared := sh\<rparr>)))"

definition wr_remove_server :: "server_name \<Rightarrow> wr_balancer \<Rightarrow> wr_balancer res" where
  "wr_remove_server server_name lb =
     (case lb_map lb server_name of
        None \<Rightarrow> Inr lb
      | Some _ \<Rightarrow>
          let lb = lb\<lparr>lb_map := (lb_map lb)(server_name := None)\<rparr>
          in ubind (Modify2 (\<lambda>bg name (_ :: unit). wr_Remove bg name) server_name ()
                      (lb_servers lb) (lb_shared lb))
               (\<lambda>(d, sh). Inr (lb\<lparr>lb_servers := d, lb_shared := sh\<rparr>)))"

lemma wr_add_server_eq: "wr_add_server = add_server"
  by (intro ext) (simp only: wr_add_server_def add_server_def wr_Add_def)

lemma wr_remove_server_eq: "wr_remove_server = remove_server"
  by (intro ext) (simp only: wr_remove_server_def remove_server_def wr_Remove_def)

interpretation wrlb: monotone_registry lb_ok lb_members lb_room "wr_add_server now" wr_remove_server for now
  unfolding wr_add_server_eq wr_remove_server_eq by (rule lalb.monotone_registry_axioms)

section \<open>Selection\<close>

function wr_select_loop ::
  "draws \<Rightarrow> wr_server_info list \<Rightarrow> nat \<Rightarrow> nat \<Rightarrow> nat \<Rightarrow> int \<Rightarrow> int \<Rightarrow> select_out \<Rightarrow> shared \<Rightarrow>
   (int \<times> select_out) res" where
  "wr_select_loop rnd tree k n_try index tw dice out sh =
     (let n = length tree in
      if \<not> tw > 0 then Inr (-1, out)
      else if \<not> index < n then Inl OutOfBounds
      else let node = tree ! index; left = lheap sh (sv_left node);
               self = volatile_value (weight_of tree index sh) in
        if dice < left
        then wr_select_loop rnd tree k n_try (2 * index + 1) tw dice out sh
        else ubind (chk64 (left + self)) (\<lambda>upto.
        if dice \<ge> upto then
          ubind (chk64 (dice - upto)) (\<lambda>dice.
          if 2 * index + 2 < n
          then wr_select_loop rnd tree k n_try (2 * index + 2) tw dice out sh
          else if n_try + 1 \<ge> n then Inr (-1, out)
          else ubind (getRand rnd k (total_weight sh)) (\<lambda>dice.
            wr_select_loop rnd tree (k + 1) (n_try + 1) 0 (total_weight sh) dice out sh))
        else Inr (0, out\<lparr>so_node := sv_name node, so_need_feedback := True\<rparr>)))"
  by pat_completeness auto
termination
  by (relation "measures [\<lambda>(rnd, tree, k, n_try, index, tw, dice, out, sh). length tree - n_try,
                          \<lambda>(rnd, tree, k, n_try, index, tw, dice, out, sh). length tree - index]")
     auto

declare wr_select_loop.simps [simp del]

definition wr_select_server :: "draws \<Rightarrow> select_out \<Rightarrow> wr_balancer \<Rightarrow> (int \<times> select_out) res" where
  "wr_select_server rnd out lb =
     (let servers = UnsafeRead (lb_servers lb); sh = lb_shared lb in
      ubind (getRand rnd 0 (total_weight sh)) (\<lambda>dice.
      wr_select_loop rnd (weight_tree servers) 1 0 0 (total_weight sh) dice out sh))"

section \<open>Feedback\<close>

text \<open>The once-a-second log of the weight.\<close>

definition wr_log_weight :: "int \<Rightarrow> wr_weight \<Rightarrow> wr_weight res" where
  "wr_log_weight now w =
     ubind (chk64 (now - w_last_time_us w)) (\<lambda>d.
     Inr (if d > 1000000 then w\<lparr>w_last_time_us := now\<rparr> else w))"

definition wr_update_from_window :: "int \<Rightarrow> wr_weight \<Rightarrow> wr_weight res" where
  "wr_update_from_window now w =
     (let q = w_time_q w; n = bq_size q in
      ubind (deref q (bq_top q)) (\<lambda>top.
      if now > end_time_us top then
        ubind (scaled_qps n (bq_capacity q) now (end_time_us top)) (\<lambda>qps.
        ubind (deref_bottom q) (\<lambda>bot.
        ubind (chk64 (latency_sum bot - latency_sum top)) (\<lambda>span.
        if u64 (int n - 1) = 0 then Inl DivByZero
        else let avg = s64 (u64 span div u64 (int n - 1)); w = w\<lparr>w_avg_latency := avg\<rparr>
             in if avg = 0 then Inr w
                else wr_log_weight now (w\<lparr>w_base_weight := qps sdiv avg\<rparr>))))
      else if n = 1 then
        ubind (deref_bottom q) (\<lambda>bot.
        let avg = latency_sum bot; w = w\<lparr>w_avg_latency := avg\<rparr>
        in if avg = 0 then Inr w
           else wr_log_weight now (w\<lparr>w_base_weight := (DEFAULT_QPS * WEIGHT_SCALE) sdiv avg\<rparr>))
      else Inr w))"

definition wr_Update :: "int \<Rightarrow> call_info \<Rightarrow> wr_weight \<Rightarrow> (wr_weight \<times> int) res" where
  "wr_Update now ci w =
     ubind (chk64 (now - ci_begin_time_us ci)) (\<lambda>latency.
     if disabled w then Inr (w, 0)
     else ubind (chk64 (w_begin_time_sum w - ci_begin_time_us ci)) (\<lambda>s.
       let w = w\<lparr>w_begin_time_sum := s, w_begin_time_count := w_begin_time_count w - 1\<rparr>
       in if latency \<le> 0 then Inr (w, 0)
          else ubind (if ci_error_code ci = 0 then push_sample latency now w else Inr w) (\<lambda>w.
               ubind (wr_update_from_window now w) (\<lambda>w. Inr (w, 0)))))"

definition wr_Feedback :: "int \<Rightarrow> call_info \<Rightarrow> wr_balancer \<Rightarrow> wr_balancer res" where
  "wr_Feedback now info lb =
     (if lb_map lb (ci_node info) = None then Inr lb
      else let servers = UnsafeRead (lb_servers lb); sh = lb_shared lb in
        ubind (of_opt NullDeref (server_map servers (ci_node info))) (\<lambda>index.
        if index < length (weight_tree servers)
        then ubind (wr_Update now info (weight_of (weight_tree servers) index sh)) (\<lambda>(w, diff).
               Inr (lb\<lparr>lb_shared := set_weight (sv_weight (weight_tree servers ! index)) w sh\<rparr>))
        else Inl OutOfBounds))"

section \<open>What a feedback changes\<close>

text \<open>Neither the weight nor its marks: \<open>quiet w w'\<close>.\<close>

definition quiet :: "weight \<Rightarrow> weight \<Rightarrow> bool" where
  "quiet w w' \<longleftrightarrow> w_weight w' = w_weight w \<and> w_old_index w' = w_old_index w \<and>
     w_old_weight w' = w_old_weight w \<and> w_old_diff_sum w' = w_old_diff_sum w"

lemma quiet_refl [simp]: "quiet w w"
  by (simp add: quiet_def)

lemma wr_update_from_window_quiet: "wr_update_from_window now w = Inr w' \<Longrightarrow> quiet w w'"
  by (auto simp: wr_update_from_window_def Let_def wr_log_weight_def quiet_def split: if_splits)

lemma wr_Update_cases [consumes 1, case_names disabled skew window]:
  assumes "wr_Update now ci w = Inr (w', d)"
  obtains "disabled w" "w' = w" "d = 0"
  | s where "\<not> disabled w" "d = 0"
      "w' = w\<lparr>w_begin_time_sum := s, w_begin_time_count := w_begin_time_count w - 1\<rparr>"
  | s w1 w2 where "\<not> disabled w" "d = 0" "ci_begin_time_us ci < now"
      "w1 = w\<lparr>w_begin_time_sum := s, w_begin_time_count := w_begin_time_count w - 1\<rparr>"
      "(if ci_error_code ci = 0 then push_sample (now - ci_begin_time_us ci) now w1
        else Inr w1) = Inr w2"
      "wr_update_from_window now w2 = Inr w'"
  using assms unfolding wr_Update_def Let_def
  by (elim ubind_InrE) (force split: if_split_asm)

lemma wr_Update_quiet:
  assumes "wr_Update now ci w = Inr (w', d)"
  shows "quiet w w' \<and> d = 0"
  using assms
proof (cases rule: wr_Update_cases)
  case (window s w1 w2)
  have "quiet w w2" using window(4,5) by (auto simp: quiet_def split: if_splits elim!: push_sample_frame)
  with wr_update_from_window_quiet [OF window(6)] window(2) show ?thesis by (simp add: quiet_def)
qed (simp_all add: quiet_def)

lemma wr_update_from_window_good:
  assumes r: "wr_update_from_window now w = Inr w'" and g: "good w"
  shows "good w'"
proof -
  let ?q = "w_time_q w" and ?n = "length (bq_list (w_time_q w))"
  have q: "window_inv ?q" "bq_inv ?q" using g by (simp_all add: good_def weight_inv_def window_inv_def)
  have ne: "bq_list ?q \<noteq> []" using r q by (auto simp: wr_update_from_window_def Let_def)
  let ?hd = "hd (bq_list ?q)" and ?la = "last (bq_list ?q)"
  have pos: "0 < latency_sum ?la" using q ne by (auto simp: window_inv_def dest: last_in_set)
  show ?thesis
  proof (cases "now > end_time_us ?hd")
    case True
    let ?avg = "s64 (u64 (latency_sum ?la - latency_sum ?hd) div u64 (int ?n - 1))"
    obtain qps where qps: "scaled_qps ?n (bq_capacity ?q) now (end_time_us ?hd) = Inr qps"
      and dz: "u64 (int ?n - 1) \<noteq> 0"
      and rest: "(if ?avg = 0 then Inr (w\<lparr>w_avg_latency := ?avg\<rparr>)
          else wr_log_weight now (w\<lparr>w_avg_latency := ?avg, w_base_weight := qps sdiv ?avg\<rparr>)) = Inr w'"
      using r q ne True by (auto simp: wr_update_from_window_def Let_def split: if_splits)
    have "?n \<noteq> 1" using dz by (auto simp: u64_def)
    with ne have n2: "2 \<le> ?n" by (cases "bq_list ?q"; cases "tl (bq_list ?q)") auto
    have "?avg = (latency_sum ?la - latency_sum ?hd) div (int ?n - 1)"
      using window_span [OF q(1) n2] window_length [OF q(1)] n2 by (intro s64_u64_div) auto
    then have avg: "0 \<le> ?avg"
      using window_span [OF q(1) n2] n2 by (simp add: pos_imp_zdiv_nonneg_iff)
    moreover have "0 \<le> qps sdiv ?avg"
      using scaled_qps_ge [OF qps] avg
      by (cases "?avg = 0") (simp_all add: sdiv_nonneg pos_imp_zdiv_nonneg_iff)
    ultimately show ?thesis
      using rest g by (auto simp: good_def live_def weight_inv_def wr_log_weight_def split: if_splits)
  next
    case False
    then have "w' = w \<or>
      wr_log_weight now (w\<lparr>w_avg_latency := latency_sum ?la,
        w_base_weight := (DEFAULT_QPS * WEIGHT_SCALE) sdiv latency_sum ?la\<rparr>) = Inr w'"
      using r q ne pos by (auto simp: wr_update_from_window_def Let_def split: if_splits)
    moreover have "0 \<le> (DEFAULT_QPS * WEIGHT_SCALE) sdiv latency_sum ?la"
      using pos by (simp add: DEFAULT_QPS_def sdiv_nonneg pos_imp_zdiv_nonneg_iff)
    ultimately show ?thesis
      using g pos by (auto simp: good_def live_def weight_inv_def wr_log_weight_def split: if_splits)
  qed
qed

lemma wr_Update_good:
  assumes "wr_Update now ci w = Inr (w', d)" "good w"
  shows "good w'"
  using assms(1)
proof (cases rule: wr_Update_cases)
  case (window s w1 w2)
  have "good w2"
  proof (cases "ci_error_code ci = 0")
    case True
    then have p: "push_sample (now - ci_begin_time_us ci) now w1 = Inr w2" using window(5) by simp
    have lat: "in64 (now - ci_begin_time_us ci)" using assms(1) by (auto simp: wr_Update_def)
    have "window_inv (w_time_q w1)" using assms(2) window(4) by (simp add: good_def weight_inv_def)
    from push_sample_window_inv [OF this _ lat p] window(3) have "window_inv (w_time_q w2)" by simp
    moreover from p obtain q where "w2 = w1\<lparr>w_time_q := q\<rparr>" by (rule push_sample_frame)
    ultimately show ?thesis using assms(2) window(4) by (simp add: good_def weight_inv_def live_def)
  next
    case False
    then show ?thesis using window(4,5) assms(2) by (auto simp: good_def weight_inv_def live_def)
  qed
  then show ?thesis using wr_update_from_window_good [OF window(6)] by blast
qed (use assms(2) in \<open>simp_all add: good_def live_def weight_inv_def\<close>)

lemma quiet_vw: "quiet w w' \<Longrightarrow> vw i w' = vw i w"
  by (simp add: quiet_def vw_def)

lemma set_quiet_tree_ok:
  assumes ok: "tree_ok sv sh" and i: "i < length (weight_tree sv)"
    and q: "quiet (weight_of (weight_tree sv) i sh) w" "good w"
  defines "sh' \<equiv> set_weight (sv_weight (weight_tree sv ! i)) w sh"
  shows "tree_ok sv sh'" and "wt sv sh' = wt sv sh"
proof -
  let ?a = "sv_weight (weight_tree sv ! i)" and ?as = "map sv_weight (weight_tree sv)"
  have w: "wheap sh' x = (if x = ?a then w else wheap sh x)" for x by (simp add: sh'_def)
  have old: "w_old_index (wheap sh' x) = w_old_index (wheap sh x)"
    and v: "vw j (wheap sh' x) = vw j (wheap sh x)" for x j
    using q(1) quiet_vw [OF q(1)] by (auto simp: w quiet_def weight_of_def)
  have acc: "accounted ?as (map sv_left (weight_tree sv)) sh" using ok by (simp add: tree_ok_def)
  have good: "\<forall>a \<in> set ?as. good (wheap sh' a)" using acc q(2) by (simp add: accounted_def w)
  have "sums (map sv_left (weight_tree sv)) (\<lambda>i. vw i (wheap sh (?as ! i))) sh'"
    using acc by (simp add: accounted_def sh'_def)
  then have "accounted ?as (map sv_left (weight_tree sv)) sh'"
    using acc good unfolding accounted_def old v by blast
  moreover have "at_rest (wheap sh' x) = at_rest (wheap sh x)" for x
    using q(1) by (auto simp: w quiet_def at_rest_def weight_of_def)
  ultimately show "tree_ok sv sh'" using ok by (simp add: tree_ok_def sh'_def)
  show "wt sv sh' = wt sv sh"
    using q(1) by (intro ext) (auto simp: wt_def weight_of_def w quiet_def)
qed

lemma wr_Feedback_ok:
  assumes ok: "lb_ok lb" and r: "wr_Feedback now info lb = Inr lb'"
  shows "lb_ok lb' \<and> lb_view lb' = lb_view lb \<and> lb_members lb' = lb_members lb \<and>
     lb_weight lb' = lb_weight lb"
proof (cases "lb_map lb (ci_node info) = None")
  case True
  then show ?thesis using ok r by (simp add: wr_Feedback_def)
next
  case False
  let ?sv = "lb_view lb" and ?sh = "lb_shared lb"
  obtain i w d where i: "i < length (weight_tree ?sv)" and
    u: "wr_Update now info (weight_of (weight_tree ?sv) i ?sh) = Inr (w, d)" and
    lb': "lb' = lb\<lparr>lb_shared := set_weight (sv_weight (weight_tree ?sv ! i)) w ?sh\<rparr>"
    using r False by (auto simp: wr_Feedback_def Let_def lb_view_def split: if_splits)
  have t: "tree_ok ?sv ?sh" using ok by (simp add: lb_ok_def)
  note q = wr_Update_quiet [OF u] wr_Update_good [OF u tree_ok_vw(2) [OF t i]]
  note s = set_quiet_tree_ok [OF t i conjunct1 [OF q(1)] q(2)]
  have v: "lb_view lb' = ?sv" by (simp add: lb' lb_view_def)
  have "lb_weight lb' = lb_weight lb" by (simp add: lb_weight_eta v s(2)) (simp add: lb' s(2))
  moreover have "lb_ok lb'" using ok s(1) unfolding lb_ok_def v by (simp add: lb')
  ultimately show ?thesis by (simp add: v) (simp add: lb' lb_members_def)
qed

section \<open>From a new balancer on\<close>

datatype wr_call = WR_Add int server_name | WR_Remove server_name | WR_Feedback int call_info

fun wr_run :: "wr_call \<Rightarrow> wr_balancer \<Rightarrow> wr_balancer res" where
  "wr_run (WR_Add now x) lb = wr_add_server now x lb"
| "wr_run (WR_Remove x) lb = wr_remove_server x lb"
| "wr_run (WR_Feedback now info) lb = wr_Feedback now info lb"

definition wr_even :: "nat \<Rightarrow> lalb \<Rightarrow> bool" where
  "wr_even k lb \<longleftrightarrow> lb_ok lb \<and> (int (lb_size lb) + int k) * WEIGHT_SCALE < 2 ^ 63 \<and>
     (\<forall>i < lb_size lb. lb_weight lb i = WEIGHT_SCALE)"

lemma wr_even_room: "wr_even k lb \<Longrightarrow> lb_room lb k"
  unfolding wr_even_def lb_room_def by (intro exI [of _ WEIGHT_SCALE]) auto

lemma wr_even_total:
  assumes "wr_even k lb"
  shows "(\<Sum>i < lb_size lb. lb_weight lb i) = WEIGHT_SCALE * int (lb_size lb)"
proof -
  have "(\<Sum>i < lb_size lb. lb_weight lb i) = (\<Sum>i < lb_size lb. WEIGHT_SCALE)"
    using assms by (intro sum.cong) (simp_all add: wr_even_def)
  then show ?thesis by simp
qed

lemma wr_even_add:
  assumes e: "wr_even (Suc k) lb" and r': "add_server now x lb = Inr lb'"
  shows "wr_even k lb'"
proof -
  have ok: "lb_ok lb" and w: "\<And>i. i < lb_size lb \<Longrightarrow> lb_weight lb i = WEIGHT_SCALE"
    and b: "(int (lb_size lb) + int (Suc k)) * WEIGHT_SCALE < 2 ^ 63"
    using e by (auto simp: wr_even_def)
  have smaller: "(int (lb_size lb) + int k) * WEIGHT_SCALE < 2 ^ 63" using b by simp
  have tot: "(\<Sum>i < lb_size lb. lb_weight lb i) < 2 ^ 63"
    using wr_even_total [OF e] b by simp
  show ?thesis
  proof (cases "x \<in> lb_members lb")
    case True
    from add_server_known [OF ok True, of now] r' obtain m where
      m: "lb' = lb\<lparr>lb_map := (lb_map lb)(x \<mapsto> m)\<rparr>" "m \<noteq> 0" by auto
    note l = lb_ok_raise [OF ok True m(2), folded m(1)]
    have "lb_size lb' = lb_size lb" "lb_weight lb' = lb_weight lb"
      unfolding lb_size_def lb_weight_eta l(3,4) by (rule refl)+
    with l(1) w smaller show ?thesis by (simp add: wr_even_def)
  next
    case False
    from add_server_new [OF ok False tot, of now] r' have
      a: "lb_ok lb'" "lb_size lb' = Suc (lb_size lb)"
        "\<forall>i < lb_size lb. lb_weight lb' i = lb_weight lb i"
        "lb_weight lb' (lb_size lb) = inital_weight (lb_size lb) (lb_shared lb)" by auto
    have "inital_weight (lb_size lb) (lb_shared lb) = WEIGHT_SCALE"
    proof (cases "lb_size lb = 0")
      case True
      then show ?thesis by (simp add: inital_weight_def)
    next
      case False
      then show ?thesis
        using inital_weight_mean(3) [of "lb_view lb" "lb_shared lb"] ok tot wr_even_total [OF e]
        by (simp add: lb_ok_def lb_size_def lb_weight_def)
    qed
    then have "lb_weight lb' i = WEIGHT_SCALE" if "i < lb_size lb'" for i
      using that a(2-4) w by (auto simp: less_Suc_eq)
    moreover have "(int (lb_size lb') + int k) * WEIGHT_SCALE < 2 ^ 63" using b a(2) by simp
    ultimately show ?thesis using a(1) by (simp add: wr_even_def)
  qed
qed

lemma wr_even_remove:
  assumes e: "wr_even (Suc k) lb" and r': "remove_server x lb = Inr lb'"
  shows "wr_even k lb'"
proof -
  have ok: "lb_ok lb" and w: "\<And>i. i < lb_size lb \<Longrightarrow> lb_weight lb i = WEIGHT_SCALE"
    and b: "(int (lb_size lb) + int (Suc k)) * WEIGHT_SCALE < 2 ^ 63"
    using e by (auto simp: wr_even_def)
  have smaller: "(int (lb_size lb) + int k) * WEIGHT_SCALE < 2 ^ 63" using b by simp
  show ?thesis
  proof (cases "x \<in> lb_members lb")
    case False
    then show ?thesis using r' ok w smaller by (simp add: remove_server_unknown wr_even_def)
  next
    case True
    then have "x \<in> dom (server_map (lb_view lb))" using ok by (simp add: lb_ok_def lb_members_def)
    then obtain j where j: "server_map (lb_view lb) x = Some j" by blast
    from remove_server_member [OF ok j] lb_room_weight [OF ok wr_even_room [OF e]] r' have
      a: "lb_ok lb'" "Suc (lb_size lb') = lb_size lb"
        "\<forall>i < lb_size lb'. lb_weight lb' i = lb_weight lb (if i = j then lb_size lb - 1 else i)"
      by auto
    have "lb_weight lb' i = WEIGHT_SCALE" if "i < lb_size lb'" for i
      using that a(2,3) w by simp
    then show ?thesis using a(1,2) smaller by (simp add: wr_even_def)
  qed
qed

lemma wr_even_call:
  assumes e: "wr_even (Suc k) lb" and r: "wr_run c lb = Inr lb'"
  shows "wr_even k lb'"
proof (cases c)
  case (WR_Add now x)
  then show ?thesis using wr_even_add [OF e] r by (simp add: wr_add_server_eq)
next
  case (WR_Remove x)
  then show ?thesis using wr_even_remove [OF e] r by (simp add: wr_remove_server_eq)
next
  case (WR_Feedback now info)
  have ok: "lb_ok lb" using e by (simp add: wr_even_def)
  have r': "wr_Feedback now info lb = Inr lb'" using r WR_Feedback by simp
  from wr_Feedback_ok [OF ok r'] have "lb_size lb' = lb_size lb" by (simp add: lb_size_def)
  with wr_Feedback_ok [OF ok r'] e show ?thesis by (simp add: wr_even_def)
qed

lemma wr_even_run:
  "wr_even (length cs + k) lb \<Longrightarrow> run_res wr_run cs lb = Inr lb' \<Longrightarrow> wr_even k lb'"
proof (induction cs arbitrary: lb)
  case (Cons c cs)
  then obtain lb1 where l: "wr_run c lb = Inr lb1" "run_res wr_run cs lb1 = Inr lb'" by auto
  have "wr_even (Suc (length cs + k)) lb" using Cons.prems(1) by simp
  from wr_even_call [OF this l(1)] Cons.IH l(2) show ?case by blast
qed simp

lemma wr_even_new: "k \<le> 1000000000 \<Longrightarrow> wr_even k lalb_new"
  by (simp add: wr_even_def lalb_new_ok)

section \<open>What a draw selects\<close>

text \<open>The search for a draw, which starts at the root.\<close>

definition wr_retry ::
  "draws \<Rightarrow> server_info list \<Rightarrow> nat \<Rightarrow> nat \<Rightarrow> select_out \<Rightarrow> shared \<Rightarrow> (int \<times> select_out) res" where
  "wr_retry rnd tree k n_try out sh =
     (if n_try + 1 \<ge> length tree then Inr (-1, out)
      else ubind (getRand rnd k (total_weight sh)) (\<lambda>dice.
        wr_select_loop rnd tree (k + 1) (n_try + 1) 0 (total_weight sh) dice out sh))"

lemma wr_select_loop_find:
  assumes ex: "exact sv sh" and tw: "0 < tw"
  defines "t \<equiv> weight_tree sv"
  shows "j < length t \<Longrightarrow> 0 \<le> d \<Longrightarrow> d < 2 ^ 63 \<Longrightarrow>
    wr_select_loop rnd t k n_try j tw d out sh =
      (case find_node (wt sv sh) (length t) j d of
         Some (i, e) \<Rightarrow> Inr (0, out\<lparr>so_node := sv_name (t ! i), so_need_feedback := True\<rparr>)
       | None \<Rightarrow> wr_retry rnd t k n_try out sh)"
proof (induction "length t - j" arbitrary: j d rule: less_induct)
  case less
  let ?W = "wt sv sh" and ?n = "length t"
  let ?l = "subsum ?W ?n (2 * j + 1)"
  have left: "lheap sh (sv_left (t ! j)) = ?l"
    using exact_left [OF ex] less.prems(1) by (simp add: t_def)
  have self: "volatile_value (weight_of t j sh) = ?W j"
    by (simp add: volatile_value_def wt_def t_def)
  note b = exact_node_bounds [OF ex less.prems(1) [unfolded t_def], folded t_def]
  have chk: "in64 (?l + ?W j)" using b unfolding in64_def by linarith
  have chk2: "in64 (d - (?l + ?W j))" if "?l + ?W j \<le> d"
    using that less.prems(2,3) b unfolding in64_def by linarith
  have find: "find_node ?W ?n j d =
      (if d < ?l then find_node ?W ?n (2 * j + 1) d
       else if d \<ge> ?l + ?W j then find_node ?W ?n (2 * j + 2) (d - (?l + ?W j)) else Some (j, d - ?l))"
    using less.prems(1) by (subst find_node.simps) (simp add: Let_def)
  consider "d < ?l" | "\<not> d < ?l" "?l + ?W j \<le> d" | "\<not> d < ?l" "\<not> ?l + ?W j \<le> d" by blast
  then show ?case
  proof cases
    case 1
    have "2 * j + 1 < ?n" using 1 less.prems(2) subsum_outside [of ?n "2 * j + 1" ?W]
      by (cases "?n \<le> 2 * j + 1") auto
    moreover from this have "?n - (2 * j + 1) < ?n - j" by linarith
    ultimately show ?thesis
      using less.hyps [of "2 * j + 1" d] less.prems 1 tw left
      by (subst wr_select_loop.simps) (simp add: find Let_def)
  next
    case 2
    show ?thesis
    proof (cases "2 * j + 2 < ?n")
      case True
      then have "?n - (2 * j + 2) < ?n - j" by linarith
      moreover have "0 \<le> d - (?l + ?W j)" "d - (?l + ?W j) < 2 ^ 63"
        using 2 less.prems(2,3) b by linarith+
      ultimately show ?thesis
        using less.hyps [of "2 * j + 2" "d - (?l + ?W j)"] less.prems 2 tw left self chk chk2 True
        by (subst wr_select_loop.simps) (simp add: find Let_def)
    next
      case False
      then have "find_node ?W ?n (2 * j + 2) (d - (?l + ?W j)) = None"
        by (subst find_node.simps) simp
      then show ?thesis
        using less.prems 2 tw left self chk chk2 False
        by (subst wr_select_loop.simps) (simp add: find Let_def wr_retry_def)
    qed
  next
    case 3
    then show ?thesis
      using less.prems tw left self chk
      by (subst wr_select_loop.simps) (simp add: find Let_def)
  qed
qed

lemma wr_select_node:
  assumes "lb_ok lb" "lb_room lb 0" "1 \<le> rnd 0 (lb_total lb)" "rnd 0 (lb_total lb) < lb_total lb"
  shows "\<exists>i e. find_node (lb_weight lb) (lb_size lb) 0 (rnd 0 (lb_total lb)) = Some (i, e) \<and> i < lb_size lb \<and>
    wr_select_server rnd out lb = Inr (0, out\<lparr>so_node := lb_name lb i, so_need_feedback := True\<rparr>)"
proof -
  let ?n = "lb_size lb" and ?W = "lb_weight lb" and ?d = "rnd 0 (lb_total lb)"
  note tot = lb_total_weight [OF assms(1,2)] and ex = lb_exact [OF assms(1,2)]
  have W: "0 \<le> ?W j" if "j < ?n" for j
    using lb_weight_pos [OF assms(1) that] by (simp add: FLAGS_min_weight_def)
  have root: "subsum ?W ?n 0 = lb_total lb" by (simp add: subsum_root lb_total_def)
  then obtain i e where i: "find_node ?W ?n 0 ?d = Some (i, e)"
    using find_node_some [of ?n ?W ?d 0, OF W] assms(3,4) by auto
  have n: "i < ?n" using find_node_sub [OF i] by blast
  have d: "0 \<le> ?d" "?d < 2 ^ 63" "0 < lb_total lb" using assms(3,4) tot(3) by linarith+
  have n': "0 < length (weight_tree (lb_view lb))" using n unfolding lb_size_def by linarith
  have "wr_select_server rnd out lb =
      Inr (0, out\<lparr>so_node := lb_name lb i, so_need_feedback := True\<rparr>)"
    using wr_select_loop_find [where rnd = rnd and k = 1 and n_try = 0 and out = out, OF ex d(3) n' d(1,2)] i d(3)
    by (simp add: wr_select_server_def Let_def getRand_def tot(1) lb_weight_eta lb_size_def
        lb_name_def flip: lb_view_def)
  with i n show ?thesis by blast
qed

lemma wr_select_member:
  assumes "lb_ok lb" "lb_room lb 0" "lb_members lb \<noteq> {}" "\<forall>n > 1. 1 \<le> rnd 0 n \<and> rnd 0 n < n"
  shows "\<exists>out'. wr_select_server rnd out lb = Inr (0, out') \<and> so_node out' \<in> lb_members lb"
proof -
  have "0 < lb_size lb" using lb_names_members [OF assms(1)] assms(3) by (auto simp: lb_size_def)
  then have "FLAGS_min_weight \<le> lb_total lb"
    using lb_weight_pos [OF assms(1)] member_le_sum [of 0 "{..<lb_size lb}" "lb_weight lb"]
    unfolding lb_total_def by (fastforce simp: FLAGS_min_weight_def)
  then have "1 < lb_total lb" by (simp add: FLAGS_min_weight_def)
  then have "1 \<le> rnd 0 (lb_total lb)" "rnd 0 (lb_total lb) < lb_total lb" using assms(4) by auto
  from wr_select_node [where rnd = rnd and out = out, OF assms(1,2) this] obtain i where
    "i < lb_size lb" "wr_select_server rnd out lb = Inr (0, out\<lparr>so_node := lb_name lb i, so_need_feedback := True\<rparr>)"
    by blast
  moreover have "lb_name lb i \<in> lb_members lb"
    using calculation(1) lb_names_members [OF assms(1)] by (force simp: lb_name_def lb_size_def)
  ultimately show ?thesis by auto
qed

section \<open>Properties\<close>

text \<open>
  C28: the weighted random balancer is uniform: whatever additions, removals and feedbacks have
  run on it since it was new, every server has the weight \<open>WEIGHT_SCALE\<close>, since \<open>Update\<close>
  computes a base weight that nothing reads and \<open>Feedback\<close> drops the difference; and its
  invariant holds, so the sums the selection searches are exact.
\<close>

theorem weighted_random_is_uniform:
  assumes "run_res wr_run cs lalb_new = Inr lb" "length cs \<le> 1000000000"
  shows "lb_ok lb \<and> (\<forall>i < lb_size lb. lb_weight lb i = WEIGHT_SCALE)"
  using wr_even_run [of cs 0 lalb_new lb] wr_even_new [of "length cs"] assms
  by (simp add: wr_even_def)

lemma weighted_random_is_uniform_witness:
  "\<exists>lb. run_res wr_run [WR_Add 0 ''a'', WR_Add 1 ''b'', WR_Remove ''a''] lalb_new = Inr lb \<and>
     lb_weight lb 0 = WEIGHT_SCALE"
proof -
  let ?cs = "[WR_Add 0 ''a'', WR_Add 1 ''b'', WR_Remove ''a'']"
  obtain lb1 where lb1: "wr_add_server 0 ''a'' lalb_new = Inr lb1" "lb_ok lb1" "lb_room lb1 2"
      "lb_members lb1 = {''a''}"
    using wrlb.add_ok [OF lalb_new_ok(1), of 2 0 "''a''"] lalb_new_room [of 3] lalb_new_ok(2) by auto
  obtain lb2 where lb2: "wr_add_server 1 ''b'' lb1 = Inr lb2" "lb_ok lb2" "lb_room lb2 1"
      "lb_members lb2 = {''a'', ''b''}"
    using wrlb.add_ok [OF lb1(2), of 1 1 "''b''"] lb1(3,4) by (auto simp: numeral_2_eq_2)
  obtain lb3 where lb3: "wr_remove_server ''a'' lb2 = Inr lb3" "lb_ok lb3" "lb_members lb3 = {''b''}"
    using wrlb.remove_ok [OF lb2(2,3), of "''a''"] lb2(4) by auto
  have run: "run_res wr_run ?cs lalb_new = Inr lb3" using lb1(1) lb2(1) lb3(1) by simp
  have "dom (server_map (lb_view lb3)) = {''b''}" using lb3(2,3) by (simp add: lb_ok_def lb_members_def)
  then obtain j where "server_map (lb_view lb3) ''b'' = Some j" by blast
  then have "j < lb_size lb3"
    using lb3(2) by (simp add: lb_ok_def tree_ok_def tree_shape_def lb_size_def)
  then have "0 < lb_size lb3" by simp
  with weighted_random_is_uniform [OF run] run show ?thesis by auto
qed

text \<open>
  C29: when the locality-aware balancer is idle, the weighted random one with the same servers
  answers a draw with the same server: for every generator whose first draw is below the
  total, both return 0 and the same output.
\<close>

theorem wr_select_agrees:
  assumes "lb_ok lb" "lb_room lb 0" "lb_idle lb" "in64 (si_begin_time_us inp)"
    and "1 \<le> rnd 0 (lb_total lb)" "rnd 0 (lb_total lb) < lb_total lb"
  shows "\<exists>lb' out'. select_server inp rnd out lb = Inr (lb', 0, out') \<and>
     wr_select_server rnd out lb = Inr (0, out') \<and> so_node out' \<in> lb_name lb ` {..<lb_size lb}"
proof -
  obtain i e where i: "find_node (lb_weight lb) (lb_size lb) 0 (rnd 0 (lb_total lb)) = Some (i, e)"
    "i < lb_size lb"
    "wr_select_server rnd out lb = Inr (0, out\<lparr>so_node := lb_name lb i, so_need_feedback := True\<rparr>)"
    using wr_select_node [where rnd = rnd and out = out, OF assms(1,2,5,6)] by blast
  moreover have "rnd 0 (lb_total lb) \<le> lb_total lb" using assms(6) by simp
  ultimately show ?thesis
    using select_server_idle [where rnd = rnd, OF assms(1-5) _ i(1), of out] by auto
qed

lemma wr_select_agrees_witness:
  "\<exists>lb' out'. select_server demo_in (\<lambda>_ _. 6000) select_out_init demo_lb = Inr (lb', 0, out') \<and>
     wr_select_server (\<lambda>_ _. 6000) select_out_init demo_lb = Inr (0, out')"
proof -
  have i: "in64 (si_begin_time_us demo_in)" by (simp add: demo_in_def in64_def)
  from wr_select_agrees [OF demo_lb_ok demo_lb_room demo_lb_idle i, of "\<lambda>_ _. 6000" select_out_init]
  show ?thesis by (auto simp: demo_lb_simps)
qed

section \<open>Servers without feedback\<close>

text \<open>
  A weight that has had no feedback and no call in flight: selections of this balancer do not
  touch it, so it has an empty window. \<open>in_time\<close> is any time before the year 148000.
\<close>

definition in_time :: "int \<Rightarrow> bool" where
  "in_time now \<longleftrightarrow> 0 \<le> now \<and> now < 2 ^ 62"

definition unused :: "weight \<Rightarrow> bool" where
  "unused w \<longleftrightarrow> window_inv (w_time_q w) \<and> bq_list (w_time_q w) = [] \<and> w_begin_time_sum w = 0 \<and>
     in_time (w_last_time_us w)"

definition heap_unused :: "shared \<Rightarrow> bool" where
  "heap_unused sh \<longleftrightarrow> (\<forall>a. unused (wheap sh a))"

lemma unused_new: "in_time now \<Longrightarrow> unused (new_weight now i)"
  using window_inv_new by (simp add: unused_def new_weight_def)

lemma unused_marks:
  "unused w \<Longrightarrow> unused (fst (Disable w))" "unused w \<Longrightarrow> unused (fst (MarkOld i w))"
  "unused w \<Longrightarrow> unused (fst (ClearOld w))"
  by (simp_all add: unused_def Disable_def MarkOld_def ClearOld_def Let_def)

lemma wheap_add_diff: "add_diff tree diff i sh = Inr sh' \<Longrightarrow> wheap sh' = wheap sh"
  by (auto simp: add_diff_def split: if_splits elim!: ubind_InrE)

lemma wheap_climb: "climb tree diff i sh = Inr sh' \<Longrightarrow> wheap sh' = wheap sh"
  by (auto simp: climb_def split: if_splits elim!: ubind_InrE)

lemma Add_unused:
  assumes "Add bg fg x now sh = Inr (bg', sh', r)" "heap_unused sh" "in_time now"
  shows "heap_unused sh'"
  using assms
  by (auto simp: Add_def new_server_info_def heap_unused_def unused_new Let_def split: option.splits if_splits
      elim!: ubind_InrE dest!: wheap_add_diff)

lemma Remove_unused:
  assumes "Remove bg x sh = Inr (bg', sh', r)" "heap_unused sh"
  shows "heap_unused sh'"
  using assms
  by (auto simp: Remove_def heap_unused_def Let_def split_beta set_weight_def unused_marks
      split: if_splits elim!: ubind_InrE dest!: wheap_add_diff wheap_climb)

lemma Modify_keeps:
  assumes "Modify fn d s = Inr (d', s')" "P s"
    and "\<And>i data s x s' r. fn i data s = Inr (x, s', r) \<Longrightarrow> P s \<Longrightarrow> P s'"
  shows "P s'"
  using assms(1,2)
  by (auto simp: Modify_def Modify_between_def Modify_first_def Modify_second_def Let_def
      split: if_splits elim!: ubind_InrE dest!: assms(3))

lemma wr_add_server_unused:
  assumes "wr_add_server now x lb = Inr lb'" "heap_unused (lb_shared lb)" "in_time now"
  shows "heap_unused (lb_shared lb')"
proof -
  have "heap_unused sh'"
    if "Modify (WithFg2 Add x now) d (lb_shared lb) = Inr (d', sh')" for d d' sh'
    using Modify_keeps [where P = heap_unused, OF that assms(2)] Add_unused assms(3)
    by (auto simp: WithFg2_def)
  then show ?thesis
    using assms(1,2) unfolding wr_add_server_eq
    by (auto simp: add_server_def ModifyWithForeground2_def Let_def split: if_splits elim!: ubind_InrE)
qed

lemma wr_remove_server_unused:
  assumes "wr_remove_server x lb = Inr lb'" "heap_unused (lb_shared lb)"
  shows "heap_unused (lb_shared lb')"
proof -
  have "heap_unused sh'"
    if "Modify (Closure2 (\<lambda>bg name (_ :: unit). wr_Remove bg name) x ()) d (lb_shared lb) = Inr (d', sh')"
    for d d' sh'
    using Modify_keeps [where P = heap_unused, OF that assms(2)] Remove_unused
    by (auto simp: Closure2_def wr_Remove_def)
  then show ?thesis
    using assms(1,2)
    by (auto simp: wr_remove_server_def Modify2_def Let_def split: option.splits elim!: ubind_InrE)
qed

text \<open>The contract of the registry holds again for a balancer that has had no feedback yet.\<close>

definition lb_fresh :: "int \<Rightarrow> lalb \<Rightarrow> bool" where
  "lb_fresh now lb \<longleftrightarrow> lb_ok lb \<and> (in_time now \<longrightarrow> heap_unused (lb_shared lb))"

interpretation wrnew: monotone_registry "lb_fresh now" lb_members lb_room "wr_add_server now" wr_remove_server for now
proof unfold_locales
  fix lb k x
  assume "lb_fresh now lb" "lb_room lb (Suc k)"
  then show "\<exists>lb'. wr_add_server now x lb = Inr lb' \<and> lb_fresh now lb' \<and> lb_room lb' k \<and>
      lb_members lb' = insert x (lb_members lb)"
    using wrlb.add_ok wr_add_server_unused unfolding lb_fresh_def by metis
next
  fix lb k x
  assume "lb_fresh now lb" "lb_room lb k"
  then show "\<exists>lb'. wr_remove_server x lb = Inr lb' \<and> lb_fresh now lb' \<and> lb_room lb' k \<and>
      lb_members lb' = lb_members lb - {x}"
    using wrlb.remove_ok wr_remove_server_unused unfolding lb_fresh_def by metis
qed (rule lb_room_mono)

lemma lalb_new_fresh: "lb_fresh now lalb_new"
  using lalb_new_ok(1) unused_new [of 0 0] by (simp add: lb_fresh_def heap_unused_def lalb_new_def in_time_def)

text \<open>The first feedback of a server, for a call that succeeded, runs into no undefined behaviour.\<close>

lemma wr_Update_unused:
  assumes w: "unused w" and ci: "ci_error_code ci = 0" "0 \<le> ci_begin_time_us ci" "ci_begin_time_us ci < now" "in_time now"
  shows "\<exists>w'. wr_Update now ci w = Inr (w', 0)"
proof -
  let ?l = "now - ci_begin_time_us ci"
  let ?w = "w\<lparr>w_begin_time_sum := - ci_begin_time_us ci, w_begin_time_count := w_begin_time_count w - 1\<rparr>"
  have n: "in64 ?l" "in64 (- ci_begin_time_us ci)" "0 < ?l" "in64 (now - w_last_time_us w)"
    using assms by (auto simp: in64_def in_time_def unused_def)
  have w': "window_inv (w_time_q ?w)" "bq_list (w_time_q ?w) = []" using w by (simp_all add: unused_def)
  have "sample_sum ?w = 0" using w'(2) by (simp add: sample_sum_def)
  with push_sample_spec [OF w'(1) n(3), of now] n(1) w'(2) obtain q where q: "push_sample ?l now ?w = Inr (?w\<lparr>w_time_q := q\<rparr>)"
    "window_inv q" "bq_list q = [\<lparr>latency_sum = ?l, end_time_us = now\<rparr>]"
    by (auto simp: last_n_def RECV_QUEUE_SIZE_def)
  then have "bq_inv q" by (simp add: window_inv_def)
  then show ?thesis
    using w n q ci(1)
    by (auto simp: wr_Update_def wr_update_from_window_def wr_log_weight_def chk64_def Let_def unused_def)
qed

lemma wr_Feedback_unused:
  assumes lb: "lb_ok lb" "heap_unused (lb_shared lb)"
    and ci: "ci_error_code ci = 0" "0 \<le> ci_begin_time_us ci" "ci_begin_time_us ci < now" "in_time now"
  shows "\<exists>lb'. wr_Feedback now ci lb = Inr lb'"
proof (cases "lb_map lb (ci_node ci) = None")
  case False
  then obtain i where i: "server_map (lb_view lb) (ci_node ci) = Some i" using lb(1) unfolding lb_ok_def by blast
  then have "i < length (weight_tree (lb_view lb))"
    using lb(1) by (auto simp: lb_ok_def tree_ok_def tree_shape_def)
  moreover obtain w' where "wr_Update now ci (weight_of (weight_tree (lb_view lb)) i (lb_shared lb)) = Inr (w', 0)"
    using wr_Update_unused [OF _ ci] lb(2) unfolding heap_unused_def weight_of_def by blast
  ultimately show ?thesis using i by (simp add: wr_Feedback_def Let_def flip: lb_view_def)
qed (simp add: wr_Feedback_def)

end
