(* ===== verification/NamingService.thy ===== *)
theory NamingService
  imports ZooKeeper WeightedRandom
begin

text \<open>
  The naming service of the client (\<open>src/rpc_proto/zk_naming_service.cc\<close>,
  \<open>include/rpc_proto/zk_naming_service.h\<close>, \<open>name_service.h\<close>). For every service and method it
  keeps an action: the list of servers in a doubly buffered vector, and the pointer to the load
  balancer to be told about changes. \<open>RunNS\<close> fetches the list from ZooKeeper and \<open>ResetServers\<close>
  brings the vector and the balancer up to date; the watch of ZooKeeper runs it again.

  The balancer is an interface: its \<open>add_server\<close> and \<open>remove_server\<close> are arguments, and what
  they promise is the locale \<open>server_registry\<close>. The balancers are owned by the client, under
  the name of the service; a pointer to one is that name.
\<close>

section \<open>Actions\<close>

text \<open>The part of an action that \<open>ResetFn\<close> changes beside the buffer it is given.\<close>

record pending_changes =
  pd_to_remove :: "string list"
  pd_to_add :: "string list"
  pd_changed :: int

record action =
  na_data :: "string list dbd"
  na_pending :: pending_changes
  na_load_balancer :: "string option"

definition action_new :: action where
  "action_new = \<lparr>na_data = dbd_new [], na_pending = \<lparr>pd_to_remove = [], pd_to_add = [], pd_changed = 0\<rparr>,
     na_load_balancer = None\<rparr>"

definition SetLoadBalancer :: "string \<Rightarrow> action \<Rightarrow> action" where
  "SetLoadBalancer load_balancer a = a\<lparr>na_load_balancer := Some load_balancer\<rparr>"

definition AddServers :: "pending_changes \<Rightarrow> string list \<Rightarrow> string list" where
  "AddServers p last_servers = last_servers @ pd_to_add p"

text \<open>A server to be removed changes places with the last one, which is then dropped.\<close>

fun find_index :: "string \<Rightarrow> string list \<Rightarrow> nat" where
  "find_index x [] = 0"
| "find_index x (y # ys) = (if y = x then 0 else Suc (find_index x ys))"

definition remove_one :: "string \<Rightarrow> string list \<Rightarrow> string list" where
  "remove_one server xs =
     (let it = find_index server xs
      in if it \<noteq> length xs then butlast (xs[it := last xs, length xs - 1 := xs ! it]) else xs)"

definition RemoveServers :: "pending_changes \<Rightarrow> string list \<Rightarrow> string list" where
  "RemoveServers p last_servers = fold remove_one (pd_to_remove p) last_servers"

definition LoadBalancerReset ::
  "(string \<Rightarrow> 'lb \<Rightarrow> 'lb res) \<Rightarrow> (string \<Rightarrow> 'lb \<Rightarrow> 'lb res) \<Rightarrow> pending_changes \<Rightarrow> 'lb option \<Rightarrow> 'lb option res" where
  "LoadBalancerReset add remove p lb =
     (case lb of
        None \<Rightarrow> Inr None
      | Some b \<Rightarrow>
          ubind (run_res add (pd_to_add p) b) (\<lambda>b.
          ubind (run_res remove (pd_to_remove p) b) (\<lambda>b. Inr (Some b))))"

definition ResetFn ::
  "(string \<Rightarrow> 'lb \<Rightarrow> 'lb res) \<Rightarrow> (string \<Rightarrow> 'lb \<Rightarrow> 'lb res) \<Rightarrow>
   string list \<Rightarrow> unit \<Rightarrow> string list \<Rightarrow> pending_changes \<times> 'lb option \<Rightarrow>
   (string list \<times> (pending_changes \<times> 'lb option) \<times> nat) res" where
  "ResetFn add remove last_servers this new_servers s =
     (let (p, lb) = s in
      if pd_to_add p \<noteq> [] \<or> pd_to_remove p \<noteq> [] \<or> pd_changed p \<noteq> 0 then
        Inr (RemoveServers p (AddServers p last_servers),
             (\<lparr>pd_to_remove = [], pd_to_add = [], pd_changed = 0\<rparr>, lb), 0)
      else
        let last_servers = sort last_servers; new_servers = sort new_servers;
            p = p\<lparr>pd_to_remove := pd_to_remove p @ set_difference last_servers new_servers,
                  pd_to_add := pd_to_add p @ set_difference new_servers last_servers\<rparr>
        in if pd_to_add p \<noteq> [] \<or> pd_to_remove p \<noteq> [] then
             let p = p\<lparr>pd_changed := 1\<rparr>;
                 last_servers = RemoveServers p (AddServers p last_servers)
             in ubind (LoadBalancerReset add remove p lb) (\<lambda>lb. Inr (last_servers, (p, lb), 0))
           else Inr (last_servers, (p, lb), 0))"

definition ResetServers ::
  "(string \<Rightarrow> 'lb \<Rightarrow> 'lb res) \<Rightarrow> (string \<Rightarrow> 'lb \<Rightarrow> 'lb res) \<Rightarrow> string list \<Rightarrow> action \<Rightarrow> 'lb option \<Rightarrow>
   (action \<times> 'lb option) res" where
  "ResetServers add remove new_servers a lb =
     ubind (Modify2 (ResetFn add remove) () new_servers (na_data a) (na_pending a, lb)) (\<lambda>(d, p, lb).
     Inr (a\<lparr>na_data := d, na_pending := p\<rparr>, lb))"

section \<open>The naming service\<close>

type_synonym actions = "string \<rightharpoonup> action"

definition service_method_key :: "string \<Rightarrow> string \<Rightarrow> string" where
  "service_method_key service_name method_name = service_name @ ''_'' @ method_name"

text \<open>\<open>snprintf\<close> into 1024 bytes.\<close>

definition ns_path :: "string \<Rightarrow> string \<Rightarrow> string" where
  "ns_path service_name method_name = take 1023 (''/'' @ service_name @ ''/'' @ method_name)"

text \<open>The data of a node is fetched and not used; \<open>junk\<close> is what the buffers for it held before.\<close>

fun get_loop ::
  "'z zoo \<Rightarrow> (string \<Rightarrow> string) \<Rightarrow> string \<Rightarrow> 'z \<Rightarrow> string list \<Rightarrow> string set \<Rightarrow> string list \<Rightarrow> string list res" where
  "get_loop zk junk path z [] server_set servers = Inr servers"
| "get_loop zk junk path z (child # cs) server_set servers =
     ubind (zk_get zk (junk child) (path @ ''/'' @ child) z) (\<lambda>node_data.
     get_loop zk junk path z cs (insert child server_set)
       (if child \<in> server_set then servers else servers @ [child]))"

definition GetServers ::
  "'z zoo \<Rightarrow> (string \<Rightarrow> string) \<Rightarrow> string \<Rightarrow> string \<Rightarrow> 'z \<Rightarrow> ('z \<times> string list) res" where
  "GetServers zk junk service_name method_name z =
     (let path = ns_path service_name method_name;
          (z, children) = list_children_and_watch zk path z
      in ubind (of_opt Uninit children) (\<lambda>cs.
         ubind (get_loop zk junk path z cs {} []) (\<lambda>servers. Inr (z, servers))))"

text \<open>The balancers of the client, by service.\<close>

definition reset_action ::
  "(string \<Rightarrow> 'lb \<Rightarrow> 'lb res) \<Rightarrow> (string \<Rightarrow> 'lb \<Rightarrow> 'lb res) \<Rightarrow> string list \<Rightarrow> action \<Rightarrow> (string \<rightharpoonup> 'lb) \<Rightarrow>
   (action \<times> (string \<rightharpoonup> 'lb)) res" where
  "reset_action add remove servers a lbs =
     (case na_load_balancer a of
        None \<Rightarrow> ubind (ResetServers add remove servers a None) (\<lambda>(a, _). Inr (a, lbs))
      | Some b \<Rightarrow>
          ubind (of_opt NullDeref (lbs b)) (\<lambda>lb.
          ubind (ResetServers add remove servers a (Some lb)) (\<lambda>(a, lb). Inr (a, lbs(b := lb)))))"

definition RunNS ::
  "'z zoo \<Rightarrow> (string \<Rightarrow> string) \<Rightarrow> (string \<Rightarrow> 'lb \<Rightarrow> 'lb res) \<Rightarrow> (string \<Rightarrow> 'lb \<Rightarrow> 'lb res) \<Rightarrow>
   string \<Rightarrow> string \<Rightarrow> actions \<times> (string \<rightharpoonup> 'lb) \<times> 'z \<Rightarrow> (actions \<times> (string \<rightharpoonup> 'lb) \<times> 'z) res" where
  "RunNS zk junk add remove service_name method_name s =
     (let (acts, lbs, z) = s in
      ubind (GetServers zk junk service_name method_name z) (\<lambda>(z, presence_servers).
      let key = service_method_key service_name method_name;
          a = (case acts key of None \<Rightarrow> action_new | Some a \<Rightarrow> a)
      in ubind (reset_action add remove presence_servers a lbs) (\<lambda>(a, lbs).
         Inr (acts(key \<mapsto> a), lbs, z))))"

definition ManageLoadBalancer ::
  "'z zoo \<Rightarrow> (string \<Rightarrow> string) \<Rightarrow> (string \<Rightarrow> 'lb \<Rightarrow> 'lb res) \<Rightarrow> (string \<Rightarrow> 'lb \<Rightarrow> 'lb res) \<Rightarrow>
   string \<Rightarrow> string \<Rightarrow> string \<Rightarrow> actions \<times> (string \<rightharpoonup> 'lb) \<times> 'z \<Rightarrow>
   (actions \<times> (string \<rightharpoonup> 'lb) \<times> 'z) res" where
  "ManageLoadBalancer zk junk add remove service_name method_name load_balancer s =
     (let (acts, lbs, z) = s; key = service_method_key service_name method_name
      in RunNS zk junk add remove service_name method_name
           (acts(key \<mapsto> SetLoadBalancer load_balancer action_new), lbs, z))"

text \<open>What a reader of the list sees.\<close>

definition GetServerListPtr ::
  "'z zoo \<Rightarrow> (string \<Rightarrow> string) \<Rightarrow> (string \<Rightarrow> 'lb \<Rightarrow> 'lb res) \<Rightarrow> (string \<Rightarrow> 'lb \<Rightarrow> 'lb res) \<Rightarrow>
   string \<Rightarrow> string \<Rightarrow> actions \<times> (string \<rightharpoonup> 'lb) \<times> 'z \<Rightarrow>
   (string list \<times> actions \<times> (string \<rightharpoonup> 'lb) \<times> 'z) res" where
  "GetServerListPtr zk junk add remove service_name method_name s =
     (case fst s (service_method_key service_name method_name) of
        Some a \<Rightarrow> Inr (UnsafeRead (na_data a), s)
      | None \<Rightarrow>
          ubind (RunNS zk junk add remove service_name method_name s) (\<lambda>s.
          ubind (of_opt NullDeref (fst s (service_method_key service_name method_name))) (\<lambda>a.
          Inr (UnsafeRead (na_data a), s))))"

section \<open>The watch\<close>

text \<open>
  The callback finds the names of service and method in the path of the event. A path without a
  second slash leaves \<open>service_len\<close> at its end: the terminating NUL is taken into the name of
  the service, and the name of the method starts behind the end of the path.
\<close>

function service_len_loop :: "string \<Rightarrow> nat \<Rightarrow> nat" where
  "service_len_loop path service_len =
     (if service_len < length path then
        if path ! service_len = CHR ''/'' then service_len - 1
        else service_len_loop path (service_len + 1)
      else service_len)"
  by pat_completeness auto
termination by (relation "measure (\<lambda>(path, n). length path - n)") auto

declare service_len_loop.simps [simp del]

definition watch_names :: "string \<Rightarrow> (string \<times> string) res" where
  "watch_names path =
     (let service_len = service_len_loop path 1 in
      if service_len + 2 \<le> length path
      then Inr (take service_len (drop 1 path), drop (service_len + 2) path)
      else Inl OutOfBounds)"

text \<open>An event other than \<open>ZOO_CHILD_EVENT\<close> is ignored; \<open>zk_ns\<close> is never null.\<close>

definition child_watch_cb ::
  "'z zoo \<Rightarrow> (string \<Rightarrow> string) \<Rightarrow> (string \<Rightarrow> 'lb \<Rightarrow> 'lb res) \<Rightarrow> (string \<Rightarrow> 'lb \<Rightarrow> 'lb res) \<Rightarrow>
   bool \<Rightarrow> string \<Rightarrow> actions \<times> (string \<rightharpoonup> 'lb) \<times> 'z \<Rightarrow> (actions \<times> (string \<rightharpoonup> 'lb) \<times> 'z) res" where
  "child_watch_cb zk junk add remove child_event path s =
     (if child_event then
        ubind (watch_names path) (\<lambda>(service_name, method_name).
        RunNS zk junk add remove (c_str service_name) (c_str method_name) s)
      else Inr s)"

section \<open>The two lists\<close>

lemma find_index_in: "x \<in> set xs \<Longrightarrow> find_index x xs < length xs \<and> xs ! find_index x xs = x"
  by (induction xs) auto

lemma find_index_out: "x \<notin> set xs \<Longrightarrow> find_index x xs = length xs"
  by (induction xs) auto

lemma mset_remove_one: "mset (remove_one x xs) = mset xs - {#x#}"
proof (cases "x \<in> set xs")
  case True
  let ?i = "find_index x xs" let ?n = "length xs - 1"
  have i: "?i < length xs" "xs ! ?i = x" "xs \<noteq> []" using find_index_in [OF True] True by auto
  let ?ys = "xs[?i := last xs, ?n := xs ! ?i]"
  have m: "mset ?ys = mset xs"
    using i mset_swap [of ?n xs ?i] by (simp add: last_conv_nth)
  have y: "?ys \<noteq> []" "last ?ys = x" using i by (simp_all add: last_conv_nth)
  have "mset ?ys = add_mset x (mset (butlast ?ys))"
    using append_butlast_last_id [OF y(1)] y(2) by (metis mset.simps(2) mset_append add_mset_add_single union_commute mset.simps(1))
  with m have "mset (butlast ?ys) = mset xs - {#x#}" by (metis add_mset_remove_trivial)
  with i show ?thesis by (simp add: remove_one_def Let_def)
next
  case False
  then show ?thesis by (simp add: remove_one_def find_index_out diff_single_trivial)
qed

lemma mset_RemoveServers: "mset (RemoveServers p xs) = mset xs - mset (pd_to_remove p)"
proof -
  have "mset (fold remove_one rs xs) = mset xs - mset rs" for rs xs
    by (induction rs arbitrary: xs) (auto simp: mset_remove_one diff_union_swap2 diff_diff_add_mset)
  then show ?thesis by (simp add: RemoveServers_def)
qed

lemma update_mset: "(L + (N - L)) - (L - N) = (N :: 'a multiset)"
  by (rule multiset_eqI) simp

lemma mset_updated:
  assumes "mset (pd_to_add p) = N - mset xs" "mset (pd_to_remove p) = mset xs - N"
  shows "mset (RemoveServers p (AddServers p xs)) = N"
  using assms by (simp add: mset_RemoveServers AddServers_def update_mset)

section \<open>An update of the servers\<close>

definition no_pending :: pending_changes where
  "no_pending = \<lparr>pd_to_remove = [], pd_to_add = [], pd_changed = 0\<rparr>"

text \<open>An action that is at rest and knows the servers \<open>S\<close>, each once, in both buffers.\<close>

definition action_knows :: "action \<Rightarrow> string set \<Rightarrow> bool" where
  "action_knows a S \<longleftrightarrow> na_pending a = no_pending \<and> (\<exists>L. \<forall>b. mset (dbd_data (na_data a) b) = L) \<and>
     (\<forall>b. distinct (dbd_data (na_data a) b) \<and> set (dbd_data (na_data a) b) = S)"

lemma action_knows_new: "action_knows action_new {}"
  by (simp add: action_knows_def action_new_def no_pending_def dbd_new_def)

lemma action_knows_SetLoadBalancer [simp]: "action_knows (SetLoadBalancer b a) S = action_knows a S"
  by (simp add: action_knows_def SetLoadBalancer_def)

lemma ResetFn_same:
  assumes "mset xs = mset new"
  shows "ResetFn add remove xs () new (no_pending, lb) = Inr (sort xs, (no_pending, lb), 0)"
proof -
  have "sort xs = sort new" using assms by (metis properties_for_sort mset_sort sorted_sort)
  moreover have "set_difference ys ys = []" for ys :: "string list" by (induction ys) auto
  ultimately show ?thesis by (simp add: ResetFn_def no_pending_def)
qed

lemma ResetFn_first:
  assumes "mset xs \<noteq> mset new"
  defines "p \<equiv> \<lparr>pd_to_remove = set_difference (sort xs) (sort new),
      pd_to_add = set_difference (sort new) (sort xs), pd_changed = 1\<rparr>"
  shows "ResetFn add remove xs () new (no_pending, lb) =
    ubind (LoadBalancerReset add remove p lb)
      (\<lambda>lb. Inr (RemoveServers p (AddServers p (sort xs)), (p, lb), 0))"
proof -
  have "pd_to_add p \<noteq> [] \<or> pd_to_remove p \<noteq> []"
  proof (rule ccontr)
    assume "\<not> (pd_to_add p \<noteq> [] \<or> pd_to_remove p \<noteq> [])"
    then have "mset new - mset xs = {#}" "mset xs - mset new = {#}"
      using mset_set_difference [of "sort new" "sort xs"] mset_set_difference [of "sort xs" "sort new"]
      by (simp_all add: p_def)
    with assms(1) show False by (metis Diff_eq_empty_iff_mset subset_mset.antisym)
  qed
  then show ?thesis by (simp add: ResetFn_def no_pending_def p_def Let_def)
qed

lemma ResetFn_second:
  "pd_changed p = 1 \<Longrightarrow>
   ResetFn add remove xs () new (p, lb) = Inr (RemoveServers p (AddServers p xs), (no_pending, lb), 0)"
  by (simp add: ResetFn_def no_pending_def)

context monotone_registry
begin

lemma LoadBalancerReset_ok:
  assumes "ok lb" "room lb (length (pd_to_add p) + k)"
  shows "\<exists>lb'. LoadBalancerReset add remove p (Some lb) = Inr (Some lb') \<and> ok lb' \<and> room lb' k \<and>
    members lb' = set (pd_to_add p) \<union> members lb - set (pd_to_remove p)"
  using run_update [OF assms, of "pd_to_remove p"]
  by (fastforce simp: LoadBalancerReset_def ubind_def split: sum.splits)

lemma ResetServers_unchanged:
  assumes "\<And>b. mset (dat b) = mset new" "na_data a = \<lparr>dbd_data = dat, dbd_index = bg\<rparr>" "na_pending a = no_pending"
  shows "ResetServers add remove new a (Some lb) = Inr (a\<lparr>na_data :=
      \<lparr>dbd_data = (dat(\<not> bg := sort (dat (\<not> bg))))(bg := sort (dat bg)), dbd_index = \<not> bg\<rparr>\<rparr>, Some lb)"
proof -
  have "ResetFn add remove (dat b) () new (no_pending, Some lb) = Inr (sort (dat b), (no_pending, Some lb), 0)" for b
    by (rule ResetFn_same) (rule assms(1))
  then have "Modify2 (ResetFn add remove) () new (na_data a) (na_pending a, Some lb) =
      Inr (\<lparr>dbd_data = (dat(\<not> bg := sort (dat (\<not> bg))))(bg := sort (dat bg)), dbd_index = \<not> bg\<rparr>,
           no_pending, Some lb)"
    unfolding Modify2_def Modify_def assms(2,3)
    by (intro Modify_between_eq) (auto simp: Closure2_def)
  then show ?thesis using assms(3) by (simp add: ResetServers_def)
qed

text \<open>What the two phases change when the list is new: first the balancer, then the other buffer.\<close>

lemma ResetServers_changed:
  assumes d: "na_data a = \<lparr>dbd_data = dat, dbd_index = bg\<rparr>" "na_pending a = no_pending"
    and "mset (dat (\<not> bg)) \<noteq> mset new"
  defines "p \<equiv> \<lparr>pd_to_remove = set_difference (sort (dat (\<not> bg))) (sort new),
      pd_to_add = set_difference (sort new) (sort (dat (\<not> bg))), pd_changed = 1\<rparr>"
  assumes lb': "LoadBalancerReset add remove p (Some lb) = Inr (Some lb')"
  shows "ResetServers add remove new a (Some lb) = Inr (a\<lparr>na_data :=
      \<lparr>dbd_data = (dat(\<not> bg := RemoveServers p (AddServers p (sort (dat (\<not> bg))))))
         (bg := RemoveServers p (AddServers p (dat bg))), dbd_index = \<not> bg\<rparr>\<rparr>, Some lb')"
proof -
  let ?x = "RemoveServers p (AddServers p (sort (dat (\<not> bg))))"
  let ?y = "RemoveServers p (AddServers p (dat bg))"
  have "Modify2 (ResetFn add remove) () new (na_data a) (na_pending a, Some lb) =
      Inr (\<lparr>dbd_data = (dat(\<not> bg := ?x))(bg := ?y), dbd_index = \<not> bg\<rparr>, no_pending, Some lb')"
    unfolding Modify2_def Modify_def d
  proof (rule Modify_between_eq)
    have f: "(dat(\<not> bg := x)) bg = dat bg" for x by simp
    show "Closure2 (ResetFn add remove) () new (\<not> bg) dat (no_pending, Some lb) = Inr (?x, (p, Some lb'), 0)"
      unfolding Closure2_def
      using ResetFn_first [of "dat (\<not> bg)" new add remove "Some lb"] assms(3) lb' by (simp add: p_def)
    show "Closure2 (ResetFn add remove) () new bg (dat(\<not> bg := ?x)) (p, Some lb') = Inr (?y, (no_pending, Some lb'), 0)"
      unfolding Closure2_def f by (rule ResetFn_second) (simp add: p_def)
  qed (rule refl)
  then show ?thesis using d(2) by (simp add: ResetServers_def)
qed

text \<open>An update leaves the action and the balancer with exactly the servers of the new list.\<close>

lemma ResetServers_synchronises:
  assumes "action_knows a S" "ok lb" "members lb = S" "distinct new" "room lb (length new + k)"
  shows "\<exists>a' lb'. ResetServers add remove new a (Some lb) = Inr (a', Some lb') \<and>
    action_knows a' (set new) \<and> na_load_balancer a' = na_load_balancer a \<and>
    ok lb' \<and> members lb' = set new \<and> room lb' k"
proof -
  obtain dat bg where d: "na_data a = \<lparr>dbd_data = dat, dbd_index = bg\<rparr>" by (cases "na_data a")
  obtain L where L: "\<And>b. mset (dat b) = L" and p: "na_pending a = no_pending"
    and S: "\<And>b. distinct (dat b)" "\<And>b. set (dat b) = S"
    using assms(1) d by (auto simp: action_knows_def)
  show ?thesis
  proof (cases "L = mset new")
    case True
    then have "ResetServers add remove new a (Some lb) = Inr (a\<lparr>na_data :=
        \<lparr>dbd_data = (dat(\<not> bg := sort (dat (\<not> bg))))(bg := sort (dat bg)), dbd_index = \<not> bg\<rparr>\<rparr>, Some lb)"
      by (intro ResetServers_unchanged d p) (simp add: L)
    moreover have "set new = S" using True L S by (metis set_mset_mset)
    ultimately show ?thesis
      using assms L S p room_mono [OF assms(5), of k] by (auto simp: action_knows_def intro!: exI [of _ L])
  next
    case False
    let ?p = "\<lparr>pd_to_remove = set_difference (sort (dat (\<not> bg))) (sort new),
      pd_to_add = set_difference (sort new) (sort (dat (\<not> bg))), pd_changed = 1\<rparr>"
    have mp: "mset (pd_to_add ?p) = mset new - L" "mset (pd_to_remove ?p) = L - mset new"
      by (simp_all add: mset_set_difference L)
    have c: "count L x = (if x \<in> S then 1 else 0)" "count (mset new) x = (if x \<in> set new then 1 else 0)" for x
      using S L [of bg] assms(4) by (metis distinct_count_atmost_1)+
    have "x \<in># mset (pd_to_add ?p) \<longleftrightarrow> x \<in> set new - S" "x \<in># mset (pd_to_remove ?p) \<longleftrightarrow> x \<in> S - set new" for x
      unfolding mp in_diff_count c by auto
    then have sp: "set (pd_to_add ?p) = set new - S" "set (pd_to_remove ?p) = S - set new"
      by (simp_all add: set_eq_iff)
    have "length (pd_to_add ?p) \<le> length new"
      using mp(1) by (metis size_mset diff_subset_eq_self size_mset_mono)
    then have "room lb (length (pd_to_add ?p) + k)" by (intro room_mono [OF assms(5)]) simp
    from LoadBalancerReset_ok [OF assms(2) this] obtain lb' where
      lb': "LoadBalancerReset add remove ?p (Some lb) = Inr (Some lb')" "ok lb'" "room lb' k"
      "members lb' = set (pd_to_add ?p) \<union> members lb - set (pd_to_remove ?p)" by blast
    let ?x = "RemoveServers ?p (AddServers ?p (sort (dat (\<not> bg))))"
    let ?y = "RemoveServers ?p (AddServers ?p (dat bg))"
    note run = ResetServers_changed [OF d p _ lb'(1), unfolded L, OF False]
    have m: "mset ?x = mset new" "mset ?y = mset new"
      using mp L by (auto intro!: mset_updated)
    then have "distinct ?x" "distinct ?y" "set ?x = set new" "set ?y = set new"
      using assms(4) by (metis mset_eq_imp_distinct_iff mset_eq_setD)+
    moreover have "members lb' = set new" using lb'(4) sp assms(3) by auto
    ultimately show ?thesis
      using run lb' m p by (auto simp: action_knows_def intro!: exI [of _ "mset new"])
  qed
qed

end

section \<open>An update from ZooKeeper\<close>

text \<open>The nodes have no data, as the register makes them, and the stack holds a NUL somewhere.\<close>

definition no_data :: "'z zoo \<Rightarrow> (string \<Rightarrow> string) \<Rightarrow> bool" where
  "no_data zk junk \<longleftrightarrow> (\<forall>p z. snd (zoo_get zk p z) = '''') \<and> (\<forall>c. CHR 0x00 \<in> set (junk c))"

lemma get_loop_run:
  assumes "zoo_tree zk tree" "no_data zk junk"
  shows "\<forall>c \<in> set cs. path @ ''/'' @ c \<in> dom (tree z) \<Longrightarrow> distinct (rev cs @ servers) \<Longrightarrow>
    server_set = set servers \<Longrightarrow>
    get_loop zk junk path z cs server_set servers = Inr (servers @ cs)"
proof (induction cs arbitrary: server_set servers)
  case (Cons c cs)
  obtain d where "zoo_get zk (path @ ''/'' @ c) z = (ZOK, d)"
    using zoo_treeD(5) [OF assms(1)] Cons.prems(1) by (metis list.set_intros(1))
  moreover have "d = ''''" using assms(2) calculation by (metis no_data_def snd_conv)
  ultimately have "\<exists>s. zk_get zk (junk c) (path @ ''/'' @ c) z = Inr s"
    using assms(2) by (simp add: zk_get_def no_data_def)
  with Cons.IH [of "servers @ [c]" "insert c server_set"] Cons.prems show ?case by (auto simp: ubind_def)
qed simp

lemma GetServers_run:
  assumes "zoo_tree zk tree" "no_data zk junk" "length (method_path s m) \<le> 1023"
    and "method_path s m \<in> dom (tree z)"
  shows "\<exists>z' cs. GetServers zk junk s m z = Inr (z', cs) \<and> tree z' = tree z \<and> distinct cs \<and>
    set cs = children (tree z) (method_path s m)"
proof -
  have p: "ns_path s m = method_path s m" using assms(3) by (simp add: ns_path_def method_path_def)
  obtain z' cs where w: "zoo_wget_children zk (method_path s m) z = (z', ZOK, cs)" "tree z' = tree z"
    "distinct cs" "set cs = children (tree z) (method_path s m)"
    using zoo_treeD(4) [OF assms(1,4)] by blast
  then have "\<forall>c \<in> set cs. method_path s m @ ''/'' @ c \<in> dom (tree z')" by (simp add: children_def)
  from get_loop_run [OF assms(1,2) this, of "[]" "{}"] w p show ?thesis
    by (simp add: GetServers_def list_children_and_watch_def Let_def)
qed

text \<open>The action of a key is connected to a balancer and knows its members.\<close>

definition connected :: "actions \<times> (string \<rightharpoonup> lalb) \<times> 'z \<Rightarrow> string \<Rightarrow> string \<Rightarrow> bool" where
  "connected s key b \<longleftrightarrow> (case s of (acts, lbs, z) \<Rightarrow>
     \<exists>a lb. acts key = Some a \<and> na_load_balancer a = Some b \<and> lbs b = Some lb \<and> lb_ok lb \<and>
       action_knows a (lb_members lb))"

context monotone_registry
begin

lemma RunNS_synchronises:
  assumes t: "zoo_tree zk tree" "no_data zk junk" "length (method_path sn mn) \<le> 1023"
      "method_path sn mn \<in> dom (tree z)"
    and c: "acts (service_method_key sn mn) = Some a" "na_load_balancer a = Some b" "lbs b = Some lb"
      "ok lb" "action_knows a (members lb)"
    and room: "room lb (card (children (tree z) (method_path sn mn)) + k)"
  shows "\<exists>a' lb' z'. RunNS zk junk add remove sn mn (acts, lbs, z) =
      Inr (acts(service_method_key sn mn \<mapsto> a'), lbs(b \<mapsto> lb'), z') \<and> tree z' = tree z \<and>
    na_load_balancer a' = Some b \<and> ok lb' \<and> members lb' = children (tree z) (method_path sn mn) \<and>
    action_knows a' (members lb') \<and> room lb' k"
proof -
  obtain z' cs where g: "GetServers zk junk sn mn z = Inr (z', cs)" "tree z' = tree z" "distinct cs"
    "set cs = children (tree z) (method_path sn mn)" using GetServers_run [OF t] by blast
  have "room lb (length cs + k)" using room g(3,4) by (simp add: distinct_card [symmetric])
  then obtain a' lb' where
    "ResetServers add remove cs a (Some lb) = Inr (a', Some lb')"
    "action_knows a' (set cs)" "na_load_balancer a' = na_load_balancer a" "ok lb'" "members lb' = set cs"
    "room lb' k"
    using ResetServers_synchronises [OF c(5,4) refl g(3)] by blast
  with g c show ?thesis
    by (intro exI [of _ a'] exI [of _ lb'] exI [of _ z']) (simp add: RunNS_def reset_action_def Let_def)
qed

end

lemma ManageLoadBalancer_RunNS:
  "ManageLoadBalancer zk junk add remove sn mn b (acts, lbs, z) =
     RunNS zk junk add remove sn mn (acts(service_method_key sn mn \<mapsto> SetLoadBalancer b action_new), lbs, z)"
  by (simp add: ManageLoadBalancer_def Let_def)

lemma service_len_plain:
  "CHR ''/'' \<notin> set s \<Longrightarrow> n \<le> length s \<Longrightarrow>
   service_len_loop (''/'' @ s @ ''/'' @ m) (Suc n) = length s"
proof (induction "length s - n" arbitrary: n)
  case 0
  then show ?case by (subst service_len_loop.simps) (simp add: nth_append)
next
  case (Suc k)
  then have "s ! n \<noteq> CHR ''/''" by (metis nth_mem diff_is_0_eq linorder_not_less nat.simps(3) order_less_le)
  with Suc show ?case by (subst service_len_loop.simps) (simp add: nth_append)
qed

lemma watch_names_path:
  assumes "CHR ''/'' \<notin> set sn" "length (method_path sn mn) \<le> 1023"
  shows "watch_names (ns_path sn mn) = Inr (sn, mn)"
  using service_len_plain [OF assms(1), of 0 mn] assms(2)
  by (simp add: watch_names_def ns_path_def method_path_def Let_def)

section \<open>Properties\<close>

text \<open>
  C6: an update of the naming service leaves the balancer of a service, the weighted random one
  that the client uses, with exactly the servers that ZooKeeper lists for the method, and both
  copies of the server list agree with it; nothing else of the client changes.
\<close>

theorem name_service_synchronises:
  assumes "zoo_tree zk tree" "no_data zk junk" "length (method_path sn mn) \<le> 1023"
    and "method_path sn mn \<in> dom (tree z)" "connected (acts, lbs, z) (service_method_key sn mn) b"
    and "lb_room (the (lbs b)) (card (children (tree z) (method_path sn mn)))"
  shows "\<exists>a lb z'. RunNS zk junk (wr_add_server now) wr_remove_server sn mn (acts, lbs, z) =
      Inr (acts(service_method_key sn mn \<mapsto> a), lbs(b \<mapsto> lb), z') \<and> tree z' = tree z \<and>
    connected (acts(service_method_key sn mn \<mapsto> a), lbs(b \<mapsto> lb), z') (service_method_key sn mn) b \<and>
    lb_members lb = children (tree z) (method_path sn mn) \<and>
    (\<forall>buf. set (dbd_data (na_data a) buf) = lb_members lb \<and> distinct (dbd_data (na_data a) buf))"
proof -
  obtain a lb where c: "acts (service_method_key sn mn) = Some a" "na_load_balancer a = Some b"
    "lbs b = Some lb" "lb_ok lb" "action_knows a (lb_members lb)"
    using assms(5) by (auto simp: connected_def)
  obtain a' lb' z' where
    "RunNS zk junk (wr_add_server now) wr_remove_server sn mn (acts, lbs, z) =
      Inr (acts(service_method_key sn mn \<mapsto> a'), lbs(b \<mapsto> lb'), z')" "tree z' = tree z"
    "na_load_balancer a' = Some b" "lb_ok lb'" "lb_members lb' = children (tree z) (method_path sn mn)"
    "action_knows a' (lb_members lb')"
    using wrlb.RunNS_synchronises [where k = 0 and acts = acts and lbs = lbs and z = z and now = now, OF assms(1-4) c]
      assms(6) c(3) by auto
  then show ?thesis
    by (intro exI [of _ a'] exI [of _ lb'] exI [of _ z']) (auto simp: connected_def action_knows_def)
qed

text \<open>
  The watch callback reads back, from the path it was set on, the names of the service and
  the method, and so runs the update of that method again.
\<close>

theorem watch_runs_the_update:
  assumes "CHR ''/'' \<notin> set sn" "CHR 0x00 \<notin> set sn" "CHR 0x00 \<notin> set mn" "length (method_path sn mn) \<le> 1023"
  shows "watch_names (ns_path sn mn) = Inr (sn, mn) \<and>
    child_watch_cb zk junk add remove True (ns_path sn mn) s = RunNS zk junk add remove sn mn s"
proof -
  have "watch_names (ns_path sn mn) = Inr (sn, mn)" by (rule watch_names_path [OF assms(1,4)])
  then show ?thesis using assms by (simp add: child_watch_cb_def c_str_id)
qed

text \<open>
  The key of an action does not tell the service from the method. When two pairs have the
  same key, as \<open>a_b\<close>, \<open>c\<close> and \<open>a\<close>, \<open>b_c\<close> have, connecting the second disconnects the balancer
  of the first: its updates now go to the balancer of the second, which gets its servers.
\<close>

theorem naming_keys_collide:
  assumes "service_method_key s1 m1 = service_method_key s2 m2" "b1 \<noteq> b2"
    and "zoo_tree zk tree" "no_data zk junk"
    and "length (method_path s1 m1) \<le> 1023" "length (method_path s2 m2) \<le> 1023"
    and "method_path s1 m1 \<in> dom (tree z)" "method_path s2 m2 \<in> dom (tree z)"
    and "lbs b1 = Some lb1" "lbs b2 = Some lalb_new"
    and "card (children (tree z) (method_path s1 m1)) + card (children (tree z) (method_path s2 m2)) \<le> 1000000"
  shows "\<exists>s s' lb2. ManageLoadBalancer zk junk (wr_add_server now) wr_remove_server s2 m2 b2 (acts, lbs, z) = Inr s \<and>
    RunNS zk junk (wr_add_server now) wr_remove_server s1 m1 s = Inr s' \<and>
    fst (snd s') b1 = Some lb1 \<and> fst (snd s') b2 = Some lb2 \<and>
    lb_members lb2 = children (tree z) (method_path s1 m1)"
proof -
  let ?key = "service_method_key s2 m2"
  let ?acts = "acts(?key \<mapsto> SetLoadBalancer b2 action_new)"
  have a: "?acts ?key = Some (SetLoadBalancer b2 action_new)"
    "na_load_balancer (SetLoadBalancer b2 action_new) = Some b2"
    "action_knows (SetLoadBalancer b2 action_new) (lb_members lalb_new)"
    by (simp_all add: SetLoadBalancer_def lalb_new_ok action_knows_new [unfolded action_knows_def] action_knows_def)
  have r: "lb_room lalb_new (card (children (tree z) (method_path s2 m2)) +
      card (children (tree z) (method_path s1 m1)))"
    using assms(11) by (intro lalb_new_room) simp
  obtain a1 lb z1 where 1: "ManageLoadBalancer zk junk (wr_add_server now) wr_remove_server s2 m2 b2 (acts, lbs, z) =
      Inr (?acts(?key \<mapsto> a1), lbs(b2 \<mapsto> lb), z1)" "tree z1 = tree z" "na_load_balancer a1 = Some b2" "lb_ok lb"
    "action_knows a1 (lb_members lb)" "lb_room lb (card (children (tree z) (method_path s1 m1)))"
    using wrlb.RunNS_synchronises [where acts = ?acts and lbs = lbs and z = z and now = now,
        OF assms(3,4,6,8) a(1,2) assms(10) lalb_new_ok(1) a(3) r]
    unfolding ManageLoadBalancer_RunNS by blast
  have "\<exists>a' lb' z'. RunNS zk junk (wr_add_server now) wr_remove_server s1 m1 (?acts(?key \<mapsto> a1), lbs(b2 \<mapsto> lb), z1) =
      Inr (?acts(?key \<mapsto> a1, service_method_key s1 m1 \<mapsto> a'), lbs(b2 \<mapsto> lb, b2 \<mapsto> lb'), z') \<and>
      lb_members lb' = children (tree z1) (method_path s1 m1)"
    using wrlb.RunNS_synchronises [where k = 0 and acts = "?acts(?key \<mapsto> a1)" and lbs = "lbs(b2 \<mapsto> lb)" and z = z1
        and now = now and a = a1 and b = b2 and lb = lb, OF assms(3,4,5)]
      1 assms(1,7) by auto
  with 1 assms(2,9) show ?thesis by fastforce
qed

section \<open>Witnesses\<close>

text \<open>Two methods with colliding keys, one server each.\<close>

definition demo_tree :: "(string \<times> create_mode) list" where
  "demo_tree = [(''/a_b'', ZOO_PERSISTENT), (''/a_b/c'', ZOO_PERSISTENT), (''/a_b/c/h:1'', ZOO_EPHEMERAL),
     (''/a'', ZOO_PERSISTENT), (''/a/b_c'', ZOO_PERSISTENT), (''/a/b_c/h:2'', ZOO_EPHEMERAL)]"

lemma demo_children [simp]:
  "children (map_of demo_tree) ''/a_b/c'' = {''h:1''}" "children (map_of demo_tree) ''/a/b_c'' = {''h:2''}"
  unfolding set_list_children [symmetric]
  by (simp_all add: list_children_def demo_tree_def zparent_def zlast_def)

lemma demo_paths [simp]:
  "method_path ''a_b'' ''c'' = ''/a_b/c''" "method_path ''a'' ''b_c'' = ''/a/b_c''"
  by (simp_all add: method_path_def)

lemma demo_dom [simp]:
  "''/a_b/c'' \<in> dom (map_of demo_tree)" "''/a/b_c'' \<in> dom (map_of demo_tree)"
  by (simp_all add: demo_tree_def)

lemma demo_no_data: "no_data list_zoo (\<lambda>_. replicate 64 CHR 0x00)"
  by (simp add: no_data_def list_zoo_simps)

lemma name_service_synchronises_witness:
  "\<exists>a lb z'. RunNS list_zoo (\<lambda>_. replicate 64 CHR 0x00) (wr_add_server 5) wr_remove_server ''a_b'' ''c''
      ([service_method_key ''a_b'' ''c'' \<mapsto> SetLoadBalancer ''a_b'' action_new], [''a_b'' \<mapsto> lalb_new], demo_tree) =
      Inr ([service_method_key ''a_b'' ''c'' \<mapsto> a], [''a_b'' \<mapsto> lb], z') \<and> lb_members lb = {''h:1''}"
proof -
  have c: "connected ([service_method_key ''a_b'' ''c'' \<mapsto> SetLoadBalancer ''a_b'' action_new],
      [''a_b'' \<mapsto> lalb_new], demo_tree) (service_method_key ''a_b'' ''c'') ''a_b''"
    using action_knows_new by (simp add: connected_def lalb_new_ok) (simp add: SetLoadBalancer_def)
  have "lb_room lalb_new 1" by (rule lalb_new_room) simp
  then show ?thesis
    using name_service_synchronises [OF list_zoo_tree demo_no_data _ _ c, of 5] by auto
qed

lemma watch_runs_the_update_witness: "watch_names ''/math/twice'' = Inr (''math'', ''twice'')"
  using watch_runs_the_update [of "''math''" "''twice''" list_zoo "\<lambda>_. replicate 64 CHR 0x00" "wr_add_server 0"
      wr_remove_server "(Map.empty, Map.empty, [])"]
  by (simp add: ns_path_def method_path_def)

lemma naming_keys_collide_witness:
  "\<exists>s s' lb2. ManageLoadBalancer list_zoo (\<lambda>_. replicate 64 CHR 0x00) (wr_add_server 5) wr_remove_server
      ''a'' ''b_c'' ''a'' (Map.empty, [''a_b'' \<mapsto> lalb_new, ''a'' \<mapsto> lalb_new], demo_tree) = Inr s \<and>
    RunNS list_zoo (\<lambda>_. replicate 64 CHR 0x00) (wr_add_server 5) wr_remove_server ''a_b'' ''c'' s = Inr s' \<and>
    fst (snd s') ''a'' = Some lb2 \<and> lb_members lb2 = {''h:1''}"
proof -
  let ?lbs = "[''a_b'' \<mapsto> lalb_new, ''a'' \<mapsto> lalb_new]"
  have k: "service_method_key ''a_b'' ''c'' = service_method_key ''a'' ''b_c''" "''a_b'' \<noteq> ''a''"
    by (simp_all add: service_method_key_def)
  have l: "length (method_path ''a_b'' ''c'') \<le> 1023" "length (method_path ''a'' ''b_c'') \<le> 1023"
    "method_path ''a_b'' ''c'' \<in> dom (map_of demo_tree)" "method_path ''a'' ''b_c'' \<in> dom (map_of demo_tree)"
    by simp_all
  have b: "?lbs ''a_b'' = Some lalb_new" "?lbs ''a'' = Some lalb_new" by simp_all
  have "card (children (map_of demo_tree) (method_path ''a_b'' ''c'')) +
      card (children (map_of demo_tree) (method_path ''a'' ''b_c'')) \<le> 1000000" by simp
  from naming_keys_collide [where acts = Map.empty and lbs = ?lbs and now = 5,
      OF k list_zoo_tree demo_no_data l b this] show ?thesis by auto
qed

end
