(* ===== verification/RpcClient.thy ===== *)
theory RpcClient
  imports RpcServer NamingService
begin

text \<open>
  The client side of an RPC: the channel that connects for one call
  (\<open>include/rpc_proto/short_socket_channel.h\<close>) and the stub
  (\<open>src/rpc_proto/rpc_client_stub.cc\<close>, \<open>src/rpc_proto/rpc_client.cc\<close>). A call finds or makes the
  balancer of the service, connects it to the naming service, selects a server, sends the
  request over a new connection, reads one response and gives feedback.

  What the system calls of one call return is the record \<open>net_io\<close>; a call that has used up
  those lists is still waiting and has the value \<open>Inr None\<close>. The lock on the map of balancers
  is held for one step and not modelled.
\<close>

section \<open>The channel of a call\<close>

text \<open>The address up to the first colon and the port behind it; nothing without a colon.\<close>

definition addr_parts :: "string \<Rightarrow> (string \<times> int) option res" where
  "addr_parts server_addr =
     (if server_addr = '''' then Inr None
      else if CHR '':'' \<notin> set server_addr then Inr None
      else let ip = takeWhile (\<lambda>c. c \<noteq> CHR '':'') server_addr
           in ubind (stoi (drop (length ip + 1) server_addr)) (\<lambda>port. Inr (Some (ip, port))))"

record channel =
  ch_connected :: bool
  ch_sock :: socket

definition channel_new ::
  "string \<Rightarrow> int \<Rightarrow> connect_ret list \<Rightarrow> fds \<Rightarrow> (channel \<times> fds) option res" where
  "channel_new server_addr fd rs k =
     (let (s, _, k) = socket_new ''TCP'' fd k in
      ubind (addr_parts server_addr) (\<lambda>parts.
      case parts of
        None \<Rightarrow> Inr (Some (\<lparr>ch_connected = False, ch_sock = s\<rparr>, k))
      | Some (ip, port) \<Rightarrow>
          Inr (case socket_connect (c_str ip) port rs [] s of
                 None \<Rightarrow> None
               | Some (ret, s, _) \<Rightarrow> Some (\<lparr>ch_connected = (ret = 0), ch_sock = s\<rparr>, k))))"

definition channel_send :: "string \<Rightarrow> int list \<Rightarrow> channel \<Rightarrow> (int \<times> string) option" where
  "channel_send buf rs c = map_option (\<lambda>(r, out, _). (r, out)) (socket_send (sk_fd (ch_sock c)) buf rs [] '''')"

definition channel_recv :: "read_ret list \<Rightarrow> channel \<Rightarrow> string option" where
  "channel_recv rs c = map_option fst (socket_read (sk_fd (ch_sock c)) rs [])"

definition channel_close :: "int \<Rightarrow> channel \<Rightarrow> fds \<Rightarrow> fds \<times> int" where
  "channel_close ret c k = (fst (shutdownWrite ret (ch_sock c) k), 0)"

definition channel_destroy :: "int \<Rightarrow> channel \<Rightarrow> fds \<Rightarrow> fds" where
  "channel_destroy ret c k = socket_destroy (ch_sock c) (fst (channel_close ret (c\<lparr>ch_connected := False\<rparr>) k))"

section \<open>A call\<close>

record net_io =
  nio_fd :: int
  nio_connect :: "connect_ret list"
  nio_sends :: "int list"
  nio_reads :: "read_ret list"
  nio_shutdown :: int

record client_stub =
  cl_actions :: actions
  cl_lbs :: "string \<rightharpoonup> lalb"

definition client_stub_new :: client_stub where
  "client_stub_new = \<lparr>cl_actions = Map.empty, cl_lbs = Map.empty\<rparr>"

text \<open>The first call of a service makes its balancer and connects it to the method of this call.\<close>

definition find_balancer ::
  "'z zoo \<Rightarrow> (string \<Rightarrow> string) \<Rightarrow> int \<Rightarrow> string \<Rightarrow> string \<Rightarrow> client_stub \<Rightarrow> 'z \<Rightarrow> (client_stub \<times> 'z) res" where
  "find_balancer zk junk now service_name method_name cl z =
     (if cl_lbs cl service_name = None then
        ubind (ManageLoadBalancer zk junk (wr_add_server now) wr_remove_server (c_str service_name)
                 (c_str method_name) service_name
                 (cl_actions cl, (cl_lbs cl)(service_name \<mapsto> wr_new), z)) (\<lambda>(acts, lbs, z).
        Inr (\<lparr>cl_actions = acts, cl_lbs = lbs\<rparr>, z))
      else Inr (cl, z))"

definition request_of :: "codec \<Rightarrow> string \<Rightarrow> string \<Rightarrow> string \<Rightarrow> string" where
  "request_of cd service_name method_name args =
     (let head = cd_hser cd \<lparr>rh_service_name = service_name, rh_method_name = method_name,
                   rh_args_size = u32 (length args)\<rparr>
      in u32_bytes (u32 (length head)) @ head @ args)"

text \<open>
  A buffer of 4096 zero bytes receives one read, whose length is not looked at. The parser is
  given the header from the buffer, and the response is copied from behind it.
\<close>

definition read_response :: "codec \<Rightarrow> string \<Rightarrow> (string \<times> rpc_response_header) res" where
  "read_response cd bytes =
     (let buf = bytes @ replicate (4096 - length bytes) CHR 0x00 in
      ubind (get_u32 buf) (\<lambda>len.
      if 4 + len > 4096 then Inl OutOfBounds
      else let hdr = cd_rparse cd (take len (drop 4 buf)); n = rr_args_size hdr in
        if n < 0 then Inl Thrown
        else if int (4 + len) + n > 4096 then Inl OutOfBounds
        else Inr (take (nat n) (drop (4 + len) buf), hdr)))"

text \<open>The exchange with the selected server: what was sent and what was received.\<close>

definition exchange :: "net_io \<Rightarrow> string \<Rightarrow> string \<Rightarrow> fds \<Rightarrow> (string \<times> string \<times> channel \<times> fds) option res" where
  "exchange io node request k =
     ubind (channel_new node (nio_fd io) (nio_connect io) k) (\<lambda>c.
     Inr (case c of
            None \<Rightarrow> None
          | Some (ch, k) \<Rightarrow>
              (case channel_send request (nio_sends io) ch of
                 None \<Rightarrow> None
               | Some (r, out) \<Rightarrow>
                   map_option (\<lambda>bytes. (out, bytes, ch, k)) (channel_recv (nio_reads io) ch))))"

record call_result =
  cr_response :: string
  cr_header :: rpc_response_header
  cr_sent :: string

text \<open>
  \<open>call\<close>. \<open>header\<close> is what the caller passes for the response header; the feedback takes the
  status from it before the response is parsed. \<open>now0\<close> and \<open>now1\<close> are the times of the selection
  and of the feedback.
\<close>

definition call ::
  "'z zoo \<Rightarrow> (string \<Rightarrow> string) \<Rightarrow> codec \<Rightarrow> draws \<Rightarrow> int \<Rightarrow> int \<Rightarrow> net_io \<Rightarrow>
   string \<Rightarrow> string \<Rightarrow> string \<Rightarrow> rpc_response_header \<Rightarrow> client_stub \<Rightarrow> 'z \<Rightarrow> fds \<Rightarrow>
   (call_result \<times> client_stub \<times> 'z \<times> fds) option res" where
  "call zk junk cd rnd now0 now1 io service_name method_name args header cl z k =
     ubind (find_balancer zk junk now0 service_name method_name cl z) (\<lambda>(cl, z).
     ubind (of_opt NullDeref (cl_lbs cl service_name)) (\<lambda>lb.
     ubind (wr_select_server rnd select_out_init lb) (\<lambda>(ret, out).
     if ret = 0 then
       ubind (exchange io (so_node out) (request_of cd service_name method_name args) k) (\<lambda>x.
       case x of
         None \<Rightarrow> Inr None
       | Some (sent, bytes, ch, k) \<Rightarrow>
           ubind (if so_need_feedback out
                  then wr_Feedback now1 \<lparr>ci_begin_time_us = now0, ci_node = so_node out,
                         ci_error_code = error_val (rr_status header)\<rparr> lb
                  else Inr lb) (\<lambda>lb.
           ubind (read_response cd bytes) (\<lambda>(response, header).
           Inr (Some (\<lparr>cr_response = response, cr_header = header, cr_sent = sent\<rparr>,
             cl\<lparr>cl_lbs := (cl_lbs cl)(service_name \<mapsto> lb)\<rparr>, z, channel_destroy (nio_shutdown io) ch k)))))
     else
       Inr (Some (\<lparr>cr_response = '''',
         cr_header = header\<lparr>rr_status := UNKNOWN_ERROR, rr_message := ''select server failed''\<rparr>,
         cr_sent = ''''\<rparr>, cl, z, k)))))"

text \<open>\<open>RpcClient::call\<close>.\<close>

definition client_call where
  "client_call = call"

section \<open>Lemmas\<close>

lemma addr_parts_addr_str:
  assumes "CHR '':'' \<notin> set ip" "- (2 ^ 31) \<le> port" "port < 2 ^ 31"
  shows "addr_parts (addr_str (Some ip) port) = Inr (Some (ip, port))"
proof -
  have "takeWhile (\<lambda>c. c \<noteq> CHR '':'') (ip @ CHR '':'' # dec port) = ip"
    using assms(1) by (auto simp: takeWhile_append2 takeWhile_tail)
  then show ?thesis by (simp add: addr_parts_def addr_str_def stoi_dec [OF assms(2,3)])
qed

lemma read_response_frame:
  assumes "cd_rparse cd (cd_rser cd hdr) = hdr" "rr_args_size hdr = int (length response)"
    and "length (frame (cd_rser cd hdr) response) \<le> 4096"
  shows "read_response cd (frame (cd_rser cd hdr) response) = Inr (response, hdr)"
proof -
  let ?h = "cd_rser cd hdr" let ?z = "replicate (4096 - length (frame ?h response)) CHR 0x00"
  have l: "4 + length ?h + length response \<le> 4096" using assms(3) by (simp add: frame_def)
  have b: "frame ?h response @ ?z = u32_bytes (length ?h) @ ?h @ response @ ?z" by (simp add: frame_def)
  have "get_u32 (frame ?h response @ ?z) = Inr (length ?h)"
    unfolding b using l by (intro get_u32_bytes) simp
  moreover have "drop 4 (frame ?h response @ ?z) = ?h @ response @ ?z"
    unfolding b by simp
  moreover have "drop (4 + length ?h) (frame ?h response @ ?z) = response @ ?z"
    unfolding b by simp
  ultimately show ?thesis using assms(1,2) l
    by (simp add: read_response_def Let_def del: append_assoc)
qed

lemma read_response_nothing:
  assumes "cd_rparse cd '''' = response_header_new"
  shows "read_response cd '''' = Inr ('''', response_header_new)"
proof -
  have "take 4 (replicate 4096 CHR 0x00 @ [CHR 0x00]) = replicate 4 CHR 0x00" by simp
  also have "\<dots> = [CHR 0x00, CHR 0x00, CHR 0x00, CHR 0x00]" by (simp add: numeral_eq_Suc)
  finally have "get_u32 (replicate 4096 CHR 0x00) = Inr 0" by (simp add: get_u32_def)
  with assms show ?thesis by (simp add: read_response_def response_header_new_def)
qed

lemma request_of_frame:
  assumes "length args < 2 ^ 32"
    and "length (cd_hser cd \<lparr>rh_service_name = sn, rh_method_name = mn, rh_args_size = length args\<rparr>) < 2 ^ 32"
  shows "request_of cd sn mn args =
    frame (cd_hser cd \<lparr>rh_service_name = sn, rh_method_name = mn, rh_args_size = length args\<rparr>) args"
  using assms by (simp add: request_of_def frame_def u32_id Let_def)

text \<open>An exchange in which the server connects, takes the request in one piece and answers.\<close>

lemma exchange_run:
  assumes "addr_parts node = Inr (Some (ip, port))" "nio_connect io = Connected # cs"
    and "nio_sends io = int (length request) # ss" "length request < 2 ^ 63" "nio_reads io = Got bytes # rs"
  shows "\<exists>ch k'. exchange io node request k = Inr (Some (request, bytes, ch, k'))"
  using assms
  by (auto simp: exchange_def channel_new_def socket_new_def channel_send_def channel_recv_def Let_def u64_id)

text \<open>What a call comes to once a server has been selected and has sent \<open>bytes\<close>.\<close>

lemma call_selected:
  assumes "find_balancer zk junk now0 sn mn cl z = Inr (cl', z')" "cl_lbs cl' sn = Some lb"
    and "wr_select_server rnd select_out_init lb = Inr (0, out)"
    and "addr_parts (so_node out) = Inr (Some (ip, port))"
    and "(if so_need_feedback out
          then wr_Feedback now1 \<lparr>ci_begin_time_us = now0, ci_node = so_node out,
                 ci_error_code = error_val (rr_status header)\<rparr> lb
          else Inr lb) = Inr lb'"
    and "nio_connect io = [Connected]" "nio_sends io = [int (length (request_of cd sn mn args))]"
    and "length (request_of cd sn mn args) < 2 ^ 63" "nio_reads io = [Got bytes]"
    and "read_response cd bytes = Inr (response, hdr)"
  shows "\<exists>cl'' k'. call zk junk cd rnd now0 now1 io sn mn args header cl z k =
    Inr (Some (\<lparr>cr_response = response, cr_header = hdr, cr_sent = request_of cd sn mn args\<rparr>, cl'', z', k'))"
proof -
  obtain ch k' where "exchange io (so_node out) (request_of cd sn mn args) k =
      Inr (Some (request_of cd sn mn args, bytes, ch, k'))"
    using exchange_run [OF assms(4,6,7,8,9)] by blast
  with assms(1-3,5,10) show ?thesis by (simp add: call_def)
qed

lemma find_balancer_known: "cl_lbs cl sn = Some lb \<Longrightarrow> find_balancer zk junk now sn mn cl z = Inr (cl, z)"
  by (simp add: find_balancer_def)

text \<open>The first call of a service finds the servers that ZooKeeper lists for its method.\<close>

lemma find_balancer_new:
  assumes "zoo_tree zk tree" "no_data zk junk" "length (method_path sn mn) \<le> 1023"
    and "method_path sn mn \<in> dom (tree z)" "CHR 0x00 \<notin> set sn" "CHR 0x00 \<notin> set mn"
    and "cl_lbs cl sn = None" "card (children (tree z) (method_path sn mn)) + k \<le> 1000000"
  shows "\<exists>cl' z' lb. find_balancer zk junk now sn mn cl z = Inr (cl', z') \<and> tree z' = tree z \<and>
    cl_lbs cl' = (cl_lbs cl)(sn \<mapsto> lb) \<and> lb_ok lb \<and> lb_room lb k \<and>
    lb_members lb = children (tree z) (method_path sn mn) \<and> lb_fresh now lb"
proof -
  let ?key = "service_method_key sn mn" let ?a = "SetLoadBalancer sn action_new"
  let ?acts = "(cl_actions cl)(?key \<mapsto> ?a)" let ?lbs = "(cl_lbs cl)(sn \<mapsto> lalb_new)"
  have a: "?acts ?key = Some ?a" "na_load_balancer ?a = Some sn" "?lbs sn = Some lalb_new"
    "action_knows ?a (lb_members lalb_new)"
    by (simp_all add: SetLoadBalancer_def [of sn action_new] lalb_new_ok action_knows_new [unfolded action_knows_def] action_knows_def)
  have r: "lb_room lalb_new (card (children (tree z) (method_path sn mn)) + k)"
    using assms(8) by (rule lalb_new_room)
  obtain a' lb z' where "RunNS zk junk (wr_add_server now) wr_remove_server sn mn (?acts, ?lbs, z) =
      Inr (?acts(?key \<mapsto> a'), ?lbs(sn \<mapsto> lb), z')" "tree z' = tree z" "lb_fresh now lb" "lb_room lb k"
    "lb_members lb = children (tree z) (method_path sn mn)"
    using wrnew.RunNS_synchronises [where acts = ?acts and lbs = ?lbs and z = z and now = now,
        OF assms(1-4) a(1-3) lalb_new_fresh a(4) r] by blast
  then show ?thesis using assms(5,6,7)
    by (intro exI [of _ "\<lparr>cl_actions = ?acts(?key \<mapsto> a'), cl_lbs = ?lbs(sn \<mapsto> lb)\<rparr>"] exI [of _ z'] exI [of _ lb])
      (simp add: find_balancer_def ManageLoadBalancer_RunNS c_str_id lb_fresh_def wr_new_def)
qed

text \<open>
  A request that arrives in one piece gets one answer, from which the client reads the response
  and the header back.
\<close>

lemma request_answered:
  assumes "cd_hparse cd (cd_hser cd \<lparr>rh_service_name = sn, rh_method_name = mn, rh_args_size = length args\<rparr>) =
      \<lparr>rh_service_name = sn, rh_method_name = mn, rh_args_size = length args\<rparr>"
    and "length (cd_hser cd \<lparr>rh_service_name = sn, rh_method_name = mn, rh_args_size = length args\<rparr>) < 2 ^ 32"
    and "length args < 2 ^ 32"
    and "answer st sn mn args u = (hdr, response, u')" "cd_rparse cd (cd_rser cd hdr) = hdr"
    and "length (frame (cd_rser cd hdr) response) \<le> 4096"
    and "on_connection cd st [request_of cd sn mn args] u [] = Inr (replies, u'', gone)"
  shows "replies = [frame (cd_rser cd hdr) response]" "u'' = u'"
    and "read_response cd (frame (cd_rser cd hdr) response) = Inr (response, hdr)"
    and "length (request_of cd sn mn args) < 2 ^ 63"
proof -
  let ?head = "cd_hser cd \<lparr>rh_service_name = sn, rh_method_name = mn, rh_args_size = length args\<rparr>"
  have q: "request_of cd sn mn args = frame ?head args" using assms(2,3) by (intro request_of_frame) simp_all
  have "process_request cd st (frame ?head args) u = Inr (frame (cd_rser cd hdr) response, u')"
    using assms(1,2,4) by (intro process_frame [OF refl]) simp_all
  moreover have "frame ?head args \<noteq> ''''" by (simp add: frame_def u32_bytes_def)
  ultimately show "replies = [frame (cd_rser cd hdr) response]" "u'' = u'" using assms(7) q by auto
  have "s32 (int (length response)) = int (length response)"
    using assms(6) by (intro s32_id) (simp_all add: frame_def)
  then have "rr_args_size hdr = int (length response)"
    using assms(4) by (auto simp: answer_def split: option.splits prod.splits)
  then show "read_response cd (frame (cd_rser cd hdr) response) = Inr (response, hdr)"
    using assms(5,6) by (intro read_response_frame)
  show "length (request_of cd sn mn args) < 2 ^ 63" using assms(2,3) by (simp add: q frame_def)
qed

section \<open>Properties\<close>

text \<open>
  C2: a remote call is a local call: when the request reaches the selected server in one piece
  and the response fits the buffer of the client, the call returns the response and the header
  that the server's map of services gives for the arguments, and the callback has run once.
\<close>

theorem rpc_roundtrip:
  fixes cd sn mn args
  defines "request_header \<equiv> \<lparr>rh_service_name = sn, rh_method_name = mn, rh_args_size = length args\<rparr>"
  assumes "cd_hparse cd (cd_hser cd request_header) = request_header"
    and "length (cd_hser cd request_header) < 2 ^ 32" "length args < 2 ^ 32"
    and "answer st sn mn args u = (hdr, response, u')" "cd_rparse cd (cd_rser cd hdr) = hdr"
    and "length (frame (cd_rser cd hdr) response) \<le> 4096"
    and "find_balancer zk junk now0 sn mn cl z = Inr (cl', z')" "cl_lbs cl' sn = Some lb"
    and "wr_select_server rnd select_out_init lb = Inr (0, out)"
    and "so_node out = addr_str (Some ip) port" "CHR '':'' \<notin> set ip" "- (2 ^ 31) \<le> port" "port < 2 ^ 31"
    and "(if so_need_feedback out
          then wr_Feedback now1 \<lparr>ci_begin_time_us = now0, ci_node = so_node out,
                 ci_error_code = error_val (rr_status header)\<rparr> lb
          else Inr lb) = Inr lb'"
    and "nio_connect io = [Connected]" "nio_sends io = [int (length (request_of cd sn mn args))]"
    and "on_connection cd st [request_of cd sn mn args] u [] = Inr (replies, u'', gone)"
    and "nio_reads io = map Got replies"
  shows "\<exists>r cl'' k'. call zk junk cd rnd now0 now1 io sn mn args header cl z k = Inr (Some (r, cl'', z', k')) \<and>
    cr_response r = response \<and> cr_header r = hdr \<and> u'' = u'"
proof -
  note q = request_answered [OF assms(2-7) [unfolded request_header_def] assms(18)]
  moreover have "addr_parts (so_node out) = Inr (Some (ip, port))"
    using assms(11-14) by (simp add: addr_parts_addr_str)
  ultimately show ?thesis
    using call_selected [OF assms(8,9,10) _ assms(15,16,17), of ip port "frame (cd_rser cd hdr) response" response hdr]
      assms(19) by force
qed

text \<open>
  A call whose server goes away without an answer reports SUCCESS with an empty response:
  the length of what was received is not looked at, and the buffer of zeros parses as an empty
  header.
\<close>

theorem lost_response_is_success:
  assumes "cd_rparse cd '''' = response_header_new"
    and "find_balancer zk junk now0 sn mn cl z = Inr (cl', z')" "cl_lbs cl' sn = Some lb"
    and "wr_select_server rnd select_out_init lb = Inr (0, out)"
    and "addr_parts (so_node out) = Inr (Some (ip, port))"
    and "(if so_need_feedback out
          then wr_Feedback now1 \<lparr>ci_begin_time_us = now0, ci_node = so_node out,
                 ci_error_code = error_val (rr_status header)\<rparr> lb
          else Inr lb) = Inr lb'"
    and "nio_connect io = [Connected]" "nio_sends io = [int (length (request_of cd sn mn args))]"
    and "length (request_of cd sn mn args) < 2 ^ 63" "nio_reads io = [Got '''']"
  shows "\<exists>r cl'' k'. call zk junk cd rnd now0 now1 io sn mn args header cl z k = Inr (Some (r, cl'', z', k')) \<and>
    cr_response r = '''' \<and> rr_status (cr_header r) = SUCCESS"
  using call_selected [OF assms(2-10) read_response_nothing [OF assms(1)]]
  by (force simp: response_header_new_def)

text \<open>
  The address a server registers is read back by the channel of the client as the address
  and the port the server was started with.
\<close>

theorem address_roundtrip:
  assumes "CHR '':'' \<notin> set ip" "- (2 ^ 31) \<le> port" "port < 2 ^ 31"
  shows "addr_parts (addr_str (Some ip) port) = Inr (Some (ip, port)) \<and>
    addr_parts (addr_str None port) = Inr (Some (''127.0.0.1'', port))"
  using addr_parts_addr_str [OF assms] addr_parts_addr_str [OF _ assms(2,3), of "''127.0.0.1''"]
  by (simp add: addr_str_def)

text \<open>
  The balancer of a service is connected to the method of the first call only. A call of
  another method of the service is balanced over the servers of the first one, whether or not
  they serve it.
\<close>

theorem other_methods_use_first_servers:
  assumes "zoo_tree zk tree" "no_data zk junk" "length (method_path sn m1) \<le> 1023"
    and "method_path sn m1 \<in> dom (tree z)" "CHR 0x00 \<notin> set sn" "CHR 0x00 \<notin> set m1"
    and "cl_lbs cl sn = None" "card (children (tree z) (method_path sn m1)) \<le> 1000000"
  shows "\<exists>cl' z' lb. find_balancer zk junk now sn m1 cl z = Inr (cl', z') \<and>
    find_balancer zk junk now' sn m2 cl' z' = Inr (cl', z') \<and> cl_lbs cl' sn = Some lb \<and>
    lb_members lb = children (tree z) (method_path sn m1)"
proof -
  obtain cl' z' lb where "find_balancer zk junk now sn m1 cl z = Inr (cl', z')"
    "cl_lbs cl' = (cl_lbs cl)(sn \<mapsto> lb)" "lb_members lb = children (tree z) (method_path sn m1)"
    using find_balancer_new [OF assms(1-7), of 0 now] assms(8) by auto
  then show ?thesis by (auto simp: find_balancer_known)
qed

section \<open>Witnesses\<close>

text \<open>A client that knows one server of the demo service.\<close>

definition demo_server_lb :: lalb where
  "demo_server_lb =
     \<lparr>lb_servers = dbd_new \<lparr>weight_tree = [\<lparr>sv_name = ''10.0.0.1:80'', sv_left = 0, sv_weight = 0\<rparr>],
        server_map = [''10.0.0.1:80'' \<mapsto> 0]\<rparr>,
      lb_map = [''10.0.0.1:80'' \<mapsto> 1],
      lb_shared = \<lparr>wheap = (\<lambda>_. new_weight 0 5000), lheap = (\<lambda>_. 0), next_ptr = 1, total_weight = 5000\<rparr>\<rparr>"

definition demo_client :: client_stub where
  "demo_client = \<lparr>cl_actions = Map.empty, cl_lbs = [''math'' \<mapsto> demo_server_lb]\<rparr>"

definition demo_out :: select_out where
  "demo_out = \<lparr>so_ptr = None, so_node = ''10.0.0.1:80'', so_need_feedback = True\<rparr>"

lemma demo_select: "wr_select_server (\<lambda>_ _. 5) select_out_init demo_server_lb = Inr (0, demo_out)"
  by (simp add: wr_select_server_def demo_server_lb_def getRand_def UnsafeRead_def dbd_new_def Let_def
      wr_select_loop.simps weight_of_def volatile_value_def new_weight_def in64_def select_out_init_def demo_out_def)

lemma demo_feedback:
  "\<exists>lb'. wr_Feedback 5 \<lparr>ci_begin_time_us = 10, ci_node = so_node demo_out, ci_error_code = e\<rparr> demo_server_lb = Inr lb'"
  by (simp add: wr_Feedback_def demo_server_lb_def demo_out_def UnsafeRead_def dbd_new_def Let_def
      wr_Update_def weight_of_def new_weight_def disabled_def in64_def)

lemma demo_call:
  "find_balancer zk junk now ''math'' ''twice'' demo_client z = Inr (demo_client, z)"
  "cl_lbs demo_client ''math'' = Some demo_server_lb"
  by (simp_all add: find_balancer_def demo_client_def)

lemma demo_address: "addr_str (Some ''10.0.0.1'') 80 = ''10.0.0.1:80''"
  by code_simp

definition demo_net :: "string list \<Rightarrow> net_io" where
  "demo_net replies = \<lparr>nio_fd = 6, nio_connect = [Connected], nio_sends = [21], nio_reads = map Got replies,
     nio_shutdown = 0\<rparr>"

lemma demo_request: "request_of demo_codec ''math'' ''twice'' ''abc'' = frame ''math/twice/iii'' ''abc''"
  by (subst request_of_frame) (simp_all add: demo_codec_simps(2) [unfolded numeral_3_eq_3])

lemma rpc_roundtrip_witness:
  "\<exists>r cl'' k'. call list_zoo (\<lambda>_. '''') demo_codec (\<lambda>_ _. 5) 10 5 (demo_net [frame ''Ssuccess/iiiiii'' ''abcabc''])
      ''math'' ''twice'' ''abc'' response_header_new demo_client [] (\<lambda>_. fresh_fd True) =
    Inr (Some (r, cl'', [], k')) \<and> cr_response r = ''abcabc''"
proof -
  obtain lb' where f: "(if so_need_feedback demo_out
      then wr_Feedback 5 \<lparr>ci_begin_time_us = 10, ci_node = so_node demo_out,
             ci_error_code = error_val (rr_status response_header_new)\<rparr> demo_server_lb
      else Inr demo_server_lb) = Inr lb'"
    using demo_feedback by (auto simp: demo_out_def)
  have a: "answer demo_stub ''math'' ''twice'' ''abc'' 0 =
      (\<lparr>rr_status = SUCCESS, rr_message = ''success'', rr_args_size = 6\<rparr>, ''abcabc'', 1)"
    by (simp add: answer_def s32_def)
  have o: "on_connection demo_codec demo_stub [request_of demo_codec ''math'' ''twice'' ''abc''] 0 [] =
      Inr ([frame ''Ssuccess/iiiiii'' ''abcabc''], 1, False)"
    using process_request_answers_witness by (simp add: demo_request frame_def u32_bytes_def)
  show ?thesis
    using rpc_roundtrip [of demo_codec "''math''" "''twice''" "''abc''" demo_stub 0,
        OF _ _ _ a _ _ demo_call demo_select _ _ _ _ f _ _ o,
        where io = "demo_net [frame ''Ssuccess/iiiiii'' ''abcabc'']" and ip = "''10.0.0.1''" and port = 80
          and zk = list_zoo and junk = "\<lambda>_. ''''" and z = "[]" and k = "\<lambda>_. fresh_fd True"]
    by (force simp: demo_address demo_out_def demo_net_def demo_request frame_def
        demo_codec_simps(1,2) [unfolded numeral_3_eq_3])
qed

lemma lost_response_is_success_witness:
  "\<exists>r cl'' k'. call list_zoo (\<lambda>_. '''') (demo_codec\<lparr>cd_rparse := \<lambda>_. response_header_new\<rparr>) (\<lambda>_ _. 5) 10 5 (demo_net [''''])
      ''math'' ''twice'' ''abc'' response_header_new demo_client [] (\<lambda>_. fresh_fd True) =
    Inr (Some (r, cl'', [], k')) \<and> rr_status (cr_header r) = SUCCESS"
proof -
  let ?cd = "demo_codec\<lparr>cd_rparse := \<lambda>_. response_header_new\<rparr>"
  obtain lb' where f: "(if so_need_feedback demo_out
      then wr_Feedback 5 \<lparr>ci_begin_time_us = 10, ci_node = so_node demo_out,
             ci_error_code = error_val (rr_status response_header_new)\<rparr> demo_server_lb
      else Inr demo_server_lb) = Inr lb'"
    using demo_feedback by (auto simp: demo_out_def)
  have p: "addr_parts (so_node demo_out) = Inr (Some (''10.0.0.1'', 80))"
    using addr_parts_addr_str [of "''10.0.0.1''" 80] by (simp add: demo_address demo_out_def)
  have "request_of ?cd ''math'' ''twice'' ''abc'' = frame ''math/twice/iii'' ''abc''"
    using demo_request by (simp add: request_of_def)
  then show ?thesis
    using lost_response_is_success [of ?cd, OF _ demo_call demo_select p f, where io = "demo_net ['''']"
        and args = "''abc''" and zk = list_zoo and junk = "\<lambda>_. ''''" and z = "[]" and k = "\<lambda>_. fresh_fd True"]
    by (force simp: demo_net_def frame_def)
qed

lemma address_roundtrip_witness: "addr_parts ''10.0.0.1:80'' = Inr (Some (''10.0.0.1'', 80))"
  using address_roundtrip [of "''10.0.0.1''" 80] by (simp add: demo_address)

lemma other_methods_use_first_servers_witness:
  "\<exists>cl' z' lb. find_balancer list_zoo (\<lambda>_. replicate 64 CHR 0x00) 0 ''a_b'' ''c'' client_stub_new demo_tree = Inr (cl', z') \<and>
    find_balancer list_zoo (\<lambda>_. replicate 64 CHR 0x00) 1 ''a_b'' ''d'' cl' z' = Inr (cl', z') \<and>
    cl_lbs cl' ''a_b'' = Some lb \<and> lb_members lb = {''h:1''}"
  using other_methods_use_first_servers [of list_zoo map_of "\<lambda>_. replicate 64 CHR 0x00" "''a_b''" "''c''" demo_tree
      client_stub_new 0 1 "''d''"] list_zoo_tree demo_no_data
  by (simp add: client_stub_new_def)

end
