(* ===== verification/Wire.thy ===== *)
theory Wire
  imports Prelude
begin

text \<open>
  The functions of the Protocol Buffers library that the generated classes call, which are not
  part of the repository: the record \<open>wire\<close> holds them and the locale \<open>wire_format\<close> what their
  documentation says. Bytes are a string. The encoding of the documentation, in base 128 with
  the lowest digit first, is an instance (\<open>base128\<close>).
\<close>

section \<open>The library\<close>

record wire =
  w_field :: "nat \<Rightarrow> nat"                        \<comment> \<open>\<open>GetTagFieldNumber\<close>\<close>
  w_end_group :: "nat \<Rightarrow> bool"                   \<comment> \<open>\<open>GetTagWireType(tag) == WIRETYPE_END_GROUP\<close>\<close>
  w_read_tag :: "string \<Rightarrow> (nat \<times> bool) \<times> string"  \<comment> \<open>\<open>ReadTagWithCutoffNoLastTag(127)\<close>, the rest\<close>
  w_read_string :: "string \<Rightarrow> string \<Rightarrow> string \<times> string option"
     \<comment> \<open>from the old text of the field: the text after the call, and the rest of the input or a failure\<close>
  w_read_uint32 :: "string \<Rightarrow> (nat \<times> string) option"
  w_read_int32 :: "string \<Rightarrow> (int \<times> string) option"
  w_read_enum :: "string \<Rightarrow> (int \<times> string) option"
  w_skip :: "nat \<Rightarrow> string \<Rightarrow> string option"
  w_utf8 :: "string \<Rightarrow> bool"                     \<comment> \<open>\<open>VerifyUtf8String\<close>\<close>
  w_string :: "nat \<Rightarrow> string \<Rightarrow> string"           \<comment> \<open>the bytes of \<open>WriteStringToArray\<close>\<close>
  w_uint32 :: "nat \<Rightarrow> nat \<Rightarrow> string"
  w_int32 :: "nat \<Rightarrow> int \<Rightarrow> string"
  w_enum :: "nat \<Rightarrow> int \<Rightarrow> string"
  w_string_size :: "string \<Rightarrow> nat"
  w_uint32_size :: "nat \<Rightarrow> nat"
  w_int32_size :: "int \<Rightarrow> nat"
  w_enum_size :: "int \<Rightarrow> nat"

section \<open>What the library documents\<close>

text \<open>
  The field number and the wire type are the upper bits and the lower three bits of a tag; at the
  end of the input no tag is read; reading consumes input; what was written under a field number
  below 16, whose tag takes one byte, is read back; the size functions count the bytes behind the
  tag; ASCII text is valid UTF-8.
\<close>

locale wire_format =
  fixes W :: wire
  assumes field: "w_field W tag = tag div 8"
    and end_group: "w_end_group W tag \<longleftrightarrow> tag mod 8 = 4"
    and tag_at_end: "w_read_tag W '''' = ((0, False), '''')"
    and tag_consumes: "w_read_tag W s = ((tag, ok), r) \<Longrightarrow> tag \<noteq> 0 \<Longrightarrow> length r < length s"
    and zero_tag: "w_read_tag W s = ((0, ok), r) \<Longrightarrow> \<not> ok"
    and string_consumes: "w_read_string W old s = (x, Some r) \<Longrightarrow> length r \<le> length s"
    and uint32_consumes: "w_read_uint32 W s = Some (n, r) \<Longrightarrow> length r \<le> length s"
    and int32_consumes: "w_read_int32 W s = Some (i, r) \<Longrightarrow> length r \<le> length s"
    and enum_consumes: "w_read_enum W s = Some (i, r) \<Longrightarrow> length r \<le> length s"
    and skip_consumes: "w_skip W tag s = Some r \<Longrightarrow> length r \<le> length s"
    and string_written: "\<lbrakk>1 \<le> f; f < 16; length x < 2 ^ 31\<rbrakk> \<Longrightarrow>
      \<exists>r. w_read_tag W (w_string W f x @ s) = ((8 * f + 2, True), r) \<and> w_read_string W old r = (x, Some s)"
    and uint32_written: "\<lbrakk>1 \<le> f; f < 16; n < 2 ^ 32\<rbrakk> \<Longrightarrow>
      \<exists>r. w_read_tag W (w_uint32 W f n @ s) = ((8 * f, True), r) \<and> w_read_uint32 W r = Some (n, s)"
    and int32_written: "\<lbrakk>1 \<le> f; f < 16; - (2 ^ 31) \<le> i; i < 2 ^ 31\<rbrakk> \<Longrightarrow>
      \<exists>r. w_read_tag W (w_int32 W f i @ s) = ((8 * f, True), r) \<and> w_read_int32 W r = Some (i, s)"
    and enum_written: "\<lbrakk>1 \<le> f; f < 16; - (2 ^ 31) \<le> i; i < 2 ^ 31\<rbrakk> \<Longrightarrow>
      \<exists>r. w_read_tag W (w_enum W f i @ s) = ((8 * f, True), r) \<and> w_read_enum W r = Some (i, s)"
    and string_size: "1 \<le> f \<Longrightarrow> f < 16 \<Longrightarrow> length (w_string W f x) = 1 + w_string_size W x"
    and uint32_size: "1 \<le> f \<Longrightarrow> f < 16 \<Longrightarrow> length (w_uint32 W f n) = 1 + w_uint32_size W n"
    and int32_size: "1 \<le> f \<Longrightarrow> f < 16 \<Longrightarrow> length (w_int32 W f i) = 1 + w_int32_size W i"
    and enum_size: "1 \<le> f \<Longrightarrow> f < 16 \<Longrightarrow> length (w_enum W f i) = 1 + w_enum_size W i"
    and ascii: "\<forall>c \<in> set x. (of_char c :: nat) < 128 \<Longrightarrow> w_utf8 W x"

section \<open>The documented encoding\<close>

text \<open>A number in base 128; every byte but the last has its highest bit set.\<close>

fun varint :: "nat \<Rightarrow> string" where
  "varint n = (if n < 128 then [char_of n] else char_of (128 + n mod 128) # varint (n div 128))"

declare varint.simps [simp del]

text \<open>At most \<open>k\<close> bytes are read.\<close>

fun read_varint :: "nat \<Rightarrow> string \<Rightarrow> (nat \<times> string) option" where
  "read_varint 0 s = None"
| "read_varint (Suc k) [] = None"
| "read_varint (Suc k) (c # cs) =
     (if (of_char c :: nat) < 128 then Some (of_char c, cs)
      else case read_varint k cs of
             None \<Rightarrow> None
           | Some (n, r) \<Rightarrow> Some (of_char c - 128 + 128 * n, r))"

text \<open>\<open>utf8_ok k s\<close>: \<open>k\<close> continuation bytes are due.\<close>

fun utf8_ok :: "nat \<Rightarrow> string \<Rightarrow> bool" where
  "utf8_ok k [] \<longleftrightarrow> k = 0"
| "utf8_ok (Suc k) (c # cs) \<longleftrightarrow> (128::nat) \<le> of_char c \<and> (of_char c :: nat) < 192 \<and> utf8_ok k cs"
| "utf8_ok 0 (c # cs) \<longleftrightarrow>
     (let b = of_char c :: nat
      in if b < 128 then utf8_ok 0 cs
         else if 194 \<le> b \<and> b < 224 then utf8_ok 1 cs
         else if 224 \<le> b \<and> b < 240 then utf8_ok 2 cs
         else if 240 \<le> b \<and> b < 245 then utf8_ok 3 cs
         else False)"

definition b128_read_tag :: "string \<Rightarrow> (nat \<times> bool) \<times> string" where
  "b128_read_tag s =
     (case read_varint 5 s of None \<Rightarrow> ((0, False), s) | Some (t, r) \<Rightarrow> ((t, 0 < t \<and> t \<le> 127), r))"

definition b128_read_string :: "string \<Rightarrow> string \<Rightarrow> string \<times> string option" where
  "b128_read_string old s =
     (case read_varint 5 s of
        None \<Rightarrow> (old, None)
      | Some (n, r) \<Rightarrow> if n \<le> length r then (take n r, Some (drop n r)) else (old, None))"

definition b128_read_uint32 :: "string \<Rightarrow> (nat \<times> string) option" where
  "b128_read_uint32 s = map_option (\<lambda>(n, r). (u32 n, r)) (read_varint 10 s)"

definition b128_read_int32 :: "string \<Rightarrow> (int \<times> string) option" where
  "b128_read_int32 s = map_option (\<lambda>(n, r). (s32 (int n), r)) (read_varint 10 s)"

text \<open>Fields by their wire type; groups, which are deprecated, are refused.\<close>

definition b128_skip :: "nat \<Rightarrow> string \<Rightarrow> string option" where
  "b128_skip tag s =
     (if tag mod 8 = 0 then map_option snd (read_varint 10 s)
      else if tag mod 8 = 1 then if 8 \<le> length s then Some (drop 8 s) else None
      else if tag mod 8 = 2 then snd (b128_read_string [] s)
      else if tag mod 8 = 5 then if 4 \<le> length s then Some (drop 4 s) else None
      else None)"

text \<open>A negative \<open>int32\<close> is written as the 64-bit number it is congruent to.\<close>

definition b128_int :: "int \<Rightarrow> string" where
  "b128_int i = varint (nat (u64 i))"

definition base128 :: wire where
  "base128 =
     \<lparr>w_field = (\<lambda>tag. tag div 8), w_end_group = (\<lambda>tag. tag mod 8 = 4),
      w_read_tag = b128_read_tag, w_read_string = b128_read_string,
      w_read_uint32 = b128_read_uint32, w_read_int32 = b128_read_int32, w_read_enum = b128_read_int32,
      w_skip = b128_skip, w_utf8 = utf8_ok 0,
      w_string = (\<lambda>f x. varint (8 * f + 2) @ varint (length x) @ x),
      w_uint32 = (\<lambda>f n. varint (8 * f) @ varint n),
      w_int32 = (\<lambda>f i. varint (8 * f) @ b128_int i), w_enum = (\<lambda>f i. varint (8 * f) @ b128_int i),
      w_string_size = (\<lambda>x. length (varint (length x) @ x)), w_uint32_size = (\<lambda>n. length (varint n)),
      w_int32_size = (\<lambda>i. length (b128_int i)), w_enum_size = (\<lambda>i. length (b128_int i))\<rparr>"

lemma read_varint_varint: "n < 128 ^ k \<Longrightarrow> 0 < k \<Longrightarrow> read_varint k (varint n @ s) = Some (n, s)"
proof (induction k arbitrary: n)
  case (Suc k)
  show ?case
  proof (cases "n < 128")
    case True
    then show ?thesis by (subst varint.simps) simp
  next
    case False
    then have "0 < k" using Suc.prems(1) by (cases k) auto
    moreover have "n div 128 < 128 ^ k" using Suc.prems(1) by (simp add: less_mult_imp_div_less)
    ultimately have "read_varint k (varint (n div 128) @ s) = Some (n div 128, s)" by (rule Suc.IH [rotated])
    moreover have "of_char (char_of (128 + n mod 128) :: char) = (128 + n mod 128 :: nat)" by simp
    ultimately show ?thesis using False by (subst varint.simps) (simp del: of_char_of)
  qed
qed simp

lemma read_varint_consumes: "read_varint k s = Some (n, r) \<Longrightarrow> length r < length s"
  by (induction k s arbitrary: n r rule: read_varint.induct) (fastforce split: if_splits option.splits)+

lemma varint_one: "n < 128 \<Longrightarrow> varint n = [char_of n]"
  by (subst varint.simps) simp

lemma b128_read_tag_varint:
  "1 \<le> t \<Longrightarrow> t < 128 \<Longrightarrow> b128_read_tag (varint t @ s) = ((t, True), s)"
  by (simp add: b128_read_tag_def read_varint_varint)

lemma s32_u64: "- (2 ^ 31) \<le> i \<Longrightarrow> i < 2 ^ 31 \<Longrightarrow> s32 (u64 i) = i"
  using mod_add_left_eq [of "i mod 2 ^ 64" "2 ^ 32" "2 ^ 31"] mod_add_left_eq [of i "2 ^ 32" "2 ^ 31"]
    mod_mod_cancel [of "2 ^ 32" "2 ^ 64" i] s32_id [of i]
  by (simp add: s32_def u64_def)

lemma b128_read_int32_int:
  assumes "- (2 ^ 31) \<le> i" "i < 2 ^ 31"
  shows "b128_read_int32 (b128_int i @ s) = Some (i, s)"
proof -
  have u: "0 \<le> u64 i" "u64 i < 2 ^ 64" by (simp_all add: u64_def)
  then have "nat (u64 i) < 128 ^ 10" by (simp add: nat_less_iff)
  then have "read_varint 10 (b128_int i @ s) = Some (nat (u64 i), s)"
    unfolding b128_int_def by (rule read_varint_varint) simp
  then show ?thesis using u s32_u64 [OF assms] by (simp add: b128_read_int32_def)
qed

lemma utf8_ascii: "\<forall>c \<in> set x. (of_char c :: nat) < 128 \<Longrightarrow> utf8_ok 0 x"
  by (induction x) (auto simp: Let_def)

interpretation b128: wire_format base128
proof
  fix f :: nat and x s old :: string
  assume "1 \<le> f" "f < 16" "length x < 2 ^ 31"
  then show "\<exists>r. w_read_tag base128 (w_string base128 f x @ s) = ((8 * f + 2, True), r) \<and>
      w_read_string base128 old r = (x, Some s)"
    by (simp add: base128_def b128_read_tag_varint b128_read_string_def read_varint_varint)
next
  fix f n :: nat and s :: string
  assume "1 \<le> f" "f < 16" "n < 2 ^ 32"
  then show "\<exists>r. w_read_tag base128 (w_uint32 base128 f n @ s) = ((8 * f, True), r) \<and>
      w_read_uint32 base128 r = Some (n, s)"
    by (simp add: base128_def b128_read_tag_varint b128_read_uint32_def read_varint_varint u32_id)
next
  fix f :: nat and i :: int and s :: string
  assume "1 \<le> f" "f < 16" "- (2 ^ 31) \<le> i" "i < 2 ^ 31"
  then show "\<exists>r. w_read_tag base128 (w_int32 base128 f i @ s) = ((8 * f, True), r) \<and>
      w_read_int32 base128 r = Some (i, s)"
    "\<exists>r. w_read_tag base128 (w_enum base128 f i @ s) = ((8 * f, True), r) \<and>
      w_read_enum base128 r = Some (i, s)"
    by (simp_all add: base128_def b128_read_tag_varint b128_read_int32_int)
qed (auto simp: base128_def b128_read_tag_def b128_read_string_def b128_read_uint32_def b128_read_int32_def
    b128_skip_def varint_one utf8_ascii dest!: read_varint_consumes split: option.splits if_splits)

end
