(* ===== verification/Messages.thy ===== *)
theory Messages
  imports RpcServer Wire
begin

text \<open>
  The generated classes of the messages: \<open>RpcHeader\<close>
  (\<open>src/rpc_proto/rpcheader.pb.cc\<close>), \<open>RpcResponseHeader\<close> (\<open>src/rpc_proto/rpc_response_header.pb.cc\<close>)
  and \<open>IntMessage\<close> (\<open>src/rpc_proto/int_message.pb.cc\<close>): which fields are written, in which order
  and under which tag, and the loop that reads them.

  What they call of the library is a \<open>wire\<close>. The cached size, the arena and unknown fields, which
  the classes of the third version of the language drop, are not modelled.
\<close>

section \<open>The parse loop\<close>

text \<open>
  How an iteration of the loop ends: with the rest of the input, at \<open>success\<close> or at \<open>failure\<close>.
\<close>

datatype parse_end = More string | Success | Failure

definition handle_unusual :: "wire \<Rightarrow> nat \<Rightarrow> 'm \<Rightarrow> string \<Rightarrow> 'm \<times> parse_end" where
  "handle_unusual W tag m s =
     (if tag = 0 \<or> w_end_group W tag then (m, Success)
      else case w_skip W tag s of None \<Rightarrow> (m, Failure) | Some r \<Rightarrow> (m, More r))"

text \<open>A string field keeps what was read even when it is not valid UTF-8.\<close>

definition string_field ::
  "wire \<Rightarrow> string \<Rightarrow> (string \<Rightarrow> 'm) \<Rightarrow> string \<Rightarrow> 'm \<times> parse_end" where
  "string_field W old set_field s =
     (case w_read_string W old s of
        (x, None) \<Rightarrow> (set_field x, Failure)
      | (x, Some r) \<Rightarrow> (set_field x, if w_utf8 W x then More r else Failure))"

definition number_field ::
  "(string \<Rightarrow> ('v \<times> string) option) \<Rightarrow> 'm \<Rightarrow> ('v \<Rightarrow> 'm) \<Rightarrow> string \<Rightarrow> 'm \<times> parse_end" where
  "number_field read m set_field s =
     (case read s of None \<Rightarrow> (m, Failure) | Some (x, r) \<Rightarrow> (set_field x, More r))"

text \<open>\<open>switch\<close> is the switch of a message on the tag, and \<open>None\<close> a jump to \<open>handle_unusual\<close>.\<close>

definition merge_step ::
  "wire \<Rightarrow> (nat \<Rightarrow> 'm \<Rightarrow> string \<Rightarrow> ('m \<times> parse_end) option) \<Rightarrow> 'm \<Rightarrow> string \<Rightarrow> 'm \<times> parse_end" where
  "merge_step W switch m s =
     (let ((tag, ok), r) = w_read_tag W s
      in if \<not> ok then handle_unusual W tag m r
         else case switch tag m r of None \<Rightarrow> handle_unusual W tag m r | Some x \<Rightarrow> x)"

partial_function (option) merge_loop ::
  "wire \<Rightarrow> (nat \<Rightarrow> 'm \<Rightarrow> string \<Rightarrow> ('m \<times> parse_end) option) \<Rightarrow> 'm \<Rightarrow> string \<Rightarrow> (bool \<times> 'm) option" where
  "merge_loop W switch m s =
     (case merge_step W switch m s of
        (m, More r) \<Rightarrow> merge_loop W switch m r
      | (m, Success) \<Rightarrow> Some (True, m)
      | (m, Failure) \<Rightarrow> Some (False, m))"

section \<open>\<open>RpcHeader\<close>\<close>

definition header_new :: rpc_header where
  "header_new = \<lparr>rh_service_name = '''', rh_method_name = '''', rh_args_size = 0\<rparr>"

definition header_Clear :: "rpc_header \<Rightarrow> rpc_header" where
  "header_Clear h = h\<lparr>rh_service_name := '''', rh_method_name := '''', rh_args_size := 0\<rparr>"

definition header_switch :: "wire \<Rightarrow> nat \<Rightarrow> rpc_header \<Rightarrow> string \<Rightarrow> (rpc_header \<times> parse_end) option" where
  "header_switch W tag h s =
     (if w_field W tag = 1 then
        if tag mod 256 = 10
        then Some (string_field W (rh_service_name h) (\<lambda>x. h\<lparr>rh_service_name := x\<rparr>) s) else None
      else if w_field W tag = 2 then
        if tag mod 256 = 18
        then Some (string_field W (rh_method_name h) (\<lambda>x. h\<lparr>rh_method_name := x\<rparr>) s) else None
      else if w_field W tag = 3 then
        if tag mod 256 = 24
        then Some (number_field (w_read_uint32 W) h (\<lambda>n. h\<lparr>rh_args_size := n\<rparr>) s) else None
      else None)"

definition header_MergePartial :: "wire \<Rightarrow> rpc_header \<Rightarrow> string \<Rightarrow> (bool \<times> rpc_header) option" where
  "header_MergePartial W = merge_loop W (header_switch W)"

definition header_Serialize :: "wire \<Rightarrow> rpc_header \<Rightarrow> string" where
  "header_Serialize W h =
     (if rh_service_name h \<noteq> '''' then w_string W 1 (rh_service_name h) else '''') @
     (if rh_method_name h \<noteq> '''' then w_string W 2 (rh_method_name h) else '''') @
     (if rh_args_size h \<noteq> 0 then w_uint32 W 3 (rh_args_size h) else '''')"

definition header_ByteSize :: "wire \<Rightarrow> rpc_header \<Rightarrow> nat" where
  "header_ByteSize W h =
     (if rh_service_name h \<noteq> '''' then 1 + w_string_size W (rh_service_name h) else 0) +
     (if rh_method_name h \<noteq> '''' then 1 + w_string_size W (rh_method_name h) else 0) +
     (if rh_args_size h \<noteq> 0 then 1 + w_uint32_size W (rh_args_size h) else 0)"

definition header_MergeFrom :: "rpc_header \<Rightarrow> rpc_header \<Rightarrow> rpc_header" where
  "header_MergeFrom from h =
     (let h = (if rh_service_name from \<noteq> '''' then h\<lparr>rh_service_name := rh_service_name from\<rparr> else h);
          h = (if rh_method_name from \<noteq> '''' then h\<lparr>rh_method_name := rh_method_name from\<rparr> else h)
      in if rh_args_size from \<noteq> 0 then h\<lparr>rh_args_size := rh_args_size from\<rparr> else h)"

definition header_CopyFrom :: "rpc_header \<Rightarrow> rpc_header \<Rightarrow> rpc_header" where
  "header_CopyFrom from h = header_MergeFrom from (header_Clear h)"

definition header_Swap :: "rpc_header \<times> rpc_header \<Rightarrow> rpc_header \<times> rpc_header" where
  "header_Swap p =
     (let (h, other) = p
      in (h\<lparr>rh_service_name := rh_service_name other, rh_method_name := rh_method_name other,
            rh_args_size := rh_args_size other\<rparr>,
          other\<lparr>rh_service_name := rh_service_name h, rh_method_name := rh_method_name h,
            rh_args_size := rh_args_size h\<rparr>))"

section \<open>\<open>RpcResponseHeader\<close>\<close>

definition error_code_of :: "int \<Rightarrow> error_code" where
  "error_code_of n =
     (if n = 0 then SUCCESS else if n = 1 then UNKNOWN_ERROR else if n = 2 then INVALID_REQUEST
      else if n = 3 then AUTH_FAILED else if n = 4 then PERMISSION_DENIED else Unnamed n)"

definition response_Clear :: "rpc_response_header \<Rightarrow> rpc_response_header" where
  "response_Clear h = h\<lparr>rr_message := '''', rr_status := SUCCESS, rr_args_size := 0\<rparr>"

definition response_switch ::
  "wire \<Rightarrow> nat \<Rightarrow> rpc_response_header \<Rightarrow> string \<Rightarrow> (rpc_response_header \<times> parse_end) option" where
  "response_switch W tag h s =
     (if w_field W tag = 1 then
        if tag mod 256 = 8
        then Some (number_field (w_read_enum W) h (\<lambda>n. h\<lparr>rr_status := error_code_of n\<rparr>) s) else None
      else if w_field W tag = 2 then
        if tag mod 256 = 18
        then Some (string_field W (rr_message h) (\<lambda>x. h\<lparr>rr_message := x\<rparr>) s) else None
      else if w_field W tag = 3 then
        if tag mod 256 = 24
        then Some (number_field (w_read_int32 W) h (\<lambda>n. h\<lparr>rr_args_size := n\<rparr>) s) else None
      else None)"

definition response_MergePartial ::
  "wire \<Rightarrow> rpc_response_header \<Rightarrow> string \<Rightarrow> (bool \<times> rpc_response_header) option" where
  "response_MergePartial W = merge_loop W (response_switch W)"

definition response_Serialize :: "wire \<Rightarrow> rpc_response_header \<Rightarrow> string" where
  "response_Serialize W h =
     (if error_val (rr_status h) \<noteq> 0 then w_enum W 1 (error_val (rr_status h)) else '''') @
     (if rr_message h \<noteq> '''' then w_string W 2 (rr_message h) else '''') @
     (if rr_args_size h \<noteq> 0 then w_int32 W 3 (rr_args_size h) else '''')"

definition response_ByteSize :: "wire \<Rightarrow> rpc_response_header \<Rightarrow> nat" where
  "response_ByteSize W h =
     (if rr_message h \<noteq> '''' then 1 + w_string_size W (rr_message h) else 0) +
     (if error_val (rr_status h) \<noteq> 0 then 1 + w_enum_size W (error_val (rr_status h)) else 0) +
     (if rr_args_size h \<noteq> 0 then 1 + w_int32_size W (rr_args_size h) else 0)"

definition response_MergeFrom :: "rpc_response_header \<Rightarrow> rpc_response_header \<Rightarrow> rpc_response_header" where
  "response_MergeFrom from h =
     (let h = (if rr_message from \<noteq> '''' then h\<lparr>rr_message := rr_message from\<rparr> else h);
          h = (if error_val (rr_status from) \<noteq> 0 then h\<lparr>rr_status := rr_status from\<rparr> else h)
      in if rr_args_size from \<noteq> 0 then h\<lparr>rr_args_size := rr_args_size from\<rparr> else h)"

definition response_CopyFrom :: "rpc_response_header \<Rightarrow> rpc_response_header \<Rightarrow> rpc_response_header" where
  "response_CopyFrom from h = response_MergeFrom from (response_Clear h)"

section \<open>\<open>IntMessage\<close>\<close>

record int_message =
  im_value :: int

definition int_message_new :: int_message where
  "int_message_new = \<lparr>im_value = 0\<rparr>"

definition int_message_Clear :: "int_message \<Rightarrow> int_message" where
  "int_message_Clear m = m\<lparr>im_value := 0\<rparr>"

definition int_message_switch :: "wire \<Rightarrow> nat \<Rightarrow> int_message \<Rightarrow> string \<Rightarrow> (int_message \<times> parse_end) option" where
  "int_message_switch W tag m s =
     (if w_field W tag = 1 then
        if tag mod 256 = 8 then Some (number_field (w_read_int32 W) m (\<lambda>n. m\<lparr>im_value := n\<rparr>) s) else None
      else None)"

definition int_message_MergePartial :: "wire \<Rightarrow> int_message \<Rightarrow> string \<Rightarrow> (bool \<times> int_message) option" where
  "int_message_MergePartial W = merge_loop W (int_message_switch W)"

definition int_message_Serialize :: "wire \<Rightarrow> int_message \<Rightarrow> string" where
  "int_message_Serialize W m = (if im_value m \<noteq> 0 then w_int32 W 1 (im_value m) else '''')"

definition int_message_ByteSize :: "wire \<Rightarrow> int_message \<Rightarrow> nat" where
  "int_message_ByteSize W m = (if im_value m \<noteq> 0 then 1 + w_int32_size W (im_value m) else 0)"

definition int_message_MergeFrom :: "int_message \<Rightarrow> int_message \<Rightarrow> int_message" where
  "int_message_MergeFrom from m = (if im_value from \<noteq> 0 then m\<lparr>im_value := im_value from\<rparr> else m)"

section \<open>The codec of the stubs\<close>

text \<open>
  \<open>SerializeToString\<close> of the library makes a string of the bytes of the message,
  \<open>ParseFromString\<close> and \<open>ParseFromArray\<close> clear the message and merge the bytes. The stubs look
  at the message whatever the parse returns. With a library as documented the parse ends
  (\<open>wire_format.header_ends\<close>, \<open>wire_format.response_ends\<close>), so \<open>None\<close> does not occur.
\<close>

definition pb_codec :: "wire \<Rightarrow> codec" where
  "pb_codec W =
     \<lparr>cd_hser = header_Serialize W,
      cd_hparse = (\<lambda>s. snd (the (header_MergePartial W header_new s))),
      cd_rser = response_Serialize W,
      cd_rparse = (\<lambda>s. snd (the (response_MergePartial W response_header_new s)))\<rparr>"

section \<open>Lemmas on the loop\<close>

lemma merge_loop_More:
  "merge_step W switch m s = (m', More r) \<Longrightarrow> merge_loop W switch m s = merge_loop W switch m' r"
  by (subst merge_loop.simps) simp

lemma merge_loop_Failure:
  "merge_step W switch m s = (m', Failure) \<Longrightarrow> merge_loop W switch m s = Some (False, m')"
  by (subst merge_loop.simps) simp

context wire_format
begin

lemma handle_unusual_consumes: "handle_unusual W tag m s = (m', More r) \<Longrightarrow> length r \<le> length s \<and> tag \<noteq> 0"
  using skip_consumes by (auto simp: handle_unusual_def split: if_splits option.splits)

lemma string_field_consumes: "string_field W old f s = (m', More r) \<Longrightarrow> length r \<le> length s"
  using string_consumes by (auto simp: string_field_def split: prod.splits option.splits if_splits)

lemma number_field_consumes:
  "number_field (w_read_uint32 W) m f s = (m', More r) \<Longrightarrow> length r \<le> length s"
  "number_field (w_read_int32 W) m g s = (m', More r) \<Longrightarrow> length r \<le> length s"
  "number_field (w_read_enum W) m g s = (m', More r) \<Longrightarrow> length r \<le> length s"
  using uint32_consumes int32_consumes enum_consumes
  by (auto simp: number_field_def split: option.splits)

lemma merge_step_consumes:
  assumes "\<And>tag m s m' r. switch tag m s = Some (m', More r) \<Longrightarrow> length r \<le> length s"
    and "merge_step W switch m s = (m', More r)"
  shows "length r < length s"
proof -
  obtain tag ok r0 where t: "w_read_tag W s = ((tag, ok), r0)" by (metis surj_pair)
  have u: "length r < length s" if "handle_unusual W tag m r0 = (m', More r)"
    using handle_unusual_consumes [OF that] tag_consumes [OF t] by simp
  show ?thesis
  proof (cases "ok \<and> switch tag m r0 \<noteq> None")
    case True
    then have "length r \<le> length r0" "tag \<noteq> 0"
      using assms zero_tag [of s ok r0] t by (auto simp: merge_step_def intro: gr0I)
    then show ?thesis using tag_consumes [OF t] by simp
  next
    case False
    then show ?thesis using assms(2) u by (auto simp: merge_step_def t split: if_splits option.splits)
  qed
qed

text \<open>Every parse ends, on any input.\<close>

lemma merge_loop_ends:
  assumes "\<And>tag m s m' r. switch tag m s = Some (m', More r) \<Longrightarrow> length r \<le> length s"
  shows "merge_loop W switch m s \<noteq> None"
proof (induction "length s" arbitrary: m s rule: less_induct)
  case less
  obtain m' e where e: "merge_step W switch m s = (m', e)" by (metis surj_pair)
  show ?case
  proof (cases e)
    case (More r)
    have "length r < length s" by (rule merge_step_consumes [OF assms e [unfolded More]])
    from less [OF this, of m'] show ?thesis using merge_loop_More [OF e [unfolded More]] by simp
  qed (subst merge_loop.simps, simp add: e)+
qed

lemma merge_loop_end [simp]: "merge_loop W switch m '''' = Some (True, m)"
  by (subst merge_loop.simps) (simp add: merge_step_def tag_at_end handle_unusual_def)

text \<open>One written field in front of the input; \<open>switch\<close> is known for its tag.\<close>

lemma merge_string:
  assumes "1 \<le> f" "f < 16" "length x < 2 ^ 31"
    and "\<And>s. switch (8 * f + 2) m s = Some (string_field W old set_field s)"
  shows "merge_loop W switch m (w_string W f x @ s) =
    (if w_utf8 W x then merge_loop W switch (set_field x) s else Some (False, set_field x))"
proof -
  obtain r where "w_read_tag W (w_string W f x @ s) = ((8 * f + 2, True), r)" "w_read_string W old r = (x, Some s)"
    using string_written [OF assms(1-3)] by blast
  then have "merge_step W switch m (w_string W f x @ s) = (set_field x, if w_utf8 W x then More s else Failure)"
    using assms(4) [of r] by (simp add: merge_step_def string_field_def)
  then show ?thesis by (subst merge_loop.simps) simp
qed

lemma merge_uint32:
  assumes "1 \<le> f" "f < 16" "n < 2 ^ 32"
    and "\<And>s. switch (8 * f) m s = Some (number_field (w_read_uint32 W) m set_field s)"
  shows "merge_loop W switch m (w_uint32 W f n @ s) = merge_loop W switch (set_field n) s"
  using uint32_written [OF assms(1-3), of s] assms(4)
  by (intro merge_loop_More) (auto simp: merge_step_def number_field_def)

lemma merge_int32:
  assumes "1 \<le> f" "f < 16" "- (2 ^ 31) \<le> i" "i < 2 ^ 31"
    and "\<And>s. switch (8 * f) m s = Some (number_field (w_read_int32 W) m set_field s)"
  shows "merge_loop W switch m (w_int32 W f i @ s) = merge_loop W switch (set_field i) s"
  using int32_written [OF assms(1-4), of s] assms(5)
  by (intro merge_loop_More) (auto simp: merge_step_def number_field_def)

lemma merge_enum:
  assumes "1 \<le> f" "f < 16" "- (2 ^ 31) \<le> i" "i < 2 ^ 31"
    and "\<And>s. switch (8 * f) m s = Some (number_field (w_read_enum W) m set_field s)"
  shows "merge_loop W switch m (w_enum W f i @ s) = merge_loop W switch (set_field i) s"
  using enum_written [OF assms(1-4), of s] assms(5)
  by (intro merge_loop_More) (auto simp: merge_step_def number_field_def)

lemma header_switch_at:
  "header_switch W 10 h s = Some (string_field W (rh_service_name h) (\<lambda>x. h\<lparr>rh_service_name := x\<rparr>) s)"
  "header_switch W 18 h s = Some (string_field W (rh_method_name h) (\<lambda>x. h\<lparr>rh_method_name := x\<rparr>) s)"
  "header_switch W 24 h s = Some (number_field (w_read_uint32 W) h (\<lambda>n. h\<lparr>rh_args_size := n\<rparr>) s)"
  by (simp_all add: header_switch_def field)

lemma response_switch_at:
  "response_switch W 8 m s = Some (number_field (w_read_enum W) m (\<lambda>n. m\<lparr>rr_status := error_code_of n\<rparr>) s)"
  "response_switch W 18 m s = Some (string_field W (rr_message m) (\<lambda>x. m\<lparr>rr_message := x\<rparr>) s)"
  "response_switch W 24 m s = Some (number_field (w_read_int32 W) m (\<lambda>n. m\<lparr>rr_args_size := n\<rparr>) s)"
  by (simp_all add: response_switch_def field)

lemma header_ends: "header_MergePartial W h s \<noteq> None"
  unfolding header_MergePartial_def
  by (rule merge_loop_ends)
    (auto simp: header_switch_def split: if_splits dest: string_field_consumes number_field_consumes)

lemma response_ends: "response_MergePartial W m s \<noteq> None"
  unfolding response_MergePartial_def
  by (rule merge_loop_ends)
    (auto simp: response_switch_def split: if_splits dest: string_field_consumes number_field_consumes)

lemma int_message_ends: "int_message_MergePartial W m s \<noteq> None"
  unfolding int_message_MergePartial_def
  by (rule merge_loop_ends)
    (auto simp: int_message_switch_def split: if_splits dest: number_field_consumes)

end

definition header_ok :: "wire \<Rightarrow> rpc_header \<Rightarrow> bool" where
  "header_ok W h \<longleftrightarrow>
     w_utf8 W (rh_service_name h) \<and> length (rh_service_name h) < 2 ^ 31 \<and>
     w_utf8 W (rh_method_name h) \<and> length (rh_method_name h) < 2 ^ 31 \<and> rh_args_size h < 2 ^ 32"

definition response_ok :: "wire \<Rightarrow> rpc_response_header \<Rightarrow> bool" where
  "response_ok W m \<longleftrightarrow>
     w_utf8 W (rr_message m) \<and> length (rr_message m) < 2 ^ 31 \<and>
     - (2 ^ 31) \<le> rr_args_size m \<and> rr_args_size m < 2 ^ 31 \<and>
     error_code_of (error_val (rr_status m)) = rr_status m \<and>
     - (2 ^ 31) \<le> error_val (rr_status m) \<and> error_val (rr_status m) < 2 ^ 31"

context wire_format
begin

lemma header_merge_fields:
  "length x < 2 ^ 31 \<Longrightarrow> merge_loop W (header_switch W) h (w_string W 1 x @ s) =
    (if w_utf8 W x then merge_loop W (header_switch W) (h\<lparr>rh_service_name := x\<rparr>) s
     else Some (False, h\<lparr>rh_service_name := x\<rparr>))"
  "length x < 2 ^ 31 \<Longrightarrow> merge_loop W (header_switch W) h (w_string W 2 x @ s) =
    (if w_utf8 W x then merge_loop W (header_switch W) (h\<lparr>rh_method_name := x\<rparr>) s
     else Some (False, h\<lparr>rh_method_name := x\<rparr>))"
  "n < 2 ^ 32 \<Longrightarrow> merge_loop W (header_switch W) h (w_uint32 W 3 n @ s) =
    merge_loop W (header_switch W) (h\<lparr>rh_args_size := n\<rparr>) s"
  by (rule merge_string merge_uint32; simp add: header_switch_at)+

lemma response_merge_fields:
  "- (2 ^ 31) \<le> i \<Longrightarrow> i < 2 ^ 31 \<Longrightarrow> merge_loop W (response_switch W) m (w_enum W 1 i @ s) =
    merge_loop W (response_switch W) (m\<lparr>rr_status := error_code_of i\<rparr>) s"
  "length x < 2 ^ 31 \<Longrightarrow> merge_loop W (response_switch W) m (w_string W 2 x @ s) =
    (if w_utf8 W x then merge_loop W (response_switch W) (m\<lparr>rr_message := x\<rparr>) s
     else Some (False, m\<lparr>rr_message := x\<rparr>))"
  "- (2 ^ 31) \<le> i \<Longrightarrow> i < 2 ^ 31 \<Longrightarrow> merge_loop W (response_switch W) m (w_int32 W 3 i @ s) =
    merge_loop W (response_switch W) (m\<lparr>rr_args_size := i\<rparr>) s"
  by (rule merge_enum merge_string merge_int32; simp add: response_switch_at)+

lemma header_merge:
  "header_ok W h \<Longrightarrow> header_MergePartial W h0 (header_Serialize W h) = Some (True, header_MergeFrom h h0)"
  using header_merge_fields [where s = "''''"]
  by (simp del: One_nat_def add: header_MergePartial_def header_Serialize_def header_MergeFrom_def
      header_merge_fields header_ok_def Let_def)

lemma response_merge:
  "response_ok W m \<Longrightarrow> response_MergePartial W m0 (response_Serialize W m) = Some (True, response_MergeFrom m m0)"
  using response_merge_fields [where s = "''''"]
  by (simp del: One_nat_def add: response_MergePartial_def response_Serialize_def response_MergeFrom_def
      response_merge_fields response_ok_def Let_def)

lemma header_bytes: "length (header_Serialize W h) = header_ByteSize W h"
  by (simp add: header_Serialize_def header_ByteSize_def string_size uint32_size)

lemma response_bytes: "length (response_Serialize W m) = response_ByteSize W m"
  by (simp add: response_Serialize_def response_ByteSize_def string_size int32_size enum_size)

lemma int_message_merge:
  assumes "- (2 ^ 31) \<le> im_value m" "im_value m < 2 ^ 31"
  shows "int_message_MergePartial W m0 (int_message_Serialize W m) = Some (True, int_message_MergeFrom m m0)"
proof -
  have "merge_loop W (int_message_switch W) m0 (w_int32 W 1 (im_value m) @ s) =
      merge_loop W (int_message_switch W) (m0\<lparr>im_value := im_value m\<rparr>) s" for s
    using assms by (intro merge_int32) (simp_all add: int_message_switch_def field)
  from this [of "''''"] show ?thesis
    by (simp add: int_message_MergePartial_def int_message_Serialize_def int_message_MergeFrom_def)
qed

lemma int_message_bytes: "length (int_message_Serialize W m) = int_message_ByteSize W m"
  by (simp add: int_message_Serialize_def int_message_ByteSize_def int32_size)

text \<open>A name that is not valid UTF-8 ends the parse with what was read up to it.\<close>

lemma header_merge_bad_method:
  assumes "w_utf8 W (rh_service_name h)" "length (rh_service_name h) < 2 ^ 31"
    and "\<not> w_utf8 W (rh_method_name h)" "length (rh_method_name h) < 2 ^ 31"
  shows "header_MergePartial W header_new (header_Serialize W h) = Some (False, h\<lparr>rh_args_size := 0\<rparr>)"
proof -
  have "rh_method_name h \<noteq> ''''" using assms(3) ascii [of "''''"] by auto
  then show ?thesis
    using assms header_merge_fields(2) [where s = "''''"]
    by (simp del: One_nat_def add: header_MergePartial_def header_Serialize_def header_merge_fields header_new_def)
qed

end

lemma MergeFrom_new:
  "header_MergeFrom h header_new = h" "rr_status m = SUCCESS \<or> error_val (rr_status m) \<noteq> 0 \<Longrightarrow> response_MergeFrom m response_header_new = m"
  by (auto simp: header_MergeFrom_def header_new_def response_MergeFrom_def response_header_new_def Let_def)

lemma CopyFrom_eq: "header_CopyFrom h h0 = h"
  by (simp add: header_CopyFrom_def header_Clear_def header_MergeFrom_def Let_def)

lemma header_Swap_eq: "header_Swap (a, b) = (b, a)"
  by (simp add: header_Swap_def)

lemma pb_codec_reads:
  assumes "wire_format W" "header_ok W h"
  shows "cd_hparse (pb_codec W) (cd_hser (pb_codec W) h) = h"
  using wire_format.header_merge [OF assms] by (simp add: pb_codec_def MergeFrom_new)

lemma pb_codec_reads_response:
  assumes "wire_format W" "response_ok W m"
  shows "cd_rparse (pb_codec W) (cd_rser (pb_codec W) m) = m"
proof -
  have "rr_status m = SUCCESS \<or> error_val (rr_status m) \<noteq> 0"
    using assms(2) by (auto simp: response_ok_def error_code_of_def split: if_splits)
  then show ?thesis using wire_format.response_merge [OF assms] by (simp add: pb_codec_def MergeFrom_new)
qed

text \<open>
  C3: parsing the bytes of a message merges it into the one that is parsed into, as \<open>MergeFrom\<close>
  does; a cleared header and a cleared response header read back what was written, if their texts
  are valid UTF-8 and their numbers fit the type; and \<open>ByteSizeLong\<close> is the number of bytes.
\<close>

theorem messages_round_trip:
  assumes "wire_format W" "header_ok W h" "response_ok W m"
  shows "header_MergePartial W h0 (header_Serialize W h) = Some (True, header_MergeFrom h h0) \<and>
     response_MergePartial W m0 (response_Serialize W m) = Some (True, response_MergeFrom m m0) \<and>
     cd_hparse (pb_codec W) (cd_hser (pb_codec W) h) = h \<and>
     cd_rparse (pb_codec W) (cd_rser (pb_codec W) m) = m \<and>
     length (header_Serialize W h) = header_ByteSize W h \<and>
     length (response_Serialize W m) = response_ByteSize W m"
  using wire_format.header_merge [OF assms(1,2)] wire_format.response_merge [OF assms(1,3)]
    wire_format.header_bytes [OF assms(1)] wire_format.response_bytes [OF assms(1)]
    pb_codec_reads [OF assms(1,2)] pb_codec_reads_response [OF assms(1,3)]
  by blast

text \<open>
  C12: with a library as documented every parse of a message ends, on any bytes.
\<close>

theorem parse_ends:
  assumes "wire_format W"
  shows "(\<exists>ok h'. header_MergePartial W h s = Some (ok, h')) \<and>
     (\<exists>ok m'. response_MergePartial W m s = Some (ok, m')) \<and>
     (\<exists>ok i'. int_message_MergePartial W i s = Some (ok, i'))"
  using wire_format.header_ends [OF assms] wire_format.response_ends [OF assms]
    wire_format.int_message_ends [OF assms]
  by (metis not_Some_eq surj_pair)

text \<open>
  C21: a request for a method whose name is not valid UTF-8 runs its callback on the empty
  argument: the parser of the server stops at the name, after it has stored it and before the
  length of the arguments, and the stub does not look at the result of the parse.
\<close>

theorem non_utf8_method_loses_arguments:
  fixes args :: string
  assumes "wire_format W" "w_utf8 W sn" "length sn < 2 ^ 31" "\<not> w_utf8 W mn" "length mn < 2 ^ 31"
    and "stub_lookup st sn mn = Some callback" "callback '''' u = (response, u')"
  defines "hdr \<equiv> \<lparr>rh_service_name = sn, rh_method_name = mn, rh_args_size = length args\<rparr>"
  assumes "length (header_Serialize W hdr) < 2 ^ 32"
  shows "process_request (pb_codec W) st (frame (cd_hser (pb_codec W) hdr) args) u =
    Inr (frame (cd_rser (pb_codec W) \<lparr>rr_status = SUCCESS, rr_message = ''success'',
      rr_args_size = s32 (int (length response))\<rparr>) response, u')"
proof -
  have "cd_hparse (pb_codec W) (header_Serialize W hdr) = hdr\<lparr>rh_args_size := 0\<rparr>"
    using wire_format.header_merge_bad_method [OF assms(1), of hdr] assms(2-5)
    by (simp add: pb_codec_def hdr_def)
  from process_frame [OF this assms(9), of st args u] show ?thesis
    using assms(6,7) by (simp add: answer_def hdr_def pb_codec_def)
qed

section \<open>Concrete messages\<close>

lemma messages_round_trip_witness:
  "header_MergePartial base128 header_new (header_Serialize base128
      \<lparr>rh_service_name = ''math'', rh_method_name = ''twice'', rh_args_size = 300\<rparr>) =
     Some (True, \<lparr>rh_service_name = ''math'', rh_method_name = ''twice'', rh_args_size = 300\<rparr>) \<and>
   cd_rparse (pb_codec base128) (cd_rser (pb_codec base128)
      \<lparr>rr_status = INVALID_REQUEST, rr_message = ''no'', rr_args_size = -1\<rparr>) =
     \<lparr>rr_status = INVALID_REQUEST, rr_message = ''no'', rr_args_size = -1\<rparr>"
proof -
  have "header_ok base128 \<lparr>rh_service_name = ''math'', rh_method_name = ''twice'', rh_args_size = 300\<rparr>"
    "response_ok base128 \<lparr>rr_status = INVALID_REQUEST, rr_message = ''no'', rr_args_size = -1\<rparr>"
    by (simp_all add: header_ok_def response_ok_def base128_def error_code_of_def)
  from messages_round_trip [OF b128.wire_format_axioms this, of header_new response_header_new] show ?thesis
    by (simp add: MergeFrom_new)
qed

lemma parse_ends_witness:
  "\<exists>ok h'. header_MergePartial base128 header_new (replicate 9 CHR 0xff) = Some (ok, h')"
  using parse_ends [OF b128.wire_format_axioms] by blast

lemma non_utf8_method_loses_arguments_witness:
  "process_request (pb_codec base128)
     (RegisterService ''s'' [CHR 0xff] (\<lambda>args u. (''<'' @ args @ ''>'', u)) server_stub_new)
     (frame (cd_hser (pb_codec base128)
        \<lparr>rh_service_name = ''s'', rh_method_name = [CHR 0xff], rh_args_size = 3\<rparr>) ''abc'') (0 :: nat) =
   Inr (frame (cd_rser (pb_codec base128) \<lparr>rr_status = SUCCESS, rr_message = ''success'', rr_args_size = 2\<rparr>)
     ''<>'', 0)"
proof -
  let ?st = "RegisterService ''s'' [CHR 0xff] (\<lambda>args u. (''<'' @ args @ ''>'', u :: nat)) server_stub_new"
  have l: "stub_lookup ?st ''s'' [CHR 0xff] = Some (\<lambda>args u. (''<'' @ args @ ''>'', u))"
    using RegisterService_refines [OF stub_ok_new, where service_name = "''s''" and method_name = "[CHR 0xff]" and
      callback = "\<lambda>args u. (''<'' @ args @ ''>'', u :: nat)" and s = "''s''" and m = "[CHR 0xff]"] by simp
  have u: "w_utf8 base128 ''s''" "\<not> w_utf8 base128 [CHR 0xff]" by (simp_all add: base128_def)
  have len: "length (header_Serialize base128
      \<lparr>rh_service_name = ''s'', rh_method_name = [CHR 0xff], rh_args_size = length ''abc''\<rparr>) < 2 ^ 32"
    by (simp add: header_Serialize_def base128_def varint_one)
  show ?thesis
    using non_utf8_method_loses_arguments [OF b128.wire_format_axioms u(1) _ u(2) _ l _ len, of 0 "''<>''" 0]
    by (simp add: s32_def numeral_3_eq_3)
qed

end
