(* ===== verification/FactorialMethod.thy ===== *)
theory FactorialMethod
  imports Messages
begin

text \<open>
  The RPC method that comes with the library, \<open>factorial\<close> of
  \<open>src/include/rpc_proto/method_callback_example.h\<close>: its argument and its response are the bytes of
  an \<open>IntMessage\<close>. The texts it logs are returned beside the response.
\<close>

section \<open>The method\<close>

definition chk32 :: "int \<Rightarrow> int res" where
  "chk32 x = (if - (2 ^ 31) \<le> x \<and> x < 2 ^ 31 then Inr x else Inl SignedOverflow)"

text \<open>\<open>response.value() * i\<close> and \<open>i++\<close> are operations on a signed 32-bit type.\<close>

function factorial_loop :: "int \<Rightarrow> int_message \<Rightarrow> int_message \<Rightarrow> int_message res" where
  "factorial_loop i request response =
     (if i \<le> im_value request
      then ubind (chk32 (im_value response * i)) (\<lambda>p.
           ubind (chk32 (i + 1)) (\<lambda>i'. factorial_loop i' request (response\<lparr>im_value := p\<rparr>)))
      else Inr response)"
  by pat_completeness auto

termination
  by (relation "measure (\<lambda>(i, request, _). nat (im_value request + 1 - i))")
    (auto simp: chk32_def split: if_splits)

declare factorial_loop.simps [simp del]

text \<open>The result of \<open>ParseFromString\<close> is not looked at.\<close>

definition factorial :: "wire \<Rightarrow> string \<Rightarrow> (string \<times> string list) res" where
  "factorial W message =
     (case int_message_MergePartial W int_message_new message of
        None \<Rightarrow> Inl Diverge
      | Some (_, request) \<Rightarrow>
          ubind (factorial_loop 1 request (int_message_new\<lparr>im_value := 1\<rparr>)) (\<lambda>response.
          Inr (int_message_Serialize W response,
            [''entering factorial callback function'',
             ''factorial called with message: '' @ dec (im_value request) @ ''!'',
             ''factorial result: '' @ dec (im_value response)])))"

section \<open>The loop\<close>

lemma fact_12: "fact (12 :: nat) = (479001600 :: int)"
  by (simp add: fact_numeral)

lemma chk32_fact: "n \<le> 12 \<Longrightarrow> chk32 (fact n) = Inr (fact n)"
proof -
  assume "n \<le> 12"
  then have "fact n \<le> (479001600 :: int)" using fact_mono [of n 12, where 'a = int] fact_12 by simp
  moreover have "0 \<le> (fact n :: int)" by simp
  ultimately show ?thesis unfolding chk32_def by (auto simp del: fact_ge_zero)
qed

text \<open>Before iteration \<open>Suc k\<close> the response is the factorial of \<open>k\<close>.\<close>

lemma factorial_loop_step:
  assumes "Suc k \<le> 12" "int (Suc k) \<le> im_value request"
  shows "factorial_loop (int (Suc k)) request \<lparr>im_value = fact k\<rparr> =
    factorial_loop (int (Suc (Suc k))) request \<lparr>im_value = fact (Suc k)\<rparr>"
proof -
  have "fact k * int (Suc k) = fact (Suc k)" by (simp add: algebra_simps)
  then have "chk32 (fact k * int (Suc k)) = Inr (fact (Suc k))" using chk32_fact [OF assms(1)] by metis
  moreover have "chk32 (int (Suc k) + 1) = Inr (int (Suc (Suc k)))" using assms(1) by (simp add: chk32_def)
  ultimately show ?thesis
    using assms(2) factorial_loop.simps [of "int (Suc k)" request "\<lparr>im_value = fact k\<rparr>"] by simp
qed

lemma factorial_loop_reaches:
  assumes "k \<le> 12" "int k \<le> im_value request"
  shows "factorial_loop 1 request \<lparr>im_value = 1\<rparr> = factorial_loop (int (Suc k)) request \<lparr>im_value = fact k\<rparr>"
  using assms
proof (induction k)
  case (Suc k)
  then have "factorial_loop 1 request \<lparr>im_value = 1\<rparr> = factorial_loop (int (Suc k)) request \<lparr>im_value = fact k\<rparr>"
    by simp
  then show ?case using factorial_loop_step [of k request] Suc.prems by metis
qed simp

lemma factorial_loop_fact:
  assumes "im_value request \<le> 12"
  shows "factorial_loop 1 request \<lparr>im_value = 1\<rparr> = Inr \<lparr>im_value = fact (nat (im_value request))\<rparr>"
proof (cases "0 \<le> im_value request")
  case True
  then have "nat (im_value request) \<le> 12" "int (nat (im_value request)) \<le> im_value request" using assms by simp_all
  from factorial_loop_reaches [OF this]
  show ?thesis using True by (simp add: factorial_loop.simps [of "1 + im_value request"])
next
  case False
  then show ?thesis by (subst factorial_loop.simps) simp
qed

lemma factorial_loop_overflows:
  assumes "12 < im_value request"
  shows "factorial_loop 1 request \<lparr>im_value = 1\<rparr> = Inl SignedOverflow"
proof -
  have "factorial_loop 1 request \<lparr>im_value = 1\<rparr> = factorial_loop 13 request \<lparr>im_value = fact (12 :: nat)\<rparr>"
    using factorial_loop_reaches [of 12 request] assms by simp
  also have "\<dots> = Inl SignedOverflow"
    using assms unfolding fact_12 by (subst factorial_loop.simps) (simp add: chk32_def)
  finally show ?thesis .
qed

section \<open>The method on its messages\<close>

lemma factorial_reads:
  assumes "wire_format W" "- (2 ^ 31) \<le> n" "n < 2 ^ 31"
  shows "int_message_MergePartial W int_message_new (int_message_Serialize W \<lparr>im_value = n\<rparr>) =
    Some (True, \<lparr>im_value = n\<rparr>)"
  using wire_format.int_message_merge [OF assms(1), of "\<lparr>im_value = n\<rparr>" int_message_new] assms(2,3)
  by (simp add: int_message_MergeFrom_def int_message_new_def)

lemma factorial_fact:
  assumes "wire_format W" "- (2 ^ 31) \<le> n" "n \<le> 12"
  shows "factorial W (int_message_Serialize W \<lparr>im_value = n\<rparr>) =
    Inr (int_message_Serialize W \<lparr>im_value = fact (nat n)\<rparr>,
      [''entering factorial callback function'', ''factorial called with message: '' @ dec n @ ''!'',
       ''factorial result: '' @ dec (fact (nat n))])"
  using factorial_reads [OF assms(1,2)] assms(3) factorial_loop_fact [of "\<lparr>im_value = n\<rparr>"]
  by (simp add: factorial_def int_message_new_def)

lemma factorial_overflows:
  assumes "wire_format W" "12 < n" "n < 2 ^ 31"
  shows "factorial W (int_message_Serialize W \<lparr>im_value = n\<rparr>) = Inl SignedOverflow"
  using factorial_reads [OF assms(1) _ assms(3)] assms(2) factorial_loop_overflows [of "\<lparr>im_value = n\<rparr>"]
  by (simp add: factorial_def int_message_new_def)

text \<open>
  C22: on a server on which \<open>factorial\<close> is registered a request with the message of \<open>n\<close> is answered
  with the message of the factorial of \<open>n\<close> (of one for a negative \<open>n\<close>) up to 12, and from 13 on
  the multiplication of the callback overflows, which is undefined behaviour. \<open>callback\<close> is any
  callback that runs \<open>factorial\<close> and keeps what it logs.
\<close>

theorem factorial_served:
  assumes "wire_format W" "- (2 ^ 31) \<le> n" "n < 2 ^ 31"
    and "stub_lookup st sn mn = Some callback"
    and "\<And>args response logged u. factorial W args = Inr (response, logged) \<Longrightarrow> callback args u = (response, u @ logged)"
  defines "request \<equiv> int_message_Serialize W \<lparr>im_value = n\<rparr>"
    and "response \<equiv> int_message_Serialize W \<lparr>im_value = fact (nat n)\<rparr>"
  defines "hdr \<equiv> \<lparr>rh_service_name = sn, rh_method_name = mn, rh_args_size = length request\<rparr>"
  assumes "header_ok W hdr" "length (header_Serialize W hdr) < 2 ^ 32"
  shows "if n \<le> 12
    then process_request (pb_codec W) st (frame (header_Serialize W hdr) request) u =
      Inr (frame (response_Serialize W \<lparr>rr_status = SUCCESS, rr_message = ''success'',
          rr_args_size = s32 (int (length response))\<rparr>) response,
        u @ [''entering factorial callback function'', ''factorial called with message: '' @ dec n @ ''!'',
          ''factorial result: '' @ dec (fact (nat n))])
    else factorial W request = Inl SignedOverflow"
proof (cases "n \<le> 12")
  case True
  let ?logged = "[''entering factorial callback function'', ''factorial called with message: '' @ dec n @ ''!'',
    ''factorial result: '' @ dec (fact (nat n))]"
  have c: "callback request u = (response, u @ ?logged)"
    using assms(5) factorial_fact [OF assms(1,2) True] by (simp add: request_def response_def)
  have h: "cd_hparse (pb_codec W) (header_Serialize W hdr) = hdr"
    using pb_codec_reads [OF assms(1,9)] by (simp add: pb_codec_def)
  show ?thesis using process_frame [OF h assms(10), of st request u] c assms(4) True
    by (simp add: answer_def hdr_def pb_codec_def)
next
  case False
  then show ?thesis using factorial_overflows [OF assms(1) _ assms(3)] by (simp add: request_def)
qed

section \<open>The factorial of five\<close>

definition factorial_callback :: "string \<Rightarrow> string list \<Rightarrow> string \<times> string list" where
  "factorial_callback args u =
     (case factorial base128 args of Inl _ \<Rightarrow> ('''', u) | Inr (response, logged) \<Rightarrow> (response, u @ logged))"

lemma factorial_callback_runs:
  "factorial base128 args = Inr (response, logged) \<Longrightarrow> factorial_callback args u = (response, u @ logged)"
  by (simp add: factorial_callback_def)

lemma factorial_five:
  "int_message_Serialize base128 \<lparr>im_value = 5\<rparr> = [CHR 0x08, CHR 0x05]"
  "int_message_Serialize base128 \<lparr>im_value = 120\<rparr> = [CHR 0x08, CHR 0x78]"
  "dec 5 = ''5''" "dec 120 = ''120''" "(fact 5 :: int) = 120"
  by code_simp+

lemma factorial_served_witness:
  "process_request (pb_codec base128) (RegisterService ''s'' ''factorial'' factorial_callback server_stub_new)
     (frame (header_Serialize base128
        \<lparr>rh_service_name = ''s'', rh_method_name = ''factorial'', rh_args_size = 2\<rparr>) [CHR 0x08, CHR 0x05]) [] =
   Inr (frame (response_Serialize base128 \<lparr>rr_status = SUCCESS, rr_message = ''success'', rr_args_size = 2\<rparr>)
       [CHR 0x08, CHR 0x78],
     [''entering factorial callback function'', ''factorial called with message: 5!'',
      ''factorial result: 120''])"
proof -
  let ?st = "RegisterService ''s'' ''factorial'' factorial_callback server_stub_new"
  have l: "stub_lookup ?st ''s'' ''factorial'' = Some factorial_callback"
    using RegisterService_refines [OF stub_ok_new, where service_name = "''s''" and method_name = "''factorial''" and
      callback = factorial_callback and s = "''s''" and m = "''factorial''"] by simp
  have h: "header_ok base128 \<lparr>rh_service_name = ''s'', rh_method_name = ''factorial'', rh_args_size = length [CHR 0x08, CHR 0x05]\<rparr>"
    by (simp add: header_ok_def base128_def)
  have len: "length (header_Serialize base128
      \<lparr>rh_service_name = ''s'', rh_method_name = ''factorial'', rh_args_size = length [CHR 0x08, CHR 0x05]\<rparr>) < 2 ^ 32"
    by (simp add: header_Serialize_def base128_def varint_one)
  have n: "- (2 ^ 31) \<le> (5 :: int)" "(5 :: int) < 2 ^ 31" "nat 5 = 5" by simp_all
  have s: "s32 (int (length [CHR 0x08, CHR 0x78])) = 2" "length [CHR 0x08, CHR 0x05] = 2" by (simp_all add: s32_def)
  from factorial_served [OF b128.wire_format_axioms n(1,2) l factorial_callback_runs,
      unfolded n(3) factorial_five s, OF _ h [unfolded s] len [unfolded s], of "[]"]
  show ?thesis by simp
qed

end
