(* ===== verification/TinyJson.thy ===== *)
theory TinyJson
  imports OrderedMap Decimal
begin

text \<open>
  The JSON reader and writer of \<open>include/json.h\<close>. A document is read one level at a time: an
  object becomes the flat list \<open>KeyVal_\<close> of its keys and values, where a value that is an object
  or an array stays a text, to be read again; it is written from the list \<open>Items_\<close> of the texts
  of its members.

  Positions are \<open>size_t\<close> in the loops and \<open>int\<close> in the arguments; texts are taken to be shorter
  than \<open>2 ^ 31\<close>, so no position is cut. \<open>isspace\<close> and \<open>isdigit\<close> are those of the C locale. The
  member \<open>token_\<close> is never used.
\<close>

section \<open>\<open>Value\<close>\<close>

record json_value =
  jv_value :: string
  jv_nokey :: bool

definition json_value_new :: json_value where
  "json_value_new = \<lparr>jv_value = '''', jv_nokey = False\<rparr>"

definition json_value_of :: "string \<Rightarrow> json_value" where
  "json_value_of val = \<lparr>jv_value = val, jv_nokey = (val = '''')\<rparr>"

definition GetAs_string :: "json_value \<Rightarrow> string" where
  "GetAs_string v = jv_value v"

definition GetAs_bool :: "json_value \<Rightarrow> bool" where
  "GetAs_bool v \<longleftrightarrow> jv_value v = ''true''"

text \<open>
  \<open>iss >> v\<close> for an \<open>int\<close>: with nothing but blanks the variable, which has no initial value, is
  not written; without a digit it becomes 0, and a number that does not fit the nearest one.
\<close>

definition GetAs_int :: "json_value \<Rightarrow> int res" where
  "GetAs_int v =
     (let s = dropWhile is_space (jv_value v);
          neg = (take 1 s = ''-'');
          d = (if take 1 s = ''-'' \<or> take 1 s = ''+'' then drop 1 s else s);
          x = (if neg then - int (digits_val 0 d) else int (digits_val 0 d))
      in if s = '''' then Inl Uninit else Inr (max (- (2 ^ 31)) (min (2 ^ 31 - 1) x)))"

definition quoted :: "string \<Rightarrow> string" where
  [simp]: "quoted s = [CHR 0x22] @ s @ [CHR 0x22]"

text \<open>\<open>text\<close> is what \<open>oss << v\<close> appends.\<close>

definition Set_text :: "string \<Rightarrow> json_value \<Rightarrow> json_value" where
  "Set_text text v =
     v\<lparr>jv_value := (if jv_nokey v then text else quoted (jv_value v) @ '':'' @ text)\<rparr>"

definition Set_int :: "int \<Rightarrow> json_value \<Rightarrow> json_value" where
  "Set_int n = Set_text (dec n)"

definition Set_string :: "string \<Rightarrow> json_value \<Rightarrow> json_value" where
  "Set_string s = Set_text (quoted s)"

definition Set_bool :: "bool \<Rightarrow> json_value \<Rightarrow> json_value" where
  "Set_bool b = Set_text (if b then ''true'' else ''false'')"

section \<open>\<open>ParseJson\<close>\<close>

definition first_of :: "char \<Rightarrow> string \<Rightarrow> nat" where
  "first_of c s = length (takeWhile (\<lambda>x. x \<noteq> c) s)"

definition last_of :: "char \<Rightarrow> string \<Rightarrow> nat" where
  "last_of c s = length s - 1 - length (takeWhile (\<lambda>x. x \<noteq> c) (rev s))"

text \<open>
  The length \<open>e - b - 1\<close> is unsigned: with the closing character not behind the opening one it
  wraps around and the rest of the text is taken.
\<close>

definition Trims :: "string \<Rightarrow> char \<Rightarrow> char \<Rightarrow> string" where
  "Trims s lc rc =
     (if lc \<in> set s \<and> rc \<in> set s
      then let b = first_of lc s; e = last_of rc s
           in if b < e then take (e - b - 1) (drop (b + 1) s) else drop (b + 1) s
      else s)"

definition GetFirstNotSpaceChar :: "string \<Rightarrow> nat \<Rightarrow> nat" where
  "GetFirstNotSpaceChar s cur =
     (let n = length (takeWhile is_space (drop cur s)) in if cur + n < length s then n else 0)"

text \<open>
  The loops of the four readers run over the text from the first character that is not a blank.
  Each returns the characters it has collected and how far its index has moved.
\<close>

fun bracket_loop :: "char \<Rightarrow> char \<Rightarrow> int \<Rightarrow> string \<Rightarrow> string \<times> nat" where
  "bracket_loop lc rc tokencount [] = ('''', 0)"
| "bracket_loop lc rc tokencount (c # cs) =
     (let tokencount = (if c = lc then tokencount + 1 else tokencount);
          tokencount = (if c = rc then tokencount - 1 else tokencount)
      in if tokencount = 0 then ([c], 0)
         else let (objstr, i) = bracket_loop lc rc tokencount cs in (c # objstr, Suc i))"

fun string_loop :: "nat \<Rightarrow> string \<Rightarrow> string \<times> nat" where
  "string_loop tokencount [] = ('''', 0)"
| "string_loop tokencount (c # cs) =
     (let tokencount = (if c = CHR 0x22 then tokencount + 1 else tokencount)
      in if tokencount mod 2 = 0 \<and> (c = CHR '','' \<or> c = CHR '':'') then ([c], 0)
         else let (objstr, i) = string_loop tokencount cs in (c # objstr, Suc i))"

fun number_loop :: "string \<Rightarrow> string \<times> nat" where
  "number_loop [] = ('''', 0)"
| "number_loop (c # cs) =
     (if c = CHR '','' then ('''', 0)
      else let (objstr, i) = number_loop cs in (c # objstr, Suc i))"

definition fetch :: "(string \<Rightarrow> string \<times> nat) \<Rightarrow> string \<Rightarrow> nat \<Rightarrow> string \<times> nat" where
  "fetch loop inputstr inpos =
     (let skip = GetFirstNotSpaceChar inputstr inpos;
          (objstr, i) = loop (drop (inpos + skip) inputstr)
      in (objstr, skip + i))"

definition FetchArrayStr :: "string \<Rightarrow> nat \<Rightarrow> string \<times> nat" where
  "FetchArrayStr = fetch (bracket_loop (CHR ''['') (CHR '']'') 0)"

definition FetchObjStr :: "string \<Rightarrow> nat \<Rightarrow> string \<times> nat" where
  "FetchObjStr = fetch (bracket_loop (CHR ''{'') (CHR ''}'') 0)"

definition FetchStrStr :: "string \<Rightarrow> nat \<Rightarrow> string \<times> nat" where
  "FetchStrStr inputstr inpos =
     (let (objstr, offset) = fetch (string_loop 0) inputstr inpos
      in (Trims objstr (CHR 0x22) (CHR 0x22), offset))"

definition FetchNumStr :: "string \<Rightarrow> nat \<Rightarrow> string \<times> nat" where
  "FetchNumStr = fetch number_loop"

text \<open>\<open>json[i]\<close> of a \<open>std::string\<close>, which is the NUL character at its end.\<close>

definition char_at :: "string \<Rightarrow> nat \<Rightarrow> char" where
  "char_at s i = (if i < length s then s ! i else CHR 0x00)"

text \<open>
  \<open>ParseArray\<close>. Behind a colon the index moves to the next character that is not a blank, or to
  the end; if that opens neither an object nor an array it is skipped.
\<close>

function array_loop :: "string \<Rightarrow> nat \<Rightarrow> string \<Rightarrow> string list \<Rightarrow> string list" where
  "array_loop json i tokens vo =
     (if i < length json then
        let c = json ! i in
        if is_space c \<or> c = CHR 0x22 then array_loop json (Suc i) tokens vo
        else if c = CHR '':'' \<or> c = CHR '','' \<or> c = CHR ''{'' then
          let (tokens, vo) = (if tokens \<noteq> '''' then ('''', vo @ [tokens]) else (tokens, vo)) in
          if c = CHR '','' then array_loop json (Suc i) tokens vo
          else
            let i' = (if c \<noteq> CHR ''{'' then Suc i + length (takeWhile is_space (drop (Suc i) json)) else i);
                nextc = char_at json i';
                (tokens, offset) =
                  (if nextc = CHR ''{'' then FetchObjStr json i'
                   else if nextc = CHR ''['' then FetchArrayStr json i'
                   else (tokens, 0))
            in array_loop json (Suc (i' + offset)) tokens vo
        else array_loop json (Suc i) (tokens @ [c]) vo
      else if tokens \<noteq> '''' then vo @ [tokens] else vo)"
  by pat_completeness auto
termination by (relation "measure (\<lambda>(json, i, tokens, vo). length json - i)") auto

declare array_loop.simps [simp del]

definition ParseArray :: "string \<Rightarrow> string list \<Rightarrow> string list" where
  "ParseArray json vo = array_loop (Trims json (CHR ''['') (CHR '']'')) 0 '''' vo"

text \<open>\<open>ParseObj\<close>: \<open>keyval\<close> is the member \<open>keyval_\<close>.\<close>

definition LastValidChar :: "string \<Rightarrow> nat \<Rightarrow> char" where
  "LastValidChar json index =
     (case dropWhile is_space (rev (take index json)) of [] \<Rightarrow> CHR 0x00 | tmp # _ \<Rightarrow> tmp)"

function obj_loop :: "string \<Rightarrow> nat \<Rightarrow> string list \<Rightarrow> string list" where
  "obj_loop json i keyval =
     (if i < length json then
        let nextc = json ! i in
        if is_space nextc then obj_loop json (Suc i) keyval
        else
          (case (if nextc = CHR ''{'' then Some (FetchObjStr json i)
                 else if nextc = CHR ''['' then Some (FetchArrayStr json i)
                 else if nextc = CHR 0x22 then Some (FetchStrStr json i)
                 else if (is_digit nextc \<or> nextc = CHR ''-'') \<and> LastValidChar json i = CHR '':''
                 then Some (FetchNumStr json i)
                 else None) of
             None \<Rightarrow> obj_loop json (Suc i) keyval
           | Some (tokens, offset) \<Rightarrow> obj_loop json (Suc (i + offset)) (keyval @ [tokens]))
      else keyval)"
  by pat_completeness auto
termination by (relation "measure (\<lambda>(json, i, keyval). length json - i)") auto

declare obj_loop.simps [simp del]

definition ParseObj :: "string \<Rightarrow> string list \<Rightarrow> string list" where
  "ParseObj json keyval =
     (let json = Trims json (CHR ''{'') (CHR ''}'');
          keyval = obj_loop json 0 keyval
      in if keyval = [] then [json] else keyval)"

section \<open>\<open>TinyJson\<close> and \<open>ValueArray\<close>\<close>

text \<open>The constructor leaves \<open>sub_type_\<close> without a value, which is \<open>None\<close>.\<close>

record tiny_json =
  tj_sub_type :: "int option"
  tj_KeyVal :: "string list"
  tj_Items :: "json_value list"
  tj_nokey :: bool

definition tiny_json_new :: tiny_json where
  "tiny_json_new = \<lparr>tj_sub_type = None, tj_KeyVal = [], tj_Items = [], tj_nokey = False\<rparr>"

definition ReadJson :: "string \<Rightarrow> 'b tiny_json_scheme \<Rightarrow> 'b tiny_json_scheme" where
  "ReadJson json t = t\<lparr>tj_KeyVal := ParseObj json []\<rparr>"

text \<open>
  \<open>Get(key, defVal)\<close>: the element behind the first one equal to the key. Behind the last there
  is none, and the end iterator is dereferenced. \<open>getAs\<close> is the \<open>GetAs\<close> of the type.
\<close>

definition Get_or :: "(json_value \<Rightarrow> 'r res) \<Rightarrow> string \<Rightarrow> 'r \<Rightarrow> 'b tiny_json_scheme \<Rightarrow> 'r res" where
  "Get_or getAs key defVal t =
     (case dropWhile (\<lambda>s. s \<noteq> key) (tj_KeyVal t) of
        [] \<Rightarrow> Inr defVal
      | [_] \<Rightarrow> Inl NullDeref
      | _ # val # _ \<Rightarrow> getAs (json_value_of val))"

definition Get_string :: "string \<Rightarrow> 'b tiny_json_scheme \<Rightarrow> string res" where
  "Get_string key = Get_or (\<lambda>v. Inr (GetAs_string v)) key ''''"

definition Get_bool :: "string \<Rightarrow> 'b tiny_json_scheme \<Rightarrow> bool res" where
  "Get_bool key = Get_or (\<lambda>v. Inr (GetAs_bool v)) key False"

definition Get_int :: "string \<Rightarrow> 'b tiny_json_scheme \<Rightarrow> int res" where
  "Get_int key = Get_or GetAs_int key 0"

definition Get_first :: "(json_value \<Rightarrow> 'r res) \<Rightarrow> 'b tiny_json_scheme \<Rightarrow> 'r res" where
  "Get_first getAs t =
     (case tj_KeyVal t of [] \<Rightarrow> Inl OutOfBounds | val # _ \<Rightarrow> getAs (json_value_of val))"

text \<open>
  \<open>operator[]\<close> appends a value and returns a reference to it, through which the caller sets it:
  \<open>item k f t\<close> is \<open>t[k].f\<close>.
\<close>

definition json_index :: "string \<Rightarrow> 'b tiny_json_scheme \<Rightarrow> 'b tiny_json_scheme" where
  "json_index k t =
     t\<lparr>tj_Items := tj_Items t @ [json_value_of k], tj_nokey := (if k = '''' then True else tj_nokey t)\<rparr>"

definition set_last :: "(json_value \<Rightarrow> json_value) \<Rightarrow> 'b tiny_json_scheme \<Rightarrow> 'b tiny_json_scheme" where
  "set_last f t = t\<lparr>tj_Items := butlast (tj_Items t) @ [f (last (tj_Items t))]\<rparr>"

definition item :: "string \<Rightarrow> (json_value \<Rightarrow> json_value) \<Rightarrow> 'b tiny_json_scheme \<Rightarrow> 'b tiny_json_scheme" where
  "item k f t = set_last f (json_index k t)"

text \<open>\<open>back()\<close> of an empty string has no value: type 0 of an object without items.\<close>

definition WriteJson :: "int \<Rightarrow> 'b tiny_json_scheme \<Rightarrow> string res" where
  "WriteJson type t =
     (let prefix = (if type = 0 then '''' else if type = 1 then ''{'' else ''['');
          suffix = (if type = 0 then '''' else if type = 1 then ''}'' else '']'');
          jsonstring = prefix @ concat (map (\<lambda>v. jv_value v @ '','') (tj_Items t))
      in if jsonstring = '''' then Inl OutOfBounds
         else let jsonstring = (if last jsonstring = CHR '','' then take (last_of (CHR '','') jsonstring) jsonstring
                                else jsonstring)
              in Inr (jsonstring @ suffix))"

text \<open>\<open>Value::Push\<close> and \<open>TinyJson::Push\<close>.\<close>

definition Value_Push :: "'c tiny_json_scheme \<Rightarrow> json_value \<Rightarrow> json_value res" where
  "Value_Push w v =
     ubind (WriteJson (if tj_nokey w then 0 else 1) w) (\<lambda>s. Inr (v\<lparr>jv_value := s\<rparr>))"

definition json_Push :: "'c tiny_json_scheme \<Rightarrow> 'b tiny_json_scheme \<Rightarrow> 'b tiny_json_scheme res" where
  "json_Push w t =
     ubind (Value_Push w (json_value_of '''')) (\<lambda>v.
     Inr (t\<lparr>tj_Items := tj_Items t @ [v], tj_nokey := True, tj_sub_type := Some 1\<rparr>))"

text \<open>\<open>Value::Set\<close> of a \<open>TinyJson\<close>; \<open>oss << v\<close> writes it as an object.\<close>

definition Set_json :: "'c tiny_json_scheme \<Rightarrow> json_value \<Rightarrow> json_value res" where
  "Set_json w v =
     ubind (of_opt Uninit (tj_sub_type w)) (\<lambda>sub_type.
     if sub_type = 1
     then ubind (WriteJson 2 w) (\<lambda>s. Inr (v\<lparr>jv_value := quoted (jv_value v) @ '':'' @ s\<rparr>))
     else ubind (WriteJson 1 w) (\<lambda>s. Inr (Set_text s v)))"

definition item_json :: "string \<Rightarrow> 'c tiny_json_scheme \<Rightarrow> 'b tiny_json_scheme \<Rightarrow> 'b tiny_json_scheme res" where
  "item_json k w t =
     (let t = json_index k t
      in ubind (Set_json w (last (tj_Items t))) (\<lambda>v. Inr (set_last (\<lambda>_. v) t)))"

text \<open>\<open>ValueArray<TinyJson>\<close>: an object with the texts of the elements beside it.\<close>

record xarray = tiny_json +
  xa_vo :: "string list"

definition xarray_of :: "string list \<Rightarrow> xarray" where
  "xarray_of vo = tiny_json.extend tiny_json_new \<lparr>xa_vo = vo\<rparr>"

definition Enter :: "int \<Rightarrow> xarray \<Rightarrow> xarray res" where
  "Enter i a =
     (if 0 \<le> i \<and> i < int (length (xa_vo a)) then Inr (ReadJson (xa_vo a ! nat i) a) else Inl OutOfBounds)"

definition Count :: "xarray \<Rightarrow> nat" where
  "Count a = length (xa_vo a)"

definition Get_xarray :: "string \<Rightarrow> 'b tiny_json_scheme \<Rightarrow> xarray res" where
  "Get_xarray key t =
     ubind (Get_string key t) (\<lambda>val. Inr (xarray_of (ParseArray val [])))"

end
