(* ===== verification/JsonRoundTrip.thy ===== *)
theory JsonRoundTrip
  imports TinyJson
begin

text \<open>
  What is written by \<open>TinyJson\<close> is read back by it: an object of strings, numbers and arrays of
  objects of strings and numbers (\<open>json_field\<close>), whose texts hold no quote and, inside an array,
  no bracket. Booleans are not read back, and a key is also found among the values.

  The loops of the parser work with positions; \<open>obj_from pre rest\<close> is the loop that has read
  \<open>pre\<close> and stands at the beginning of \<open>rest\<close>, and each lemma moves one token from the second to
  the first.
\<close>

section \<open>Documents\<close>

datatype json_scalar = Text string | Number int

datatype json_field = Scalar json_scalar | Objects "(string \<times> json_scalar) list list"

fun scalar_text :: "json_scalar \<Rightarrow> string" where
  "scalar_text (Text s) = quoted s"
| "scalar_text (Number n) = dec n"

fun scalar_token :: "json_scalar \<Rightarrow> string" where
  "scalar_token (Text s) = s"
| "scalar_token (Number n) = dec n"

fun set_scalar :: "json_scalar \<Rightarrow> json_value \<Rightarrow> json_value" where
  "set_scalar (Text s) = Set_string s"
| "set_scalar (Number n) = Set_int n"

definition write_object :: "(string \<times> json_scalar) list \<Rightarrow> tiny_json" where
  "write_object fs = foldl (\<lambda>t (k, v). item k (set_scalar v) t) tiny_json_new fs"

definition write_array :: "(string \<times> json_scalar) list list \<Rightarrow> tiny_json res" where
  "write_array os = run_res (\<lambda>fs. json_Push (write_object fs)) os tiny_json_new"

fun write_field :: "string \<times> json_field \<Rightarrow> tiny_json \<Rightarrow> tiny_json res" where
  "write_field (k, Scalar v) t = Inr (item k (set_scalar v) t)"
| "write_field (k, Objects os) t = ubind (write_array os) (\<lambda>a. item_json k a t)"

definition write_document :: "(string \<times> json_field) list \<Rightarrow> string res" where
  "write_document fs = ubind (run_res write_field fs tiny_json_new) (WriteJson 1)"

text \<open>The texts of the members, and the tokens they are read as.\<close>

fun commas :: "string list \<Rightarrow> string" where
  "commas [] = ''''"
| "commas [x] = x"
| "commas (x # xs) = x @ '','' @ commas xs"

definition member_text :: "string \<Rightarrow> string \<Rightarrow> string" where
  "member_text k v = quoted k @ '':'' @ v"

definition object_text :: "(string \<times> json_scalar) list \<Rightarrow> string" where
  "object_text fs = ''{'' @ commas (map (\<lambda>(k, v). member_text k (scalar_text v)) fs) @ ''}''"

fun field_text :: "json_field \<Rightarrow> string" where
  "field_text (Scalar v) = scalar_text v"
| "field_text (Objects os) = ''['' @ commas (map object_text os) @ '']''"

fun field_token :: "json_field \<Rightarrow> string" where
  "field_token (Scalar v) = scalar_token v"
| "field_token (Objects os) = field_text (Objects os)"

definition tokens :: "('f \<Rightarrow> string) \<Rightarrow> (string \<times> 'f) list \<Rightarrow> string list" where
  "tokens tok fs = concat (map (\<lambda>(k, v). [k, tok v]) fs)"

text \<open>The characters that texts must not hold.\<close>

definition unquoted :: "string \<Rightarrow> bool" where
  "unquoted s \<longleftrightarrow> CHR 0x22 \<notin> set s"

definition unbracketed :: "string \<Rightarrow> bool" where
  "unbracketed s \<longleftrightarrow> set s \<inter> set ''[]{}'' = {}"

fun scalar_ok :: "(string \<Rightarrow> bool) \<Rightarrow> json_scalar \<Rightarrow> bool" where
  "scalar_ok P (Text s) = P s"
| "scalar_ok P (Number n) = True"

definition member_ok :: "(string \<Rightarrow> bool) \<Rightarrow> string \<times> json_scalar \<Rightarrow> bool" where
  "member_ok P m \<longleftrightarrow> fst m \<noteq> '''' \<and> P (fst m) \<and> scalar_ok P (snd m)"

definition inner_ok :: "(string \<times> json_scalar) list \<Rightarrow> bool" where
  "inner_ok fs \<longleftrightarrow> fs \<noteq> [] \<and> (\<forall>m \<in> set fs. member_ok (\<lambda>s. unquoted s \<and> unbracketed s) m)"

fun field_ok :: "string \<times> json_field \<Rightarrow> bool" where
  "field_ok (k, Scalar v) = member_ok unquoted (k, v)"
| "field_ok (k, Objects os) \<longleftrightarrow> k \<noteq> '''' \<and> unquoted k \<and> os \<noteq> [] \<and> (\<forall>fs \<in> set os. inner_ok fs)"

section \<open>Writing\<close>

lemma commas_Cons: "commas (x # xs) = (if xs = [] then x else x @ '','' @ commas xs)"
  by (cases xs) auto

lemma concat_commas: "xs \<noteq> [] \<Longrightarrow> concat (map (\<lambda>x. x @ '','') xs) = commas xs @ '',''"
  by (induction xs) (auto simp: commas_Cons)

lemma last_of_snoc [simp]:
  "last_of c (s @ [c]) = length s" "last_of c (x # s @ [c]) = Suc (length s)"
  by (simp_all add: last_of_def)

lemma WriteJson_commas:
  assumes "tj_Items t \<noteq> [] \<or> n \<noteq> 0"
  shows "WriteJson n t =
    Inr ((if n = 0 then '''' else if n = 1 then ''{'' else ''['') @ commas (map jv_value (tj_Items t)) @
      (if n = 0 then '''' else if n = 1 then ''}'' else '']''))"
proof (cases "tj_Items t = []")
  case True
  then show ?thesis using assms by (simp add: WriteJson_def)
next
  case False
  then have "concat (map (\<lambda>v. jv_value v @ '','') (tj_Items t)) = commas (map jv_value (tj_Items t)) @ '',''"
    using concat_commas [of "map jv_value (tj_Items t)"] by (simp add: comp_def)
  then show ?thesis by (simp add: WriteJson_def Let_def)
qed

lemma set_last_index [simp]: "set_last f (json_index k t) =
    t\<lparr>tj_Items := tj_Items t @ [f (json_value_of k)], tj_nokey := (if k = '''' then True else tj_nokey t)\<rparr>"
  by (simp add: set_last_def json_index_def)

lemma Set_text_key: "k \<noteq> '''' \<Longrightarrow> jv_value (Set_text s (json_value_of k)) = member_text k s"
  by (simp add: Set_text_def json_value_of_def member_text_def)

lemma set_scalar_text: "set_scalar v = Set_text (scalar_text v)"
  by (cases v) (simp_all add: Set_string_def Set_int_def)

lemma write_object_items:
  assumes "\<forall>m \<in> set fs. fst m \<noteq> ''''"
  shows "map jv_value (tj_Items (write_object fs)) = map (\<lambda>(k, v). member_text k (scalar_text v)) fs"
    and "\<not> tj_nokey (write_object fs)"
proof -
  have "map jv_value (tj_Items (foldl (\<lambda>t (k, v). item k (set_scalar v) t) t fs)) =
      map jv_value (tj_Items t) @ map (\<lambda>(k, v). member_text k (scalar_text v)) fs \<and>
      tj_nokey (foldl (\<lambda>t (k, v). item k (set_scalar v) t) t fs) = tj_nokey t" for t :: tiny_json
    using assms by (induction fs arbitrary: t) (auto simp: item_def set_scalar_text Set_text_key)
  then show "map jv_value (tj_Items (write_object fs)) = map (\<lambda>(k, v). member_text k (scalar_text v)) fs"
    "\<not> tj_nokey (write_object fs)"
    by (simp_all add: write_object_def tiny_json_new_def)
qed

lemma inner_keys: "inner_ok fs \<Longrightarrow> \<forall>m \<in> set fs. fst m \<noteq> ''''"
  by (auto simp: inner_ok_def member_ok_def)

lemma WriteJson_object: "inner_ok fs \<Longrightarrow> WriteJson 1 (write_object fs) = Inr (object_text fs)"
  by (simp add: WriteJson_commas write_object_items [OF inner_keys] object_text_def)

lemma json_Push_object:
  "inner_ok fs \<Longrightarrow> json_Push (write_object fs) t =
    Inr (t\<lparr>tj_Items := tj_Items t @ [(json_value_of '''')\<lparr>jv_value := object_text fs\<rparr>], tj_nokey := True,
      tj_sub_type := Some 1\<rparr>)"
  by (simp add: json_Push_def Value_Push_def write_object_items(2) [OF inner_keys] WriteJson_object)

lemma write_array_items:
  assumes "os \<noteq> []" "\<forall>fs \<in> set os. inner_ok fs"
  shows "\<exists>a. write_array os = Inr a \<and> tj_sub_type a = Some 1 \<and>
     map jv_value (tj_Items a) = map object_text os"
proof -
  have "\<exists>a. run_res (\<lambda>fs. json_Push (write_object fs)) os t = Inr a \<and>
      (os \<noteq> [] \<or> tj_sub_type t = Some 1 \<longrightarrow> tj_sub_type a = Some 1) \<and>
      map jv_value (tj_Items a) = map jv_value (tj_Items t) @ map object_text os" for t :: tiny_json
    using assms(2)
  proof (induction os arbitrary: t)
    case (Cons fs os)
    from Cons.IH [of "t\<lparr>tj_Items := tj_Items t @ [(json_value_of '''')\<lparr>jv_value := object_text fs\<rparr>],
        tj_nokey := True, tj_sub_type := Some 1\<rparr>"] Cons.prems
    show ?case by (auto simp: json_Push_object)
  qed simp
  from this [of tiny_json_new] show ?thesis
    using assms(1) by (auto simp: write_array_def tiny_json_new_def)
qed

lemma Set_json_array:
  assumes "tj_sub_type a = Some 1"
  shows "Set_json a v = Inr (v\<lparr>jv_value := member_text (jv_value v) (''['' @ commas (map jv_value (tj_Items a)) @ '']'')\<rparr>)"
  using assms by (simp add: Set_json_def WriteJson_commas member_text_def)

lemma write_field_text:
  assumes "field_ok f"
  shows "\<exists>t'. write_field f t = Inr t' \<and> map jv_value (tj_Items t') =
     map jv_value (tj_Items t) @ [member_text (fst f) (field_text (snd f))]"
proof (cases f rule: field_ok.cases)
  case (1 k v)
  then show ?thesis using assms by (simp add: item_def set_scalar_text Set_text_key member_ok_def)
next
  case (2 k os)
  then obtain a where a: "write_array os = Inr a" "tj_sub_type a = Some 1"
      "map jv_value (tj_Items a) = map object_text os"
    using assms write_array_items by auto
  moreover have "last (tj_Items (json_index k t)) = json_value_of k" by (simp add: json_index_def)
  ultimately show ?thesis
    by (simp add: 2 item_json_def Set_json_array [OF a(2)] json_value_of_def)
qed

lemma run_write_field:
  assumes "\<forall>f \<in> set fs. field_ok f"
  shows "\<exists>t'. run_res write_field fs t = Inr t' \<and> map jv_value (tj_Items t') =
     map jv_value (tj_Items t) @ map (\<lambda>(k, v). member_text k (field_text v)) fs"
  using assms
proof (induction fs arbitrary: t)
  case (Cons f fs)
  obtain t' where "write_field f t = Inr t'" "map jv_value (tj_Items t') =
      map jv_value (tj_Items t) @ [member_text (fst f) (field_text (snd f))]"
    using write_field_text [of f t] Cons.prems by auto
  then show ?case using Cons.IH [of t'] Cons.prems by (cases f) auto
qed simp

lemma write_document_text:
  assumes "\<forall>f \<in> set fs. field_ok f"
  shows "write_document fs = Inr (''{'' @ commas (map (\<lambda>(k, v). member_text k (field_text v)) fs) @ ''}'')"
  using run_write_field [OF assms, of tiny_json_new]
  by (auto simp: write_document_def WriteJson_commas tiny_json_new_def)

section \<open>Reading: the fetch loops\<close>

lemma bracket_loop_inside:
  "lc \<notin> set s \<Longrightarrow> rc \<notin> set s \<Longrightarrow> lc \<noteq> rc \<Longrightarrow>
    bracket_loop lc rc 1 (s @ rc # rest) = (s @ [rc], length s)"
  by (induction s) auto

lemma bracket_loop_text:
  "lc \<notin> set s \<Longrightarrow> rc \<notin> set s \<Longrightarrow> lc \<noteq> rc \<Longrightarrow>
    bracket_loop lc rc 0 (lc # s @ rc # rest) = (lc # s @ [rc], Suc (length s))"
  by (simp add: bracket_loop_inside)

lemma string_loop_inside:
  assumes "unquoted s"
  shows "string_loop 1 (s @ CHR 0x22 # rest) =
    (let (r, n) = string_loop 2 rest in (s @ CHR 0x22 # r, Suc (length s + n)))"
  using assms by (induction s) (auto simp: unquoted_def numeral_2_eq_2 split: prod.split)

lemma string_loop_text:
  assumes "unquoted s"
  shows "string_loop 0 (quoted s) = (quoted s, Suc (Suc (length s)))"
    and "c = CHR '','' \<or> c = CHR '':'' \<Longrightarrow>
      string_loop 0 (quoted s @ c # rest) = (quoted s @ [c], Suc (Suc (length s)))"
  using string_loop_inside [OF assms] by auto

lemma number_loop_text:
  "CHR '','' \<notin> set s \<Longrightarrow> number_loop s = (s, length s)"
  "CHR '','' \<notin> set s \<Longrightarrow> number_loop (s @ CHR '','' # rest) = (s, length s)"
  by (induction s) auto

lemma Trims_text:
  assumes "rc \<notin> set t"
  shows "Trims (lc # s @ rc # t) lc rc = s"
proof -
  have "takeWhile (\<lambda>x. x \<noteq> rc) (rev t @ [rc] @ rev s @ [lc]) = rev t"
    using assms by (subst takeWhile_append2) auto
  then have "last_of rc (lc # s @ rc # t) = Suc (length s)" by (simp add: last_of_def)
  then show ?thesis by (simp add: Trims_def first_of_def)
qed

lemma Trims_quoted: "Trims (quoted s) (CHR 0x22) (CHR 0x22) = s"
  "c \<noteq> CHR 0x22 \<Longrightarrow> Trims (quoted s @ [c]) (CHR 0x22) (CHR 0x22) = s"
  using Trims_text [of "CHR 0x22" "[]"] Trims_text [of "CHR 0x22" "[c]"] by auto

lemma fetch_here: "\<not> is_space c \<Longrightarrow> fetch loop (pre @ c # cs) (length pre) = loop (c # cs)"
  by (simp add: fetch_def GetFirstNotSpaceChar_def split: prod.split)

section \<open>Reading: the loop of \<open>ParseObj\<close>\<close>

definition obj_from :: "string \<Rightarrow> string \<Rightarrow> string list \<Rightarrow> string list" where
  "obj_from pre rest kv = obj_loop (pre @ rest) (length pre) kv"

lemma obj_from_end [simp]: "obj_from pre [] kv = kv"
  by (simp add: obj_from_def obj_loop.simps)

lemma obj_from_skip:
  assumes "c \<notin> {CHR ''{'', CHR ''['', CHR 0x22, CHR ''-''}" "\<not> is_digit c"
  shows "obj_from pre (c # rest) kv = obj_from (pre @ [c]) rest kv"
  unfolding obj_from_def using assms by (subst obj_loop.simps) simp

lemma obj_from_sep:
  "c = CHR '','' \<or> c = CHR '':'' \<Longrightarrow> obj_from pre (c # rest) kv = obj_from (pre @ [c]) rest kv"
  by (rule obj_from_skip) (auto simp: is_digit_def)

text \<open>One token: the loop continues behind what the fetch has moved over.\<close>

lemma obj_from_token:
  assumes "\<not> is_space c"
    and "(if c = CHR ''{'' then Some (FetchObjStr (pre @ c # cs) (length pre))
          else if c = CHR ''['' then Some (FetchArrayStr (pre @ c # cs) (length pre))
          else if c = CHR 0x22 then Some (FetchStrStr (pre @ c # cs) (length pre))
          else if (is_digit c \<or> c = CHR ''-'') \<and> LastValidChar (pre @ c # cs) (length pre) = CHR '':''
          then Some (FetchNumStr (pre @ c # cs) (length pre)) else None) = Some (tok, n)"
  shows "obj_from pre (c # cs) kv = obj_from (pre @ take (Suc n) (c # cs)) (drop (Suc n) (c # cs)) (kv @ [tok])"
proof -
  have "obj_from pre (c # cs) kv = obj_loop (pre @ c # cs) (Suc (length pre + n)) (kv @ [tok])"
    unfolding obj_from_def using assms by (subst obj_loop.simps) (simp add: nth_append split del: if_split)
  also have "\<dots> = obj_from (pre @ take (Suc n) (c # cs)) (drop (Suc n) (c # cs)) (kv @ [tok])"
  proof (cases "n \<le> length cs")
    case True
    then show ?thesis by (simp add: obj_from_def min_def)
  next
    case False
    then show ?thesis by (simp add: obj_loop.simps)
  qed
  finally show ?thesis .
qed

lemma obj_from_string:
  assumes "unquoted s"
  shows "obj_from pre (quoted s) kv = kv @ [s]"
    and "c = CHR '','' \<or> c = CHR '':'' \<Longrightarrow>
      obj_from pre (quoted s @ c # rest) kv = obj_from (pre @ quoted s @ [c]) rest (kv @ [s])"
proof -
  have q: "\<not> is_space (CHR 0x22)" by (simp add: is_space_def)
  show "obj_from pre (quoted s) kv = kv @ [s]"
    using obj_from_token [OF q, of pre "s @ [CHR 0x22]" s "Suc (Suc (length s))" kv]
      string_loop_text(1) [OF assms] Trims_quoted(1) [of s]
    by (simp add: FetchStrStr_def fetch_here [OF q])
  show "obj_from pre (quoted s @ c # rest) kv = obj_from (pre @ quoted s @ [c]) rest (kv @ [s])"
    if c: "c = CHR '','' \<or> c = CHR '':''"
  proof -
    have "c \<noteq> CHR 0x22" using c by auto
    then show ?thesis
      using obj_from_token [OF q, of pre "s @ CHR 0x22 # c # rest" s "Suc (Suc (length s))" kv]
        string_loop_text(2) [OF assms c, of rest] Trims_quoted(2) [of c s]
      by (simp add: FetchStrStr_def fetch_here [OF q])
  qed
qed

lemma obj_from_number:
  assumes "pre \<noteq> []" "last pre = CHR '':''"
  shows "obj_from pre (dec n) kv = kv @ [dec n]"
    and "obj_from pre (dec n @ CHR '','' # rest) kv = obj_from (pre @ dec n @ '','') rest (kv @ [dec n])"
proof -
  obtain p where p: "pre = p @ '':''" using assms by (metis append_butlast_last_id)
  have l: "LastValidChar (pre @ s) (length pre) = CHR '':''" for s
    by (simp add: LastValidChar_def p is_space_def)
  have d: "is_digit c \<or> c = CHR ''-''" if "c \<in> set (dec n)" for c
    using that dec_nat_digits by (auto simp: dec_def split: if_splits)
  obtain x xs where x: "dec n = x # xs" using dec_nat_nonempty by (cases "dec n") (auto simp: dec_def split: if_splits)
  have x': "is_digit x \<or> x = CHR ''-''" using d [of x] by (simp add: x)
  then have sp: "\<not> is_space x" using digit_plain [of x] by (auto simp: is_space_def)
  have o: "x \<noteq> CHR ''{''" "x \<noteq> CHR ''[''" "x \<noteq> CHR 0x22" using x' by (auto simp: is_digit_def)
  have "CHR '','' \<notin> set (dec n)" using d [of "CHR '',''"] by (auto simp: is_digit_def)
  note nl = number_loop_text [OF this, unfolded x]
  show "obj_from pre (dec n) kv = kv @ [dec n]"
    using obj_from_token [OF sp, of pre xs "dec n" "length (dec n)" kv] l [of "x # xs"] nl(1) o x'
    by (simp add: x FetchNumStr_def fetch_here [OF sp])
  show "obj_from pre (dec n @ CHR '','' # rest) kv = obj_from (pre @ dec n @ '','') rest (kv @ [dec n])"
    using obj_from_token [OF sp, of pre "xs @ CHR '','' # rest" "dec n" "length (dec n)" kv]
      l [of "x # xs @ CHR '','' # rest"] nl(2) [of rest] o x'
    by (simp add: x FetchNumStr_def fetch_here [OF sp])
qed

lemma obj_from_array:
  assumes "CHR ''['' \<notin> set s" "CHR '']'' \<notin> set s"
  shows "obj_from pre (''['' @ s @ '']'' @ rest) kv =
    obj_from (pre @ ''['' @ s @ '']'') rest (kv @ [''['' @ s @ '']''])"
proof -
  have q: "\<not> is_space (CHR ''['')" by (simp add: is_space_def)
  show ?thesis
    using obj_from_token [OF q, of pre "s @ CHR '']'' # rest" "''['' @ s @ '']''" "Suc (length s)" kv]
      bracket_loop_text [OF assms, of rest]
    by (simp add: FetchArrayStr_def fetch_here [OF q])
qed

section \<open>Reading: objects\<close>

lemma set_commas: "set (commas xs) \<subseteq> insert (CHR '','') (\<Union> (set ` set xs))"
  by (induction xs rule: commas.induct) auto

lemma dec_chars: "c \<in> set (dec n) \<Longrightarrow> is_digit c \<or> c = CHR ''-''"
  using dec_nat_digits by (auto simp: dec_def split: if_splits)

lemma member_unbracketed:
  assumes "member_ok (\<lambda>s. unquoted s \<and> unbracketed s) (k, v)"
  shows "set (member_text k (scalar_text v)) \<inter> set ''[]{}'' = {}"
proof (cases v)
  case (Text s)
  then show ?thesis using assms by (auto simp: member_ok_def member_text_def unbracketed_def)
next
  case (Number n)
  have "set (dec n) \<inter> set ''[]{}'' = {}"
    using dec_chars [of "CHR ''[''" n] dec_chars [of "CHR '']''" n] dec_chars [of "CHR ''{''" n]
      dec_chars [of "CHR ''}''" n] by (auto simp: is_digit_def)
  then show ?thesis using assms Number by (auto simp: member_ok_def member_text_def unbracketed_def)
qed

lemma object_body_unbracketed:
  assumes "inner_ok fs"
  shows "set (commas (map (\<lambda>(k, v). member_text k (scalar_text v)) fs)) \<inter> set ''[]{}'' = {}"
proof -
  have "set (member_text k (scalar_text v)) \<inter> set ''[]{}'' = {}" if "(k, v) \<in> set fs" for k v
    using assms that member_unbracketed [of k v] by (auto simp: inner_ok_def)
  then show ?thesis
    using set_commas [of "map (\<lambda>(k, v). member_text k (scalar_text v)) fs"] by fastforce
qed

lemma objects_no_array:
  assumes "\<forall>fs \<in> set os. inner_ok fs"
  shows "CHR ''['' \<notin> set (commas (map object_text os))" "CHR '']'' \<notin> set (commas (map object_text os))"
proof -
  have "set (object_text fs) \<inter> {CHR ''['', CHR '']''} = {}" if "fs \<in> set os" for fs
    using object_body_unbracketed [of fs] assms that by (auto simp: object_text_def)
  then show "CHR ''['' \<notin> set (commas (map object_text os))" "CHR '']'' \<notin> set (commas (map object_text os))"
    using set_commas [of "map object_text os"] by fastforce+
qed

text \<open>The value of a member, behind its colon.\<close>

lemma obj_from_value:
  assumes "field_ok (k, v)" "pre \<noteq> []" "last pre = CHR '':''"
  shows "obj_from pre (field_text v) kv = kv @ [field_token v]"
    and "\<exists>pre'. obj_from pre (field_text v @ CHR '','' # rest) kv = obj_from pre' rest (kv @ [field_token v])"
proof -
  have "obj_from pre (field_text v) kv = kv @ [field_token v] \<and>
    (\<exists>pre'. obj_from pre (field_text v @ CHR '','' # rest) kv = obj_from pre' rest (kv @ [field_token v]))"
  proof (cases v)
    case (Scalar w)
    show ?thesis
    proof (cases w)
      case (Text s)
      then have "unquoted s" using assms(1) Scalar by (simp add: member_ok_def)
      then show ?thesis
        using obj_from_string(1) [of s] obj_from_string(2) [of s "CHR '',''" pre rest kv]
        unfolding Scalar Text by (metis append_Cons field_text.simps(1) field_token.simps(1) scalar_text.simps(1) scalar_token.simps(1))
    next
      case (Number n)
      then show ?thesis using obj_from_number [OF assms(2,3)] Scalar by auto
    qed
  next
    case (Objects os)
    then have "\<forall>fs \<in> set os. inner_ok fs" using assms(1) by simp
    from obj_from_array [OF objects_no_array [OF this]] obj_from_sep [of "CHR '',''"] show ?thesis
      unfolding Objects by (simp add: obj_from_end) blast
  qed
  then show "obj_from pre (field_text v) kv = kv @ [field_token v]"
    "\<exists>pre'. obj_from pre (field_text v @ CHR '','' # rest) kv = obj_from pre' rest (kv @ [field_token v])"
    by blast+
qed

lemma obj_from_key:
  assumes "unquoted k"
  shows "obj_from pre (member_text k s) kv = obj_from (pre @ quoted k @ '':'') s (kv @ [k])"
  using obj_from_string(2) [OF assms, of "CHR '':''" pre s kv] by (simp add: member_text_def)

lemma field_key: "field_ok f \<Longrightarrow> fst f \<noteq> '''' \<and> unquoted (fst f)"
  by (cases f rule: field_ok.cases) (auto simp: member_ok_def)

text \<open>The loop stands at what follows the members \<open>fs\<close> when it has read them.\<close>

lemma obj_from_before:
  assumes "\<forall>f \<in> set fs. field_ok f"
  shows "\<exists>pre'. obj_from pre (commas (map (\<lambda>(k, v). member_text k (field_text v)) fs @ [x])) kv =
    obj_from pre' x (kv @ tokens field_token fs)"
  using assms
proof (induction fs arbitrary: pre kv)
  case (Cons f fs)
  obtain k v where f: "f = (k, v)" by (cases f)
  have ok: "field_ok (k, v)" "unquoted k" using Cons.prems field_key [of f] by (simp_all add: f)
  let ?r = "commas (map (\<lambda>(k, v). member_text k (field_text v)) fs @ [x])"
  have c: "commas (map (\<lambda>(k, v). member_text k (field_text v)) (f # fs) @ [x]) =
      member_text k (field_text v @ CHR '','' # ?r)"
    by (simp add: f commas_Cons member_text_def)
  obtain pre' where "obj_from (pre @ quoted k @ '':'') (field_text v @ CHR '','' # ?r) (kv @ [k]) =
      obj_from pre' ?r (kv @ [k, field_token v])"
    using obj_from_value(2) [OF ok(1), where pre = "pre @ quoted k @ '':''" and rest = ?r and kv = "kv @ [k]"]
    by auto
  then show ?case
    using Cons.IH [of pre' "kv @ [k, field_token v]"] Cons.prems
    unfolding c obj_from_key [OF ok(2)] by (simp add: f tokens_def)
qed (auto simp: tokens_def)

lemma obj_from_members:
  assumes "fs \<noteq> []" "\<forall>f \<in> set fs. field_ok f"
  shows "obj_from pre (commas (map (\<lambda>(k, v). member_text k (field_text v)) fs)) kv = kv @ tokens field_token fs"
proof -
  obtain gs k v where fs: "fs = gs @ [(k, v)]" using assms(1) by (metis rev_exhaust surj_pair)
  then have ok: "\<forall>f \<in> set gs. field_ok f" "field_ok (k, v)" "unquoted k"
    using assms(2) field_key [of "(k, v)"] by simp_all
  obtain pre' where "obj_from pre (commas (map (\<lambda>(k, v). member_text k (field_text v)) fs)) kv =
      obj_from pre' (member_text k (field_text v)) (kv @ tokens field_token gs)"
    using obj_from_before [OF ok(1), of pre "member_text k (field_text v)" kv] by (auto simp: fs)
  also have "\<dots> = kv @ tokens field_token gs @ [k, field_token v]"
    using obj_from_value(1) [OF ok(2), of "pre' @ quoted k @ '':''"] by (simp add: obj_from_key [OF ok(3)])
  finally show ?thesis by (simp add: fs tokens_def)
qed

lemma ParseObj_document:
  assumes "fs \<noteq> []" "\<forall>f \<in> set fs. field_ok f"
  shows "ParseObj (''{'' @ commas (map (\<lambda>(k, v). member_text k (field_text v)) fs) @ ''}'') [] =
    tokens field_token fs"
proof -
  have "tokens field_token fs \<noteq> []" using assms(1) by (cases fs) (auto simp: tokens_def)
  then show ?thesis
    using obj_from_members [OF assms, of "''''" "[]"] Trims_text [of "CHR ''}''" "[]" "CHR ''{''"]
    by (simp add: ParseObj_def obj_from_def)
qed

lemma member_ok_mono: "(\<And>s. P s \<Longrightarrow> Q s) \<Longrightarrow> member_ok P m \<Longrightarrow> member_ok Q m"
  by (cases m; cases "snd m") (auto simp: member_ok_def)

lemma ParseObj_object:
  assumes "inner_ok fs"
  shows "ParseObj (object_text fs) [] = tokens scalar_token fs"
proof -
  let ?fs = "map (\<lambda>(k, v). (k, Scalar v)) fs"
  have m: "member_ok unquoted m" if "m \<in> set fs" for m
    using assms that member_ok_mono [of "\<lambda>s. unquoted s \<and> unbracketed s" unquoted m] by (simp add: inner_ok_def)
  have "?fs \<noteq> []" "\<forall>f \<in> set ?fs. field_ok f" using assms m by (auto simp: inner_ok_def)
  from ParseObj_document [OF this] show ?thesis
    by (simp add: object_text_def tokens_def comp_def case_prod_unfold)
qed

section \<open>Reading: arrays\<close>

definition array_from :: "string \<Rightarrow> string \<Rightarrow> string \<Rightarrow> string list \<Rightarrow> string list" where
  "array_from pre rest tk vo = array_loop (pre @ rest) (length pre) tk vo"

lemma array_from_end [simp]: "array_from pre [] tk vo = (if tk = '''' then vo else vo @ [tk])"
  by (simp add: array_from_def array_loop.simps)

lemma array_from_comma:
  "tk \<noteq> '''' \<Longrightarrow>
    array_from pre (CHR '','' # rest) tk vo = array_from (pre @ '','') rest '''' (vo @ [tk])"
  unfolding array_from_def by (subst array_loop.simps) (simp add: is_space_def)

lemma array_from_object:
  assumes "CHR ''{'' \<notin> set s" "CHR ''}'' \<notin> set s"
  shows "array_from pre (''{'' @ s @ ''}'' @ rest) '''' vo =
    array_from (pre @ ''{'' @ s @ ''}'') rest (''{'' @ s @ ''}'') vo"
proof -
  have q: "\<not> is_space (CHR ''{'')" by (simp add: is_space_def)
  have "FetchObjStr (pre @ CHR ''{'' # s @ CHR ''}'' # rest) (length pre) = (''{'' @ s @ ''}'', Suc (length s))"
    using bracket_loop_text [OF assms, of rest] by (simp add: FetchObjStr_def fetch_here [OF q])
  then show ?thesis
    unfolding array_from_def by (subst array_loop.simps) (simp add: q char_at_def nth_append Let_def)
qed

lemma array_from_objects:
  assumes "\<forall>fs \<in> set os. inner_ok fs"
  shows "array_from pre (commas (map object_text os)) '''' vo = vo @ map object_text os"
  using assms
proof (induction os arbitrary: pre vo)
  case (Cons fs os)
  let ?b = "commas (map (\<lambda>(k, v). member_text k (scalar_text v)) fs)"
  have b: "CHR ''{'' \<notin> set ?b" "CHR ''}'' \<notin> set ?b" and t: "object_text fs = ''{'' @ ?b @ ''}''"
    using object_body_unbracketed [of fs] Cons.prems by (auto simp: object_text_def)
  note ob = array_from_object [OF b, of pre, folded t]
  show ?case
  proof (cases "os = []")
    case True
    then show ?thesis using ob [of "''''" vo] by (simp add: t)
  next
    case False
    then have c: "commas (map object_text (fs # os)) = ''{'' @ ?b @ ''}'' @ CHR '','' # commas (map object_text os)"
      by (simp add: commas_Cons t)
    have "object_text fs \<noteq> ''''" by (simp add: t)
    then show ?thesis
      unfolding c using ob [of "CHR '','' # commas (map object_text os)" vo] Cons.IH Cons.prems
      by (simp add: array_from_comma t)
  qed
qed simp

lemma ParseArray_objects:
  assumes "\<forall>fs \<in> set os. inner_ok fs"
  shows "ParseArray (''['' @ commas (map object_text os) @ '']'') [] = map object_text os"
  using array_from_objects [OF assms, of "''''" "[]"] Trims_text [of "CHR '']''" "[]" "CHR ''[''"]
  by (simp add: ParseArray_def array_from_def)

lemma obj_from_bool: "obj_from pre (if b then ''true'' else ''false'') kv = kv"
  by (simp add: obj_from_skip is_digit_def)

section \<open>The round trip\<close>

lemma GetAs_int_dec:
  assumes "- (2 ^ 31) \<le> n" "n < 2 ^ 31"
  shows "GetAs_int (json_value_of (dec n)) = Inr n"
proof (cases "n < 0")
  case True
  then show ?thesis using assms
    by (simp add: GetAs_int_def json_value_of_def dec_def digits_val_dec is_space_def)
next
  case False
  obtain x xs where x: "dec_nat (nat n) = x # xs" using dec_nat_nonempty by (cases "dec_nat (nat n)") auto
  then have "is_digit x" using dec_nat_digits [of x "nat n"] by simp
  then show ?thesis using False assms digit_plain [of x] digits_val_dec [of "nat n"] x
    by (simp add: GetAs_int_def json_value_of_def dec_def)
qed

text \<open>\<open>t\<close> gives the value of the member \<open>k\<close> back, an array element by element.\<close>

fun reads_field :: "'b tiny_json_scheme \<Rightarrow> string \<times> json_field \<Rightarrow> bool" where
  "reads_field t (k, Scalar (Text s)) \<longleftrightarrow> Get_string k t = Inr s"
| "reads_field t (k, Scalar (Number n)) \<longleftrightarrow> (- (2 ^ 31) \<le> n \<and> n < 2 ^ 31 \<longrightarrow> Get_int k t = Inr n)"
| "reads_field t (k, Objects os) \<longleftrightarrow>
     (\<exists>a. Get_xarray k t = Inr a \<and> Count a = length os \<and>
       (\<forall>i < length os. \<exists>b. Enter (int i) a = Inr b \<and> tj_KeyVal b = tokens scalar_token (os ! i)))"

lemma Get_or_tokens:
  assumes "tj_KeyVal t = tokens tok (gs @ (k, v) # hs)" "k \<notin> set (tokens tok gs)"
  shows "Get_or getAs k d t = getAs (json_value_of (tok v))"
proof -
  have "dropWhile (\<lambda>s. s \<noteq> k) (tokens tok gs @ k # tok v # tokens tok hs) = k # tok v # tokens tok hs"
    using assms(2) by (subst dropWhile_append2) auto
  then show ?thesis using assms(1) by (simp add: Get_or_def tokens_def)
qed

lemma reads_field_tokens:
  assumes "tj_KeyVal t = tokens field_token (gs @ (k, v) # hs)" "k \<notin> set (tokens field_token gs)"
    and "field_ok (k, v)"
  shows "reads_field t (k, v)"
proof (cases "(k, v)" rule: field_ok.cases)
  case (1 k' w)
  then have "v = Scalar w" by simp
  then show ?thesis
    by (cases w) (simp_all add: Get_string_def Get_int_def GetAs_string_def Get_or_tokens [OF assms(1,2)]
        GetAs_int_dec, simp_all add: json_value_of_def)
next
  case (2 k' os)
  then have ok: "\<forall>fs \<in> set os. inner_ok fs" using assms(3) by simp
  have "Get_xarray k t = Inr (xarray_of (map object_text os))"
    using Get_or_tokens [OF assms(1,2), of "\<lambda>v. Inr (GetAs_string v)" "''''"] ParseArray_objects [OF ok] 2
    by (simp add: Get_xarray_def Get_string_def GetAs_string_def json_value_of_def)
  moreover have "xa_vo (xarray_of vo) = vo" for vo by (simp add: xarray_of_def tiny_json.defs)
  ultimately show ?thesis
    using 2 ok ParseObj_object by (auto simp: Count_def Enter_def ReadJson_def)
qed

text \<open>
  C32: what \<open>TinyJson\<close> writes it reads back: an object of strings, numbers and arrays of objects,
  whose texts hold no quote (and no bracket inside an array), is written without failure; the
  text is read as the keys and values in order; and \<open>Get\<close> returns every string, every number
  that fits an \<open>int\<close> and every array, element by element, whose key is not among the keys and
  values in front of it.
\<close>

theorem json_round_trip:
  assumes "fs \<noteq> []" "\<forall>f \<in> set fs. field_ok f"
  shows "\<exists>s. write_document fs = Inr s \<and>
     tj_KeyVal (ReadJson s t) = tokens field_token fs \<and>
     (\<forall>gs f hs. fs = gs @ f # hs \<and> fst f \<notin> set (tokens field_token gs) \<longrightarrow> reads_field (ReadJson s t) f)"
proof -
  obtain s where s: "write_document fs = Inr s" "tj_KeyVal (ReadJson s t) = tokens field_token fs"
    using write_document_text [OF assms(2)] ParseObj_document [OF assms] by (simp add: ReadJson_def)
  moreover have "reads_field (ReadJson s t) f" if "fs = gs @ f # hs" "fst f \<notin> set (tokens field_token gs)" for gs f hs
    using reads_field_tokens [of "ReadJson s t" gs "fst f" "snd f" hs] s(2) that assms(2) by simp
  ultimately show ?thesis by blast
qed

text \<open>
  A boolean that was written cannot be read: the parser makes no token of \<open>true\<close> and
  \<open>false\<close>, so the key of a last boolean member is the last element of the list, and \<open>Get\<close>
  dereferences the end iterator behind it.
\<close>

theorem json_bool_is_lost:
  assumes "\<forall>f \<in> set fs. field_ok f" "k \<noteq> ''''" "unquoted k" "k \<notin> set (tokens field_token fs)"
  shows "\<exists>d s. run_res write_field fs tiny_json_new = Inr d \<and>
     WriteJson 1 (item k (Set_bool b) d) = Inr s \<and>
     tj_KeyVal (ReadJson s t) = tokens field_token fs @ [k] \<and> Get_bool k (ReadJson s t) = Inl NullDeref"
proof -
  let ?m = "map (\<lambda>(k, v). member_text k (field_text v)) fs" and ?b = "if b then ''true'' else ''false''"
  obtain d where d: "run_res write_field fs tiny_json_new = Inr d" "map jv_value (tj_Items d) = ?m"
    using run_write_field [OF assms(1), of tiny_json_new] by (auto simp: tiny_json_new_def)
  then have w: "WriteJson 1 (item k (Set_bool b) d) = Inr (''{'' @ commas (?m @ [member_text k ?b]) @ ''}'')"
    using Set_text_key [OF assms(2)] by (simp add: WriteJson_commas item_def Set_bool_def)
  obtain pre' where "obj_from '''' (commas (?m @ [member_text k ?b])) [] =
      obj_from pre' (member_text k ?b) (tokens field_token fs)"
    using obj_from_before [OF assms(1), of "''''" "member_text k ?b" "[]"] by auto
  also have "\<dots> = tokens field_token fs @ [k]"
    unfolding obj_from_key [OF assms(3)] by (rule obj_from_bool)
  finally have "tj_KeyVal (ReadJson (''{'' @ commas (?m @ [member_text k ?b]) @ ''}'') t) = tokens field_token fs @ [k]"
    using Trims_text [of "CHR ''}''" "[]" "CHR ''{''"]
    by (simp add: ReadJson_def ParseObj_def obj_from_def)
  moreover have "dropWhile (\<lambda>s. s \<noteq> k) (tokens field_token fs @ [k]) = [k]"
    using assms(4) by (subst dropWhile_append2) auto
  ultimately have "tj_KeyVal (ReadJson (''{'' @ commas (?m @ [member_text k ?b]) @ ''}'') t) = tokens field_token fs @ [k]"
    "Get_bool k (ReadJson (''{'' @ commas (?m @ [member_text k ?b]) @ ''}'') t) = Inl NullDeref"
    by (simp_all only: Get_bool_def Get_or_def list.case)
  then show ?thesis using d(1) w by blast
qed

text \<open>A key is also found among the values: \<open>Get\<close> of the second member returns its own key.\<close>

lemma json_key_found_among_values:
  assumes "field_ok (k, Scalar (Text k'))" "field_ok (k', v)" "k \<noteq> k'"
  shows "\<exists>s. write_document [(k, Scalar (Text k')), (k', v)] = Inr s \<and> Get_string k' (ReadJson s t) = Inr k'"
proof -
  let ?fs = "[(k, Scalar (Text k')), (k', v)]"
  have ok: "?fs \<noteq> []" "\<forall>f \<in> set ?fs. field_ok f" using assms by simp_all
  obtain s where "write_document ?fs = Inr s" "tj_KeyVal (ReadJson s t) = tokens field_token ?fs"
    using write_document_text [OF ok(2)] ParseObj_document [OF ok] by (simp add: ReadJson_def)
  then show ?thesis
    using assms(3) by (auto simp: Get_string_def Get_or_def GetAs_string_def tokens_def json_value_of_def)
qed

text \<open>\<open>Value::Set\<close> of an object reads \<open>sub_type_\<close>, which only \<open>Push\<close> writes.\<close>

lemma Set_object_uninitialised: "Set_json (write_object fs) v = Inl Uninit"
proof -
  have "tj_sub_type (foldl (\<lambda>t (k, v). item k (set_scalar v) t) t fs) = tj_sub_type t" for t :: tiny_json
    by (induction fs arbitrary: t) (auto simp: item_def)
  then show ?thesis by (simp add: Set_json_def write_object_def tiny_json_new_def)
qed

section \<open>Concrete documents\<close>

definition demo_json :: "(string \<times> json_field) list" where
  "demo_json = [(''name'', Scalar (Text ''a,b:c'')), (''n'', Scalar (Number (- 5))),
     (''list'', Objects [[(''k'', Text ''v'')], [(''k'', Number 7), (''z'', Text '''')]])]"

lemma demo_json_ok: "demo_json \<noteq> []" "\<forall>f \<in> set demo_json. field_ok f"
  by (simp_all add: demo_json_def member_ok_def unquoted_def unbracketed_def inner_ok_def)

lemma json_round_trip_witness:
  "\<exists>s. write_document demo_json = Inr s \<and>
     Get_string ''name'' (ReadJson s tiny_json_new) = Inr ''a,b:c'' \<and>
     Get_int ''n'' (ReadJson s tiny_json_new) = Inr (- 5)"
proof -
  obtain s where s: "write_document demo_json = Inr s"
    "\<And>gs f hs. demo_json = gs @ f # hs \<Longrightarrow> fst f \<notin> set (tokens field_token gs) \<Longrightarrow>
      reads_field (ReadJson s tiny_json_new) f"
    using json_round_trip [OF demo_json_ok, of tiny_json_new] by metis
  have "reads_field (ReadJson s tiny_json_new) (''name'', Scalar (Text ''a,b:c''))"
    by (rule s(2) [of "[]"]) (simp_all add: demo_json_def tokens_def)
  moreover have "reads_field (ReadJson s tiny_json_new) (''n'', Scalar (Number (- 5)))"
    by (rule s(2) [of "[(''name'', Scalar (Text ''a,b:c''))]"]) (simp_all add: demo_json_def tokens_def)
  ultimately show ?thesis using s(1) by simp
qed

lemma json_bool_is_lost_witness:
  "\<exists>d s. run_res write_field demo_json tiny_json_new = Inr d \<and> WriteJson 1 (item ''ok'' (Set_bool True) d) = Inr s \<and>
     Get_bool ''ok'' (ReadJson s tiny_json_new) = Inl NullDeref"
proof -
  have "''ok'' \<noteq> ''''" "unquoted ''ok''" "''ok'' \<notin> set (tokens field_token demo_json)"
    by (simp_all add: unquoted_def demo_json_def tokens_def dec_def dec_nat.simps)
  from json_bool_is_lost [OF demo_json_ok(2) this, of True tiny_json_new] show ?thesis by blast
qed

end
