(* ===== verification/Spec2Isabelle.thy ===== *)
theory Spec2Isabelle
  imports Locks Log Scheduler SocketInfo RpcClient FactorialMethod JsonRoundTrip
begin

text \<open>
  This library models libNetCo-RPC, a C++ coroutine runtime with a remote procedure call layer
  on top of it, and proves what its components promise each other. Paths below are relative to
  the root of the repository.

  \<^bold>\<open>The program.\<close> Coroutines run on processors, one thread each (\<open>src/processor.cc\<close>); a scheduler
  hands new ones out (\<open>src/scheduler.cc\<close>). A processor polls with epoll and a timerfd
  (\<open>src/epoller.cc\<close>, \<open>src/timer.cc\<close>), and sockets whose calls would block park their coroutine
  there (\<open>src/socket.cc\<close>). On the sockets there is a TCP server that starts a coroutine for each
  connection (\<open>src/tcp\<close>), and on that an RPC server that looks up a callback by the names of
  service and method (\<open>src/rpc_proto/rpc_server_stub.cc\<close>). A server registers its methods in
  ZooKeeper; a client's naming service (\<open>src/rpc_proto/zk_naming_service.cc\<close>) watches them and
  tells a load balancer, which chooses the server of each call
  (\<open>src/rpc_proto/rpc_client_stub.cc\<close>). The balancers keep two copies of a tree of weights, so
  that selections read without locks (\<open>include/container/doubly_buffered_data.h\<close>).

  \<^bold>\<open>The theories\<close>, from the bottom up:

  \<^item> \<open>Prelude\<close>: results with undefined behaviour and exceptions as values (\<open>ub\<close>, \<open>res\<close>,
    \<open>ubind\<close>), integers at their width (\<open>u32\<close>, \<open>u64\<close>, \<open>s32\<close>, \<open>s64\<close>, \<open>chk64\<close>), runs over lists.
  \<^item> \<open>BoundedQueue\<close> (\<open>include/container/bounded_queue.h\<close>): the ring buffer; it refines a bounded
    FIFO and a sliding window. \<open>Decimal\<close>: integers as text, written and read.
  \<^item> \<open>DoublyBuffered\<close>: \<open>Modify\<close> in its two phases, and the lock protocol as a step relation
    \<open>db_step\<close> whose reachable states never have a reader on the buffer being written.
  \<^item> \<open>WeightNode\<close>, \<open>WeightTree\<close>, \<open>LocalityAware\<close>
    (\<open>src/rpc_proto/locality_aware_load_balancer.cc\<close>): the statistics of one server, the tree of
    weights, and the operations of the balancer. \<open>BalancerInvariant\<close>, \<open>BalancerChanges\<close> and
    \<open>BalancerMembers\<close> show that the left sums and the total stay exact through additions and
    removals with readers at work on both copies; \<open>BalancerSelect\<close> says which draw selects which
    server. \<open>WeightedRandom\<close> is the other balancer, which shares the data and the membership
    operations of the first, as its source repeats them; its members of the same text are the
    same definitions here.
  \<^item> \<open>LoadBalancer\<close>: the interface, with what a client relies on as the locale
    \<open>server_registry\<close>, interpreted for both balancers; its client is the naming service.
  \<^item> \<open>MsTime\<close>, \<open>TimerQueue\<close>, \<open>MemPool\<close>, \<open>Epoller\<close>, \<open>Coroutine\<close>, \<open>Processor\<close>: the
    runtime, each with the representation invariant of its state. The processor is a machine of
    small steps (\<open>loop_step\<close>); \<open>ProcessorInv\<close> shows the invariant of every step and
    \<open>ProcessorProps\<close> that it implements a set of sequential programs.
  \<^item> \<open>Scheduler\<close> (with \<open>src/processor_selector.cc\<close> and \<open>src/netco_api.cc\<close>), \<open>Locks\<close> (the spinlock,
    the coroutine mutex and the pthread mutex with their guards, one locale), \<open>Log\<close>
    (\<open>src/log.cc\<close>: events, format strings, appenders, loggers).
  \<^item> \<open>Socket\<close>, \<open>SocketInfo\<close>, \<open>Tcp\<close>: the hooked system calls and the accept loops.
  \<^item> \<open>OrderedMap\<close>: \<open>std::map\<close>, \<open>std::set_difference\<close>, \<open>substr\<close> and C strings. \<open>RpcServer\<close>,
    \<open>ZooKeeper\<close>, \<open>NamingService\<close>, \<open>RpcClient\<close>: the RPC layer, from a request's bytes to the
    answer, and from the registration of a method to the members of a balancer.
  \<^item> \<open>Messages\<close> (\<open>src/rpc_proto/*.pb.cc\<close>): the generated classes of the headers, which write and
    read their fields through the functions of the library in \<open>Wire\<close>; \<open>pb_codec\<close> is the codec
    they make for the stubs. \<open>FactorialMethod\<close> (\<open>include/rpc_proto/method_callback_example.h\<close>): the
    method that comes with the library, from the bytes of a request to the answer of a server.
  \<^item> \<open>TinyJson\<close> (\<open>include/json.h\<close>): the JSON reader, which reads one level of a document at a
    time, and the writer; \<open>JsonRoundTrip\<close> shows for which documents they are inverse.

  This theory composes them: from the start of a server, over its registration in ZooKeeper and
  the selection by a client, to the answer of the first call, and from the end of a server to
  its removal from the balancers of the clients.

  \<^bold>\<open>How state and operations correspond.\<close> An object is a record of its fields, a member function
  a definition of its name that takes and returns the record. What lies behind shared pointers
  (weights, left sums, loggers, coroutines) is in a store under an address. What the system or a
  library returns is an argument: a single result, a record of results (\<open>io\<close>, \<open>net_sys\<close>,
  \<open>net_io\<close>) or the list of the results of successive calls. An operation that has used up its
  list is still waiting. A claim on a concurrent component is about the reachable states of a
  step relation, a step being what happens under a lock, or one atomic operation; memory order
  weaker than sequential consistency is not modelled.

  \<^bold>\<open>Parameters.\<close> ZooKeeper is the record \<open>zoo\<close>, with \<open>zoo_tree\<close> as the documented behaviour of a
  connected session. The RPC theories take a \<open>codec\<close>, of which a theorem asks that a parser reads
  back what the serialiser wrote; the generated classes are one (\<open>pb_codec\<close>), over a record \<open>wire\<close>
  of the functions of the Protocol Buffers library, whose documentation is the locale
  \<open>wire_format\<close>. Parameters are instantiated by concrete functions in the witnesses (\<open>list_zoo\<close>,
  \<open>demo_codec\<close>, and \<open>base128\<close>, the documented encoding). Random draws are a function of the
  number of the draw and its bound; the clock is an argument; \<open>malloc\<close> returns memory that overlaps nothing in
  use.

  \<^bold>\<open>Bounds.\<close> \<open>lb_room lb k\<close> says that the sums of the weights stay below \<open>2 ^ 63\<close> with \<open>k\<close> more
  servers; a new balancer has room for a million (\<open>lalb_new_room\<close>). The path buffer of the naming
  service holds 1023 characters, the buffer of a connection and of a response 4096 bytes. No
  fuel is used: loops are structural or have a measure, the subtraction loop of the ring buffer
  and the parse loop of a message are partial functions, the latter proved to return, and loops
  that wait for the outside run along a list of results.

  \<^bold>\<open>Not modelled.\<close> Descriptors, reflection and accessors of the generated classes;
  \<open>include/rpc_proto/zk_naming_service_with_LB.h\<close>, which no file includes; the examples. Log lines inside the other components are left out,
  where they change nothing, as are the batch operations of the balancers, which have no body
  but a note, and the copying of contexts, which nothing uses.
\<close>

section \<open>A server and its clients\<close>

text \<open>The register of the server stub, run over ZooKeeper.\<close>

lemma registerAllService_ZooKeeper:
  assumes "zoo_tree zk tree" "stub_ok st" "zname a"
    and "\<forall>s m. stub_lookup st s m \<noteq> None \<longrightarrow> zname s \<and> zname m \<and> method_dirs (tree z) s m"
  shows "\<exists>z'. registerAllService (Some (RegisterMethod zk)) a st z = Inr (st\<lparr>ss_ipPortAddr := a\<rparr>, z') \<and>
    (\<forall>s m. stub_lookup st s m \<noteq> None \<longrightarrow> method_path s m \<in> dom (tree z') \<and>
       children (tree z') (method_path s m) = insert a (children (tree z) (method_path s m)))"
proof -
  have pairs: "\<forall>(s, m) \<in> set (stub_pairs st). zname s \<and> zname m \<and> method_dirs (tree z) s m"
    using assms(4) stub_pairs_set [OF assms(2)] by auto
  then have "run_res (\<lambda>(s, m). RegisterMethod zk (c_str s) (c_str m) (c_str a)) (stub_pairs st) z =
      run_res (\<lambda>(s, m). RegisterMethod zk s m a) (stub_pairs st) z"
    using zname_plain assms(3) by (intro run_res_cong) (auto simp: c_str_id)
  with run_RegisterMethod [OF assms(1,3) pairs] stub_pairs_set [OF assms(2)] assms(4) show ?thesis
    by (auto simp: registerAllService_def run_services)
qed


text \<open>
  From the start of a server to the first answer, for any codec that reads back what it wrote.
\<close>

lemma first_call_any_codec:
  fixes st :: "'s server_stub" and ip :: string and port :: int and sn mn args response :: string
  defines "addr \<equiv> addr_str (Some ip) port" and "path \<equiv> method_path sn mn"
    and "request_header \<equiv> \<lparr>rh_service_name = sn, rh_method_name = mn, rh_args_size = length args\<rparr>"
    and "response_header \<equiv> \<lparr>rr_status = SUCCESS, rr_message = ''success'',
           rr_args_size = s32 (int (length response))\<rparr>"
  assumes zk: "zoo_tree zk tree" "no_data zk junk" "zname addr" "length path \<le> 1023" "children (tree z) path = {}"
    and st: "stub_ok st" "\<forall>s m. stub_lookup st s m \<noteq> None \<longrightarrow> zname s \<and> zname m \<and> method_dirs (tree z) s m"
      "stub_lookup st sn mn = Some callback" "callback args u = (response, u')"
    and ip: "CHR '':'' \<notin> set ip" "- (2 ^ 31) \<le> port" "port < 2 ^ 31"
    and cd: "cd_hparse cd (cd_hser cd request_header) = request_header"
      "cd_rparse cd (cd_rser cd response_header) = response_header"
      "length (cd_hser cd request_header) < 2 ^ 32" "length args < 2 ^ 32"
      "length (frame (cd_rser cd response_header) response) \<le> 4096"
    and cl: "cl_lbs cl sn = None" "rr_status header = SUCCESS" "0 \<le> now0" "now0 < now1" "now1 < 2 ^ 62"
      "\<forall>n > 1. 1 \<le> rnd 0 n \<and> rnd 0 n < n"
    and net: "nio_connect io = [Connected]" "nio_sends io = [int (length (request_of cd sn mn args))]"
      "on_connection cd (st\<lparr>ss_ipPortAddr := addr\<rparr>) [request_of cd sn mn args] u [] = Inr (replies, u'', gone)"
      "nio_reads io = map Got replies"
  shows "\<exists>t' z1 k1 b r cl' z2 k2.
    rpc_start (Some (RegisterMethod zk)) sys (Some ip) port (st, t) z k = Inr ((st\<lparr>ss_ipPortAddr := addr\<rparr>, t'), z1, k1, b) \<and>
    call zk junk cd rnd now0 now1 io sn mn args header cl z1 kc = Inr (Some (r, cl', z2, k2)) \<and>
    cr_response r = response \<and> rr_status (cr_header r) = SUCCESS \<and> u'' = u'"
proof -
  obtain z1 where z1: "registerAllService (Some (RegisterMethod zk)) addr st z = Inr (st\<lparr>ss_ipPortAddr := addr\<rparr>, z1)"
    "path \<in> dom (tree z1)" "children (tree z1) path = {addr}"
    using registerAllService_ZooKeeper [OF zk(1) st(1) zk(3) st(2)] st(3) zk(5) unfolding path_def by force
  have n: "CHR 0x00 \<notin> set sn" "CHR 0x00 \<notin> set mn" using st(2,3) zname_plain by blast+
  obtain cl1 z2 lb where f: "find_balancer zk junk now0 sn mn cl z1 = Inr (cl1, z2)" "cl_lbs cl1 sn = Some lb"
    "lb_ok lb" "lb_room lb 0" "lb_members lb = {addr}" "lb_fresh now0 lb"
    using find_balancer_new [OF zk(1,2) zk(4) [unfolded path_def] z1(2) [unfolded path_def] n cl(1), of 0 now0]
      z1(3) [unfolded path_def] by auto
  obtain out where out: "wr_select_server rnd select_out_init lb = Inr (0, out)" "so_node out = addr"
    using wr_select_member [where out = select_out_init and rnd = rnd and lb = lb, OF f(3,4) _ cl(6)] f(5) by auto
  have "heap_unused (lb_shared lb)" using f(6) cl(3-5) by (simp add: lb_fresh_def in_time_def)
  then have "\<exists>lb'. wr_Feedback now1 \<lparr>ci_begin_time_us = now0, ci_node = so_node out,
      ci_error_code = error_val (rr_status header)\<rparr> lb = Inr lb'"
    using cl(2-5) by (intro wr_Feedback_unused f(3)) (simp_all add: in_time_def)
  then obtain lb' where fb: "(if so_need_feedback out then wr_Feedback now1
      \<lparr>ci_begin_time_us = now0, ci_node = so_node out, ci_error_code = error_val (rr_status header)\<rparr> lb
      else Inr lb) = Inr lb'"
    by (cases "so_need_feedback out") auto
  have a: "answer (st\<lparr>ss_ipPortAddr := addr\<rparr>) sn mn args u = (response_header, response, u')"
    using st(3,4) by (simp add: answer_def stub_lookup_def response_header_def split: option.splits)
  note q = request_answered [OF cd(1,3) [unfolded request_header_def] cd(4) a cd(2,5) net(3)]
  have "addr_parts (so_node out) = Inr (Some (ip, port))"
    unfolding out(2) addr_def using ip by (intro addr_parts_addr_str)
  moreover have "nio_reads io = [Got (frame (cd_rser cd response_header) response)]" using net(4) q(1) by simp
  ultimately obtain cl'' k' where "call zk junk cd rnd now0 now1 io sn mn args header cl z1 kc =
      Inr (Some (\<lparr>cr_response = response, cr_header = response_header, cr_sent = request_of cd sn mn args\<rparr>,
        cl'', z2, k'))"
    using call_selected [OF f(1,2) out(1) _ fb net(1,2) q(4) _ q(3)] by blast
  then show ?thesis
    using z1(1) q(2) by (auto simp: rpc_start_def stub_start_def addr_def response_header_def split: prod.split)
qed

text \<open>
  C1: a server and a client, from their start to the first answer: the server registers its
  methods in ZooKeeper, the client finds it there and selects it, connects to its address, sends
  the request, gives its feedback, and returns what the callback of the server makes of the
  arguments, with status SUCCESS. Headers are written and parsed by the generated classes, over a
  library that encodes fields as documented. The network delivers the request and the answer whole, and the
  numbers drawn are below their upper end: at the upper end the selection may find no server.
\<close>

theorem first_call_returns_answer:
  fixes st :: "'s server_stub" and ip :: string and port :: int and sn mn args response :: string
  defines "addr \<equiv> addr_str (Some ip) port" and "path \<equiv> method_path sn mn"
    and "request_header \<equiv> \<lparr>rh_service_name = sn, rh_method_name = mn, rh_args_size = length args\<rparr>"
    and "response_header \<equiv> \<lparr>rr_status = SUCCESS, rr_message = ''success'',
           rr_args_size = s32 (int (length response))\<rparr>"
  assumes zk: "zoo_tree zk tree" "no_data zk junk" "zname addr" "length path \<le> 1023" "children (tree z) path = {}"
    and st: "stub_ok st" "\<forall>s m. stub_lookup st s m \<noteq> None \<longrightarrow> zname s \<and> zname m \<and> method_dirs (tree z) s m"
      "stub_lookup st sn mn = Some callback" "callback args u = (response, u')"
    and ip: "CHR '':'' \<notin> set ip" "- (2 ^ 31) \<le> port" "port < 2 ^ 31"
    and wire: "wire_format W" "w_utf8 W sn" "w_utf8 W mn" "length args < 2 ^ 32"
      "length (header_Serialize W request_header) < 2 ^ 32"
      "length (frame (response_Serialize W response_header) response) \<le> 4096"
    and cl: "cl_lbs cl sn = None" "rr_status header = SUCCESS" "0 \<le> now0" "now0 < now1" "now1 < 2 ^ 62"
      "\<forall>n > 1. 1 \<le> rnd 0 n \<and> rnd 0 n < n"
    and net: "nio_connect io = [Connected]" "nio_sends io = [int (length (request_of (pb_codec W) sn mn args))]"
      "on_connection (pb_codec W) (st\<lparr>ss_ipPortAddr := addr\<rparr>) [request_of (pb_codec W) sn mn args] u [] = Inr (replies, u'', gone)"
      "nio_reads io = map Got replies"
  shows "\<exists>t' z1 k1 b r cl' z2 k2.
    rpc_start (Some (RegisterMethod zk)) sys (Some ip) port (st, t) z k = Inr ((st\<lparr>ss_ipPortAddr := addr\<rparr>, t'), z1, k1, b) \<and>
    call zk junk (pb_codec W) rnd now0 now1 io sn mn args header cl z1 kc = Inr (Some (r, cl', z2, k2)) \<and>
    cr_response r = response \<and> rr_status (cr_header r) = SUCCESS \<and> u'' = u'"
proof -
  have "length sn < 2 ^ 31" "length mn < 2 ^ 31" using zk(4) by (auto simp: path_def method_path_def)
  then have q: "header_ok W request_header" using wire(2-4) by (simp add: header_ok_def request_header_def)
  have "- (2 ^ 31) \<le> s32 i" "s32 i < 2 ^ 31" for i by (simp_all add: s32_def)
  then have r: "response_ok W response_header"
    using wire_format.ascii [OF wire(1), of "''success''"]
    by (simp add: response_ok_def response_header_def error_code_of_def)
  have cd: "cd_hparse (pb_codec W) (cd_hser (pb_codec W) request_header) = request_header"
    "cd_rparse (pb_codec W) (cd_rser (pb_codec W) response_header) = response_header"
    "length (cd_hser (pb_codec W) request_header) < 2 ^ 32"
    "length (frame (cd_rser (pb_codec W) response_header) response) \<le> 4096"
    using pb_codec_reads [OF wire(1) q] pb_codec_reads_response [OF wire(1) r] wire(5,6)
    by (simp_all add: pb_codec_def)
  show ?thesis
    using first_call_any_codec [where cd = "pb_codec W" and cl = cl and header = header and rnd = rnd and io = io
        and ?now0.0 = now0 and ?now1.0 = now1, OF zk [unfolded addr_def path_def] st ip, folded addr_def path_def,
        OF cd(1) [unfolded request_header_def] cd(2) [unfolded response_header_def]
          cd(3) [unfolded request_header_def] wire(4) cd(4) [unfolded response_header_def] cl net] .
qed

lemma UnregisterAll_ZooKeeper:
  assumes "zoo_tree zk tree" "stub_ok st" "zname a" "ss_ipPortAddr st = a"
    and "\<forall>s m. stub_lookup st s m \<noteq> None \<longrightarrow> zname s \<and> zname m \<and>
       method_path s m @ ''/'' @ a \<in> dom (tree z) \<and> children (tree z) (method_path s m @ ''/'' @ a) = {}"
  shows "\<exists>z'. UnregisterAll (Some (UnregisterMethod zk)) st z = Inr z' \<and>
    (\<forall>s m. stub_lookup st s m \<noteq> None \<longrightarrow>
       children (tree z') (method_path s m) = children (tree z) (method_path s m) - {a} \<and>
       (method_path s m \<in> dom (tree z) \<longrightarrow> method_path s m \<in> dom (tree z')))"
proof -
  have pairs: "\<forall>(s, m) \<in> set (stub_pairs st). zname s \<and> zname m \<and>
      method_path s m @ ''/'' @ a \<in> dom (tree z) \<and> children (tree z) (method_path s m @ ''/'' @ a) = {}"
    using assms(5) stub_pairs_set [OF assms(2)] by auto
  then have "run_res (\<lambda>(s, m). UnregisterMethod zk (c_str s) (c_str m) (c_str a)) (stub_pairs st) z =
      run_res (\<lambda>(s, m). UnregisterMethod zk s m a) (stub_pairs st) z"
    using zname_plain assms(3) by (intro run_res_cong) (auto simp: c_str_id)
  with run_UnregisterMethod [OF assms(1,3) pairs stub_pairs_distinct [OF assms(2)]] obtain z' where
    z': "UnregisterAll (Some (UnregisterMethod zk)) st z = Inr z'"
    "dom (tree z') = dom (tree z) - {method_path s m @ ''/'' @ a | s m. (s, m) \<in> set (stub_pairs st)}"
    using assms(4) by (auto simp: UnregisterAll_def run_services)
  have "children (tree z') (method_path s m) = children (tree z) (method_path s m) - {a} \<and>
      (method_path s m \<in> dom (tree z) \<longrightarrow> method_path s m \<in> dom (tree z'))"
    if "(s, m) \<in> set (stub_pairs st)" for s m
  proof -
    have q: "CHR ''/'' \<notin> set s" "CHR ''/'' \<notin> set m" using pairs that zname_plain by blast+
    have q': "CHR ''/'' \<notin> set s'" "CHR ''/'' \<notin> set m'" if "(s', m') \<in> set (stub_pairs st)" for s' m'
      using pairs that zname_plain by blast+
    let ?N = "{method_path s m @ ''/'' @ a | s m. (s, m) \<in> set (stub_pairs st)}"
    have "method_path s m \<notin> ?N"
    proof clarify
      fix s' m' assume "method_path s m = method_path s' m' @ ''/'' @ a" "(s', m') \<in> set (stub_pairs st)"
      with address_not_dir(1) [OF q' q] show False by metis
    qed
    moreover have "method_path s m @ ''/'' @ c \<in> ?N \<longleftrightarrow> c = a" for c
    proof
      assume "method_path s m @ ''/'' @ c \<in> ?N"
      then obtain s' m' where "method_path s m @ ''/'' @ c = method_path s' m' @ ''/'' @ a"
        "(s', m') \<in> set (stub_pairs st)" by blast
      with method_path_eq [OF q q', of s' m'] show "c = a" by blast
    qed (use that in blast)
    ultimately have "method_path s m @ ''/'' @ c \<in> dom (tree z') \<longleftrightarrow> method_path s m @ ''/'' @ c \<in> dom (tree z) \<and> c \<noteq> a"
      "method_path s m \<in> dom (tree z) \<longrightarrow> method_path s m \<in> dom (tree z')" for c
      by (simp_all only: z'(2) Diff_iff simp_thms)
    then show ?thesis by (simp add: children_def set_eq_iff)
  qed
  then show ?thesis using z'(1) stub_pairs_set [OF assms(2)] by auto
qed

text \<open>
  C5: a client forgets a server that was stopped: the end of the server removes its address from
  every method it served, and the watch of a method, which ZooKeeper then calls, leaves the
  balancer with the other servers of that method.
\<close>

theorem stopped_server_is_forgotten:
  assumes "zoo_tree zk tree" "no_data zk junk" "stub_ok st" "zname addr" "ss_ipPortAddr st = addr"
    and "\<forall>s m. stub_lookup st s m \<noteq> None \<longrightarrow> zname s \<and> zname m \<and>
       method_path s m @ ''/'' @ addr \<in> dom (tree z) \<and> children (tree z) (method_path s m @ ''/'' @ addr) = {}"
    and "stub_lookup st sn mn \<noteq> None" "length (method_path sn mn) \<le> 1023" "method_path sn mn \<in> dom (tree z)"
    and "connected (acts, lbs, z) (service_method_key sn mn) b"
    and "lb_room (the (lbs b)) (card (children (tree z) (method_path sn mn)))"
  shows "\<exists>z1 acts' lbs' z2 lb.
    UnregisterAll (Some (UnregisterMethod zk)) st z = Inr z1 \<and>
    child_watch_cb zk junk (wr_add_server now) wr_remove_server True (ns_path sn mn) (acts, lbs, z1) =
      Inr (acts', lbs', z2) \<and>
    lbs' b = Some lb \<and> lb_members lb = children (tree z) (method_path sn mn) - {addr}"
proof -
  let ?path = "method_path sn mn" let ?C = "children (tree z) (method_path sn mn)"
  obtain z1 where z1: "UnregisterAll (Some (UnregisterMethod zk)) st z = Inr z1"
    "children (tree z1) ?path = ?C - {addr}" "?path \<in> dom (tree z1)"
    using UnregisterAll_ZooKeeper [OF assms(1,3,4,5,6)] assms(7,9) by blast
  obtain a lb where c: "acts (service_method_key sn mn) = Some a" "na_load_balancer a = Some b"
    "lbs b = Some lb" "lb_ok lb" "action_knows a (lb_members lb)"
    using assms(10) by (auto simp: connected_def)
  have "card (?C - {addr}) \<le> card ?C" by (cases "finite ?C") (auto intro: card_mono)
  then have "lb_room lb (card (?C - {addr}) + 0)"
    using assms(11) c(3) lb_room_mono [of lb "card ?C"] by simp
  then obtain a' lb' z2 where r: "RunNS zk junk (wr_add_server now) wr_remove_server sn mn (acts, lbs, z1) =
      Inr (acts(service_method_key sn mn \<mapsto> a'), lbs(b \<mapsto> lb'), z2)" "lb_members lb' = ?C - {addr}"
    using wrlb.RunNS_synchronises [where acts = acts and lbs = lbs and z = z1 and now = now and k = 0,
        OF assms(1,2,8) z1(3) c, unfolded z1(2)] by blast
  have n: "CHR ''/'' \<notin> set sn" "CHR 0x00 \<notin> set sn" "CHR 0x00 \<notin> set mn" using assms(6,7) zname_plain by blast+
  have "watch_names (ns_path sn mn) = Inr (sn, mn)" by (rule watch_names_path [OF n(1) assms(8)])
  with n r z1(1) show ?thesis by (auto simp: child_watch_cb_def c_str_id)
qed

section \<open>Witnesses\<close>

text \<open>The demo service on a machine whose system calls succeed, and an empty ZooKeeper.\<close>

definition demo_sys :: net_sys where
  "demo_sys = \<lparr>ns_socket = (\<lambda>_. 3), ns_opt = (\<lambda>_. 0), ns_inet_addr = (\<lambda>_. 0), ns_bind = (\<lambda>_ _. 0),
     ns_listen = (\<lambda>_ _. 0)\<rparr>"

lemma demo_served:
  "stub_ok demo_stub" "zname (addr_str (Some ''10.0.0.1'') 80)"
  "\<forall>s m. stub_lookup demo_stub s m \<noteq> None \<longrightarrow> zname s \<and> zname m \<and> method_dirs (map_of []) s m"
  "children (map_of []) p = {}" "length (method_path ''math'' ''twice'') \<le> 1023"
  "cl_lbs client_stub_new ''math'' = None" "CHR '':'' \<notin> set ''10.0.0.1''"
  "\<forall>n > 1. 1 \<le> (\<lambda>_ _. 1 :: int) (0 :: nat) (n :: int) \<and> (\<lambda>_ _. 1 :: int) (0 :: nat) n < n"
proof -
  show "stub_ok demo_stub" by (simp add: stub_ok_def service_ok_def)
  show "zname (addr_str (Some ''10.0.0.1'') 80)" by (simp add: demo_address zname_def)
  show "\<forall>s m. stub_lookup demo_stub s m \<noteq> None \<longrightarrow> zname s \<and> zname m \<and> method_dirs (map_of []) s m"
    by (auto simp: stub_lookup_def zname_def method_dirs_def dir_ok_def split: option.splits if_splits)
qed (simp_all add: children_def method_path_def client_stub_new_def)


text \<open>The bytes of the request and of the answer in the encoding of Protocol Buffers.\<close>

definition demo_head :: string where
  "demo_head = [CHR 0x0a, CHR 0x04] @ ''math'' @ [CHR 0x12, CHR 0x05] @ ''twice'' @ [CHR 0x18, CHR 0x03]"

definition demo_rhead :: string where
  "demo_rhead = [CHR 0x12, CHR 0x07] @ ''success'' @ [CHR 0x18, CHR 0x06]"

definition demo_pb_net :: net_io where
  "demo_pb_net = (demo_net [frame demo_rhead ''abcabc''])\<lparr>nio_sends := [22]\<rparr>"

lemma demo_bytes:
  "header_Serialize base128 \<lparr>rh_service_name = ''math'', rh_method_name = ''twice'', rh_args_size = 3\<rparr> = demo_head"
  "response_Serialize base128 \<lparr>rr_status = SUCCESS, rr_message = ''success'', rr_args_size = 6\<rparr> = demo_rhead"
  by code_simp+

lemma first_call_returns_answer_witness:
  "\<exists>t' z1 k1 b r cl' z2 k2.
    rpc_start (Some (RegisterMethod list_zoo)) demo_sys (Some ''10.0.0.1'') 80 (demo_stub, tcp_server_new) []
      (\<lambda>_. fresh_fd True) = Inr ((demo_stub\<lparr>ss_ipPortAddr := ''10.0.0.1:80''\<rparr>, t'), z1, k1, b) \<and>
    call list_zoo (\<lambda>_. replicate 64 CHR 0x00) (pb_codec base128) (\<lambda>_ _. 1) 5 9 demo_pb_net
      ''math'' ''twice'' ''abc'' response_header_new client_stub_new z1 (\<lambda>_. fresh_fd True) =
      Inr (Some (r, cl', z2, k2)) \<and>
    cr_response r = ''abcabc''"
proof -
  let ?st = "demo_stub\<lparr>ss_ipPortAddr := addr_str (Some ''10.0.0.1'') 80\<rparr>" and ?cd = "pb_codec base128"
  have c: "stub_lookup demo_stub ''math'' ''twice'' = Some (\<lambda>args u. (args @ args, u + 1))"
    "(\<lambda>args u. (args @ args, u + 1 :: nat)) ''abc'' 0 = (''abcabc'', 1)" by simp_all
  have n: "- (2 ^ 31) \<le> (80 :: int)" "(80 :: int) < 2 ^ 31" by simp_all
  have s: "s32 (int (length ''abcabc'')) = 6" "length ''abc'' = 3" by (simp_all add: s32_def)
  have w: "w_utf8 base128 ''math''" "w_utf8 base128 ''twice''" "length ''abc'' < 2 ^ 32"
    "length (header_Serialize base128
        \<lparr>rh_service_name = ''math'', rh_method_name = ''twice'', rh_args_size = length ''abc''\<rparr>) < 2 ^ 32"
    "length (frame (response_Serialize base128
        \<lparr>rr_status = SUCCESS, rr_message = ''success'', rr_args_size = s32 (int (length ''abcabc''))\<rparr>) ''abcabc'') \<le> 4096"
    unfolding s demo_bytes by (simp_all add: base128_def frame_def demo_head_def demo_rhead_def)
  have cl: "rr_status response_header_new = SUCCESS" "0 \<le> (5 :: int)" "5 < (9 :: int)" "9 < (2 :: int) ^ 62"
    by (simp_all add: response_header_new_def)
  have h: "cd_hser ?cd \<lparr>rh_service_name = ''math'', rh_method_name = ''twice'', rh_args_size = length ''abc''\<rparr> = demo_head"
    "cd_rser ?cd \<lparr>rr_status = SUCCESS, rr_message = ''success'', rr_args_size = 6\<rparr> = demo_rhead"
    unfolding s using demo_bytes by (simp_all add: pb_codec_def)
  have req: "request_of ?cd ''math'' ''twice'' ''abc'' = frame demo_head ''abc''"
    using request_of_frame [of "''abc''" ?cd "''math''" "''twice''"] unfolding h by (simp add: demo_head_def)
  have net: "nio_connect demo_pb_net = [Connected]"
    "nio_sends demo_pb_net = [int (length (request_of ?cd ''math'' ''twice'' ''abc''))]"
    "nio_reads demo_pb_net = map Got [frame demo_rhead ''abcabc'']"
    unfolding req by (simp_all add: demo_pb_net_def demo_net_def frame_def demo_head_def)
  have hd: "cd_hparse ?cd demo_head = \<lparr>rh_service_name = ''math'', rh_method_name = ''twice'', rh_args_size = length ''abc''\<rparr>"
    using pb_codec_reads [OF b128.wire_format_axioms,
        of "\<lparr>rh_service_name = ''math'', rh_method_name = ''twice'', rh_args_size = length ''abc''\<rparr>"] w(1-3)
    unfolding h by (simp add: header_ok_def)
  have o: "on_connection ?cd ?st [request_of ?cd ''math'' ''twice'' ''abc''] 0 [] =
      Inr ([frame demo_rhead ''abcabc''], 1, False)"
    using process_frame [OF hd, of ?st "''abc''" 0] h(2) unfolding req
    by (simp add: answer_def stub_lookup_def s32_def demo_head_def) (simp add: frame_def u32_bytes_def)
  show ?thesis
    using first_call_returns_answer [where ip = "''10.0.0.1''" and port = 80 and sn = "''math''" and mn = "''twice''"
        and cl = client_stub_new and sys = demo_sys and t = tcp_server_new and k = "\<lambda>_. fresh_fd True"
        and kc = "\<lambda>_. fresh_fd True",
        OF list_zoo_tree demo_no_data demo_served(2,5,4,1,3) c demo_served(7) n b128.wire_format_axioms w
          demo_served(6) cl demo_served(8) net(1,2) o net(3)]
    unfolding demo_address by blast
qed

text \<open>Two servers of the demo service, of which the first is stopped.\<close>

definition two_servers :: "(string \<times> create_mode) list" where
  "two_servers = [(''/math'', ZOO_PERSISTENT), (''/math/twice'', ZOO_PERSISTENT),
     (''/math/twice/10.0.0.1:80'', ZOO_EPHEMERAL), (''/math/twice/10.0.0.2:80'', ZOO_EPHEMERAL)]"

lemma two_servers_children:
  "children (map_of two_servers) ''/math/twice'' = {''10.0.0.1:80'', ''10.0.0.2:80''}"
  "children (map_of two_servers) ''/math/twice/10.0.0.1:80'' = {}"
  unfolding set_list_children [symmetric]
  by (simp_all add: list_children_def two_servers_def zparent_def zlast_def)

lemma stopped_server_is_forgotten_witness:
  "\<exists>z1 acts' lbs' z2 lb.
    UnregisterAll (Some (UnregisterMethod list_zoo)) (demo_stub\<lparr>ss_ipPortAddr := ''10.0.0.1:80''\<rparr>) two_servers = Inr z1 \<and>
    child_watch_cb list_zoo (\<lambda>_. replicate 64 CHR 0x00) (wr_add_server 5) wr_remove_server True (ns_path ''math'' ''twice'')
      ([service_method_key ''math'' ''twice'' \<mapsto> SetLoadBalancer ''math'' action_new], [''math'' \<mapsto> lalb_new], z1) =
      Inr (acts', lbs', z2) \<and>
    lbs' ''math'' = Some lb \<and> lb_members lb = {''10.0.0.2:80''}"
proof -
  let ?st = "demo_stub\<lparr>ss_ipPortAddr := ''10.0.0.1:80''\<rparr>"
  have m: "method_path ''math'' ''twice'' = ''/math/twice''" by (simp add: method_path_def)
  have st: "stub_ok ?st" "ss_ipPortAddr ?st = ''10.0.0.1:80''" "stub_lookup ?st ''math'' ''twice'' \<noteq> None"
    using demo_served(1) by (simp_all add: stub_ok_def stub_lookup_def)
  have n: "zname ''10.0.0.1:80''" by (simp add: zname_def)
  have l: "stub_lookup ?st s m \<noteq> None \<Longrightarrow> s = ''math'' \<and> m = ''twice''" for s m
    by (auto simp: stub_lookup_def split: option.splits if_splits)
  have g: "zname ''math'' \<and> zname ''twice'' \<and>
      method_path ''math'' ''twice'' @ ''/'' @ ''10.0.0.1:80'' \<in> dom (map_of two_servers) \<and>
      children (map_of two_servers) (method_path ''math'' ''twice'' @ ''/'' @ ''10.0.0.1:80'') = {}"
    using two_servers_children(2) by (simp add: m zname_def two_servers_def)
  have s: "\<forall>s m. stub_lookup ?st s m \<noteq> None \<longrightarrow> zname s \<and> zname m \<and>
      method_path s m @ ''/'' @ ''10.0.0.1:80'' \<in> dom (map_of two_servers) \<and>
      children (map_of two_servers) (method_path s m @ ''/'' @ ''10.0.0.1:80'') = {}"
  proof (intro allI impI)
    fix s m assume "stub_lookup ?st s m \<noteq> None"
    then show "zname s \<and> zname m \<and> method_path s m @ ''/'' @ ''10.0.0.1:80'' \<in> dom (map_of two_servers) \<and>
        children (map_of two_servers) (method_path s m @ ''/'' @ ''10.0.0.1:80'') = {}"
      using g l by blast
  qed
  have p: "length (method_path ''math'' ''twice'') \<le> 1023" "method_path ''math'' ''twice'' \<in> dom (map_of two_servers)"
    by (simp_all add: m two_servers_def)
  have c: "connected ([service_method_key ''math'' ''twice'' \<mapsto> SetLoadBalancer ''math'' action_new],
      [''math'' \<mapsto> lalb_new], two_servers) (service_method_key ''math'' ''twice'') ''math''"
    using action_knows_new by (simp add: connected_def lalb_new_ok) (simp add: SetLoadBalancer_def)
  have r: "lb_room (the ([''math'' \<mapsto> lalb_new] ''math''))
      (card (children (map_of two_servers) (method_path ''math'' ''twice'')))"
    by (simp add: m two_servers_children lalb_new_room)
  have e: "children (map_of two_servers) (method_path ''math'' ''twice'') - {''10.0.0.1:80''} = {''10.0.0.2:80''}"
    by (simp add: m two_servers_children insert_Diff_if)
  from stopped_server_is_forgotten [OF list_zoo_tree demo_no_data st(1) n st(2) s st(3) p c r, of 5]
  show ?thesis unfolding e .
qed

end
